(* ===== verification/Prelude.thy ===== *)
theory Prelude
  imports Main "HOL-Library.Word" "HOL-Library.Multiset"
begin

text \<open>
  Shared vocabulary of the development: the machine integer types of types.h, the
  constants of param.h, the outcome of a kernel operation (it returns, it panics, or it
  goes to sleep on a channel), and the generic lemmas on lists and words that the
  component theories use.
\<close>

unbundle bit_operations_syntax

section \<open>Machine integers\<close>

text \<open>
  \<open>uchar\<close>, \<open>ushort\<close> and \<open>uint\<close> of types.h. A C \<open>int\<close> is kept at its width too: it is a
  32-bit word read with \<^term>\<open>sint\<close>, so arithmetic wraps as the hardware's does.
\<close>

type_synonym uchar = "8 word"
type_synonym ushort = "16 word"
type_synonym uint = "32 word"
type_synonym cint = "32 word"

section \<open>Constants of param.h\<close>

abbreviation (input) NPROC :: nat where "NPROC \<equiv> 64"
abbreviation (input) KSTACKSIZE :: nat where "KSTACKSIZE \<equiv> 4096"
abbreviation (input) NOFILE :: nat where "NOFILE \<equiv> 16"
abbreviation (input) NFILE :: nat where "NFILE \<equiv> 100"
abbreviation (input) NINODE :: nat where "NINODE \<equiv> 50"
abbreviation (input) NDEV :: nat where "NDEV \<equiv> 10"
abbreviation (input) ROOTDEV :: nat where "ROOTDEV \<equiv> 1"
abbreviation (input) MAXARG :: nat where "MAXARG \<equiv> 32"
abbreviation (input) MAXOPBLOCKS :: nat where "MAXOPBLOCKS \<equiv> 10"
abbreviation (input) LOGSIZE :: nat where "LOGSIZE \<equiv> 30"
abbreviation (input) NBUF :: nat where "NBUF \<equiv> 30"
abbreviation (input) FSSIZE :: nat where "FSSIZE \<equiv> 1000"
abbreviation (input) STRIDE1 :: cint where "STRIDE1 \<equiv> 1024"
abbreviation (input) TICKETS_INIT :: cint where "TICKETS_INIT \<equiv> 8"
abbreviation (input) TICKETS_MAX :: cint where "TICKETS_MAX \<equiv> 32"

section \<open>Outcomes\<close>

text \<open>
  Addresses of kernel objects that the code compares. A process pointer is a slot of
  \<open>ptable.proc\<close> or an entry of the scheduler's local heap, which holds copies of slots
  (proc.c, \<open>sched_stride\<close>). A sleep channel is the address of a kernel object.
\<close>

datatype procref = Slot nat | HeapCopy nat

datatype chan =
    ChProc procref | ChTicks | ChLog | ChInput
  | ChBuf nat | ChBufLock nat | ChInodeLock nat
  | ChPipeRead uint | ChPipeWrite uint

text \<open>
  A kernel operation returns a value and a new state, calls \<open>panic\<close>, calls \<open>sleep\<close> on a
  channel, leaving the state in which the process waits, or loops for ever, as on a lock
  that another CPU has to release first.
\<close>

datatype ('a, 's) res = Ok 'a 's | Panic string | Sleep chan 's | Spin

definition rbind :: "('a, 's) res \<Rightarrow> ('a \<Rightarrow> 's \<Rightarrow> ('b, 's) res) \<Rightarrow> ('b, 's) res" where
  "rbind m f = (case m of Ok a s \<Rightarrow> f a s | Panic e \<Rightarrow> Panic e | Sleep c s \<Rightarrow> Sleep c s | Spin \<Rightarrow> Spin)"

lemma rbind_simps [simp]:
  "rbind (Ok a s) f = f a s" "rbind (Panic e) f = Panic e" "rbind (Sleep c s) f = Sleep c s"
  "rbind Spin f = Spin"
  by (simp_all add: rbind_def)

lemma rbind_cong [fundef_cong]:
  "m = m' \<Longrightarrow> (\<And>a s. m' = Ok a s \<Longrightarrow> f a s = g a s) \<Longrightarrow> rbind m f = rbind m' g"
  by (auto simp: rbind_def split: res.splits)

lemma rbind_Ok_iff:
  "rbind m f = Ok b t \<longleftrightarrow> (\<exists>a s. m = Ok a s \<and> f a s = Ok b t)"
  by (cases m) auto

lemma rbind_OkE [elim!]:
  assumes "rbind m f = Ok b t"
  obtains a s where "m = Ok a s" "f a s = Ok b t"
  using assms by (auto simp: rbind_Ok_iff)

lemma rbind_assoc: "rbind (rbind m f) g = rbind m (\<lambda>a s. rbind (f a s) g)"
  by (cases m) auto

text \<open>A \<open>for\<close> loop over a list.\<close>

fun rfor :: "'a list \<Rightarrow> ('a \<Rightarrow> 's \<Rightarrow> (unit, 's) res) \<Rightarrow> 's \<Rightarrow> (unit, 's) res" where
  "rfor [] f s = Ok () s"
| "rfor (x # xs) f s = rbind (f x s) (\<lambda>_ s. rfor xs f s)"

section \<open>Words\<close>

lemma sint_eq_iff [simp]: "sint (a :: 'a::len word) = sint b \<longleftrightarrow> a = b"
  by (auto intro: signed_word_eqI)

lemma unat32_less: "unat (a :: 32 word) < 4294967296"
  using unsigned_less [where 'b = 32 and w = a and 'a = nat] by simp

lemma unat_of_nat32: "n < 4294967296 \<Longrightarrow> unat (of_nat n :: 32 word) = n"
  by (simp add: unat_of_nat)

text \<open>Little-endian words, as the x86 loads and stores them.\<close>

definition le16 :: "uchar \<Rightarrow> uchar \<Rightarrow> ushort" where
  "le16 b0 b1 = word_cat b1 b0"

definition le32 :: "uchar \<Rightarrow> uchar \<Rightarrow> uchar \<Rightarrow> uchar \<Rightarrow> uint" where
  "le32 b0 b1 b2 b3 = word_cat (le16 b2 b3) (le16 b0 b1)"

definition byte_of :: "'a::len word \<Rightarrow> nat \<Rightarrow> uchar" where
  "byte_of w i = ucast (drop_bit (8 * i) w)"

lemma le16_bytes [simp]: "le16 (byte_of (w :: ushort) 0) (byte_of w (Suc 0)) = w"
  by (rule bit_word_eqI) (auto simp: le16_def byte_of_def bit_simps)

lemma bytes_le16 [simp]:
  "byte_of (le16 a b) 0 = a" "byte_of (le16 a b) (Suc 0) = b"
  by (rule bit_word_eqI; auto simp: le16_def byte_of_def bit_simps)+

lemma le32_bytes [simp]:
  "le32 (byte_of (w :: uint) 0) (byte_of w (Suc 0)) (byte_of w 2) (byte_of w 3) = w"
  by (rule bit_word_eqI) (auto simp: le32_def le16_def byte_of_def bit_simps)

lemma bytes_le32 [simp]:
  "byte_of (le32 a b c d) 0 = a" "byte_of (le32 a b c d) (Suc 0) = b"
  "byte_of (le32 a b c d) 2 = c" "byte_of (le32 a b c d) 3 = d"
  by (rule bit_word_eqI; auto simp: le32_def le16_def byte_of_def bit_simps)+

section \<open>Lists\<close>

definition swap_at :: "'a list \<Rightarrow> nat \<Rightarrow> nat \<Rightarrow> 'a list" where
  "swap_at xs i j = xs[i := xs ! j, j := xs ! i]"

lemma length_swap_at [simp]: "length (swap_at xs i j) = length xs"
  by (simp add: swap_at_def)

lemma nth_swap_at:
  "i < length xs \<Longrightarrow> j < length xs \<Longrightarrow> k < length xs \<Longrightarrow>
     swap_at xs i j ! k = (if k = j then xs ! i else if k = i then xs ! j else xs ! k)"
  by (auto simp: swap_at_def nth_list_update)

lemma mset_swap_at [simp]:
  "i < length xs \<Longrightarrow> j < length xs \<Longrightarrow> mset (swap_at xs i j) = mset xs"
  unfolding swap_at_def by (rule mset_swap)

lemma take_swap_at:
  "i < n \<Longrightarrow> j < n \<Longrightarrow> n \<le> length xs \<Longrightarrow> take n (swap_at xs i j) = swap_at (take n xs) i j"
  by (simp add: swap_at_def take_update_swap)

end
