(* ===== verification/PhysMem.thy ===== *)
theory PhysMem
  imports Prelude
begin

text \<open>
  Raw memory, as the kernel sees it through its direct map: bytes at 32-bit kernel virtual
  addresses, with 32-bit little-endian loads and stores, \<open>memset\<close> and \<open>memmove\<close> on byte
  ranges, and the page arithmetic of mmu.h and memlayout.h.
\<close>

type_synonym memory = "uint \<Rightarrow> uchar"

abbreviation (input) PGSIZE :: uint where "PGSIZE \<equiv> 4096"
abbreviation (input) KERNBASE :: uint where "KERNBASE \<equiv> 0x80000000"
abbreviation (input) PHYSTOP :: uint where "PHYSTOP \<equiv> 0xE000000"
abbreviation (input) EXTMEM :: uint where "EXTMEM \<equiv> 0x100000"
abbreviation (input) DEVSPACE :: uint where "DEVSPACE \<equiv> 0xFE000000"

definition V2P :: "uint \<Rightarrow> uint" where "V2P a = a - KERNBASE"
definition P2V :: "uint \<Rightarrow> uint" where "P2V a = a + KERNBASE"

definition PGROUNDUP :: "uint \<Rightarrow> uint" where "PGROUNDUP sz = (sz + PGSIZE - 1) AND NOT (PGSIZE - 1)"
definition PGROUNDDOWN :: "uint \<Rightarrow> uint" where "PGROUNDDOWN a = a AND NOT (PGSIZE - 1)"

definition load32 :: "memory \<Rightarrow> uint \<Rightarrow> uint" where
  "load32 m a = le32 (m a) (m (a + 1)) (m (a + 2)) (m (a + 3))"

definition store32 :: "memory \<Rightarrow> uint \<Rightarrow> uint \<Rightarrow> memory" where
  "store32 m a w = m(a := byte_of w 0, a + 1 := byte_of w 1, a + 2 := byte_of w 2, a + 3 := byte_of w 3)"

definition mem_set :: "memory \<Rightarrow> uint \<Rightarrow> uchar \<Rightarrow> uint \<Rightarrow> memory" where
  "mem_set m a c n = (\<lambda>x. if x - a < n then c else m x)"

definition mem_move :: "memory \<Rightarrow> uint \<Rightarrow> uint \<Rightarrow> uint \<Rightarrow> memory" where
  "mem_move m dst src n = (\<lambda>x. if x - dst < n then m (src + (x - dst)) else m x)"

definition page_aligned :: "uint \<Rightarrow> bool" where
  "page_aligned p \<longleftrightarrow> p mod PGSIZE = 0"

section \<open>Loads and stores\<close>

lemma load32_store32_same [simp]: "load32 (store32 m a w) a = w"
  by (simp add: load32_def store32_def)

lemma load32_cong:
  "m a = m' a \<Longrightarrow> m (a + 1) = m' (a + 1) \<Longrightarrow> m (a + 2) = m' (a + 2) \<Longrightarrow> m (a + 3) = m' (a + 3) \<Longrightarrow>
     load32 m a = load32 m' a"
  by (simp add: load32_def)

lemma store32_apply:
  "\<not> x - a < 4 \<Longrightarrow> store32 m a w x = m x"
  by (auto simp: store32_def)

section \<open>Pages\<close>

lemma page_aligned_dvd: "page_aligned p \<longleftrightarrow> 4096 dvd unat p"
  by (simp add: page_aligned_def word_unat_eq_iff unat_mod_distrib dvd_eq_mod_eq_0)

lemma page_aligned_dvd_word: "page_aligned p \<longleftrightarrow> 4096 dvd p"
proof -
  have "2 ^ 12 dvd p \<longleftrightarrow> 2 ^ 12 udvd p" by (rule exp_dvd_iff_exp_udvd)
  then show ?thesis by (simp add: page_aligned_dvd udvd_nat_alt dvd_def mult.commute)
qed

lemma page_aligned_diff: "page_aligned p \<Longrightarrow> page_aligned q \<Longrightarrow> page_aligned (p - q)"
  by (simp add: page_aligned_dvd_word)

lemma page_aligned_add: "page_aligned p \<Longrightarrow> page_aligned q \<Longrightarrow> page_aligned (p + q)"
  by (simp add: page_aligned_dvd_word)

lemma page_aligned_PGSIZE [simp]: "page_aligned 4096" "page_aligned 0"
  by (simp_all add: page_aligned_def)

lemma page_offset_unat:
  assumes "page_aligned p" "i < 4096"
  shows "unat (p + i) = unat p + unat i"
proof -
  from assms(1) obtain k where k: "unat p = 4096 * k" by (auto simp: page_aligned_dvd)
  have "unat p < 2 ^ 32" using unat32_less [of p] by simp
  with k have "k < 2 ^ 20" by simp
  moreover have "unat i < 4096" using assms(2) by (simp add: word_less_nat_alt)
  ultimately show ?thesis using k by (simp add: unat_word_ariths)
qed

text \<open>The page a byte lies in, as a number. Aligned addresses are told apart by it.\<close>

definition pg :: "uint \<Rightarrow> nat" where
  "pg a = unat a div 4096"

lemma pg_offset [simp]: "page_aligned p \<Longrightarrow> i < 4096 \<Longrightarrow> pg (p + i) = pg p"
  by (auto simp: pg_def page_offset_unat page_aligned_dvd word_less_nat_alt)

lemma pg_inj: "page_aligned p \<Longrightarrow> page_aligned q \<Longrightarrow> pg p = pg q \<longleftrightarrow> p = q"
  by (auto simp: pg_def page_aligned_dvd word_unat_eq_iff)

lemma pg_within: "page_aligned p \<Longrightarrow> x - p < 4096 \<Longrightarrow> pg x = pg p"
  using pg_offset [of p "x - p"] by simp

lemma mem_set_other: "page_aligned p \<Longrightarrow> pg x \<noteq> pg p \<Longrightarrow> mem_set m p c 4096 x = m x"
  by (auto simp: mem_set_def dest: pg_within)

lemma mem_move_other: "page_aligned p \<Longrightarrow> pg x \<noteq> pg p \<Longrightarrow> mem_move m p q 4096 x = m x"
  by (auto simp: mem_move_def dest: pg_within)

lemma offset_small: "j \<le> 4092 \<Longrightarrow> k < 4 \<Longrightarrow> j + k < (4096 :: uint)"
  by unat_arith

lemma store32_other:
  assumes "page_aligned p" "j \<le> 4092" "pg x \<noteq> pg p"
  shows "store32 m (p + j) w x = m x"
proof (rule store32_apply)
  show "\<not> x - (p + j) < 4"
  proof
    assume "x - (p + j) < 4"
    then have "pg (p + (j + (x - (p + j)))) = pg p"
      using assms offset_small [of j "x - (p + j)"] pg_offset by blast
    then show False using assms(3) by simp
  qed
qed

lemma load32_frame:
  assumes "page_aligned q" "i \<le> 4092" "\<And>x. pg x = pg q \<Longrightarrow> m' x = m x"
  shows "load32 m' (q + i) = load32 m (q + i)"
proof -
  have "pg (q + i + k) = pg q" if "k < 4" for k
    using pg_offset [OF assms(1) offset_small [OF assms(2) that]] by (simp add: add.assoc)
  from this [of 0] this [of 1] this [of 2] this [of 3] show ?thesis
    by (intro load32_cong) (simp_all add: assms(3))
qed

lemma load32_store32_other_page [simp]:
  "page_aligned p \<Longrightarrow> page_aligned q \<Longrightarrow> p \<noteq> q \<Longrightarrow> i \<le> 4092 \<Longrightarrow> j \<le> 4092 \<Longrightarrow>
     load32 (store32 m (p + j) w) (q + i) = load32 m (q + i)"
  by (rule load32_frame) (auto simp: store32_other pg_inj)

lemma load32_mem_set_other_page [simp]:
  "page_aligned p \<Longrightarrow> page_aligned q \<Longrightarrow> p \<noteq> q \<Longrightarrow> i \<le> 4092 \<Longrightarrow>
     load32 (mem_set m p c 4096) (q + i) = load32 m (q + i)"
  by (rule load32_frame) (auto simp: mem_set_other pg_inj)

section \<open>Rounding\<close>

lemma PGROUNDDOWN_div: "PGROUNDDOWN a = a div 4096 * 4096"
proof -
  have "a AND NOT (mask 12) = push_bit 12 (drop_bit 12 a)"
    by (rule bit_word_eqI) (auto simp: bit_simps)
  then have "a AND NOT (mask 12) = a div 4096 * 4096"
    by (simp add: push_bit_eq_mult drop_bit_eq_div)
  moreover have "NOT (mask 12 :: uint) = - 4096" by (simp add: mask_eq_exp_minus_1)
  ultimately show ?thesis by (simp add: PGROUNDDOWN_def)
qed

lemma PGROUNDDOWN_unat: "unat (PGROUNDDOWN a) = unat a div 4096 * 4096"
proof -
  have "unat a div 4096 * 4096 < 2 ^ 32"
    using unat32_less [of a] by simp
  then show ?thesis
    by (simp add: PGROUNDDOWN_div unat_word_ariths unat_div_distrib)
qed

lemma PGROUNDDOWN_aligned [simp]: "page_aligned (PGROUNDDOWN a)"
  by (simp add: page_aligned_dvd PGROUNDDOWN_unat)

lemma PGROUNDUP_alt: "PGROUNDUP a = PGROUNDDOWN (a + 4095)"
  by (simp add: PGROUNDUP_def PGROUNDDOWN_def add.commute)

lemma PGROUNDUP_aligned [simp]: "page_aligned (PGROUNDUP a)"
  by (simp add: PGROUNDUP_alt)

text \<open>The round-up is the least page boundary at or above, unless it wraps to 0.\<close>

lemma PGROUNDUP_unat:
  assumes "unat a \<le> 2 ^ 32 - 4096"
  shows "unat (PGROUNDUP a) = (unat a + 4095) div 4096 * 4096"
proof -
  have "unat (a + 4095) = unat a + 4095" using assms by (simp add: unat_word_ariths)
  then show ?thesis by (simp add: PGROUNDUP_alt PGROUNDDOWN_unat)
qed

end
