(* ===== verification/Kalloc.thy ===== *)
theory Kalloc
  imports PhysMem
begin

text \<open>
  The physical page allocator, kalloc.c: a free list threaded through the first word of
  each free page. The free list is kept as the code keeps it, a head pointer and next
  pointers in raw memory; \<open>free_list\<close> relates it to the list of free pages.
\<close>

section \<open>State and operations\<close>

text \<open>
  \<open>kend\<close> is the address of the symbol \<open>end\<close>, the first address after the kernel image,
  which the linker script fixes. \<open>kmem.lock\<close> is not part of the state: the code between
  its acquire and release is one step here.
\<close>

record kmem_st =
  mem :: memory
  freelist :: uint
  use_lock :: bool
  kend :: uint

definition kfree :: "uint \<Rightarrow> 'z kmem_st_scheme \<Rightarrow> (unit, 'z kmem_st_scheme) res" where
  "kfree v s =
     (if v mod PGSIZE \<noteq> 0 \<or> v < kend s \<or> V2P v \<ge> PHYSTOP then Panic ''kfree''
      else Ok () (s\<lparr>mem := store32 (mem_set (mem s) v 1 PGSIZE) v (freelist s), freelist := v\<rparr>))"

definition kalloc :: "'z kmem_st_scheme \<Rightarrow> (uint, 'z kmem_st_scheme) res" where
  "kalloc s =
     (let r = freelist s
      in Ok r (if r \<noteq> 0 then s\<lparr>freelist := load32 (mem s) r\<rparr> else s))"

text \<open>
  The loop of \<open>freerange\<close>. It stops because \<open>kfree\<close> panics outside the direct map, even
  where \<open>p + PGSIZE\<close> wraps around.
\<close>

lemma kfree_Ok_bound:
  assumes "kfree p s = Ok x t"
  shows "unat KERNBASE \<le> unat p" "unat p < unat KERNBASE + unat PHYSTOP"
proof -
  have "p - KERNBASE < PHYSTOP" using assms by (auto simp: kfree_def V2P_def split: if_splits)
  then have "unat (p - KERNBASE) < unat PHYSTOP" by (simp only: word_less_nat_alt)
  moreover from this have "unat p = unat (p - KERNBASE) + unat KERNBASE"
    using unat_word_ariths(1) [of "p - KERNBASE" KERNBASE] by simp
  ultimately show "unat KERNBASE \<le> unat p" "unat p < unat KERNBASE + unat PHYSTOP"
    by simp_all
qed

function freerange_from :: "uint \<Rightarrow> uint \<Rightarrow> 'z kmem_st_scheme \<Rightarrow> (unit, 'z kmem_st_scheme) res" where
  "freerange_from p vend s =
     (if p + PGSIZE \<le> vend
      then rbind (kfree p s) (\<lambda>_ s. freerange_from (p + PGSIZE) vend s)
      else Ok () s)"
  by pat_completeness auto
termination
proof (relation "measure (\<lambda>(p, vend, s). unat KERNBASE + unat PHYSTOP + 4096 - unat p)")
  show "wf (measure (\<lambda>(p, vend, s). unat KERNBASE + unat PHYSTOP + 4096 - unat p))" by simp
next
  fix p vend :: uint and s t :: "'z kmem_st_scheme" and x
  assume "kfree p s = Ok x t"
  note b = kfree_Ok_bound [OF this]
  then have "unat (p + 4096) = unat p + 4096" by (simp add: unat_word_ariths)
  with b show "((p + PGSIZE, vend, t), (p, vend, s))
      \<in> measure (\<lambda>(p, vend, s). unat KERNBASE + unat PHYSTOP + 4096 - unat p)" by simp
qed

declare freerange_from.simps [simp del]

definition freerange :: "uint \<Rightarrow> uint \<Rightarrow> 'z kmem_st_scheme \<Rightarrow> (unit, 'z kmem_st_scheme) res" where
  "freerange vstart vend s = freerange_from (PGROUNDUP vstart) vend s"

definition kinit1 :: "uint \<Rightarrow> uint \<Rightarrow> 'z kmem_st_scheme \<Rightarrow> (unit, 'z kmem_st_scheme) res" where
  "kinit1 vstart vend s = freerange vstart vend (s\<lparr>use_lock := False\<rparr>)"

definition kinit2 :: "uint \<Rightarrow> uint \<Rightarrow> 'z kmem_st_scheme \<Rightarrow> (unit, 'z kmem_st_scheme) res" where
  "kinit2 vstart vend s = rbind (freerange vstart vend s) (\<lambda>_ s. Ok () (s\<lparr>use_lock := True\<rparr>))"

section \<open>The free list\<close>

fun free_list :: "memory \<Rightarrow> uint \<Rightarrow> uint list \<Rightarrow> bool" where
  "free_list m p [] \<longleftrightarrow> p = 0"
| "free_list m p (q # qs) \<longleftrightarrow> p = q \<and> q \<noteq> 0 \<and> free_list m (load32 m q) qs"

definition kpage :: "'z kmem_st_scheme \<Rightarrow> uint \<Rightarrow> bool" where
  "kpage s p \<longleftrightarrow> page_aligned p \<and> kend s \<le> p \<and> V2P p < PHYSTOP"

text \<open>The state holds exactly the free pages \<open>ps\<close>, in the order they will be handed out.\<close>

definition kmem_inv :: "'z kmem_st_scheme \<Rightarrow> uint list \<Rightarrow> bool" where
  "kmem_inv s ps \<longleftrightarrow> free_list (mem s) (freelist s) ps \<and> distinct ps \<and> (\<forall>p \<in> set ps. kpage s p)"

lemma kpage_nz: "kpage s p \<Longrightarrow> p \<noteq> 0"
  by (auto simp: kpage_def V2P_def)

lemma free_list_head: "free_list m p ps \<Longrightarrow> p = (case ps of [] \<Rightarrow> 0 | q # _ \<Rightarrow> q)"
  by (cases ps) auto

lemma free_list_frame:
  "free_list m p ps \<Longrightarrow> \<forall>q \<in> set ps. page_aligned q \<Longrightarrow>
     (\<And>x. \<exists>q \<in> set ps. pg x = pg q \<Longrightarrow> m' x = m x) \<Longrightarrow> free_list m' p ps"
proof (induction ps arbitrary: p)
  case (Cons q qs)
  then have "load32 m' (q + 0) = load32 m (q + 0)" by (intro load32_frame) auto
  with Cons show ?case by simp
qed simp

lemma kfree_kpage: "kfree v s \<noteq> Panic ''kfree'' \<longleftrightarrow> kpage s v"
  by (auto simp: kfree_def kpage_def page_aligned_def not_le not_less)

lemma kfree_inv:
  assumes inv: "kmem_inv s ps" and v: "kpage s v" "v \<notin> set ps"
  shows "\<exists>t. kfree v s = Ok () t \<and> kmem_inv t (v # ps) \<and> kend t = kend s \<and> use_lock t = use_lock s \<and>
     (\<forall>x. pg x \<noteq> pg v \<longrightarrow> mem t x = mem s x)"
proof -
  let ?m = "store32 (mem_set (mem s) v 1 PGSIZE) v (freelist s)"
  let ?t = "s\<lparr>mem := ?m, freelist := v\<rparr>"
  have al: "page_aligned v" "\<forall>q \<in> set ps. page_aligned q"
    using inv v by (auto simp: kmem_inv_def kpage_def)
  have other: "?m x = mem s x" if "pg x \<noteq> pg v" for x
    using that al store32_other [of v 0 x] by (simp add: mem_set_other)
  have "free_list ?m (freelist s) ps"
  proof (rule free_list_frame [where m = "mem s"])
    fix x assume "\<exists>q \<in> set ps. pg x = pg q"
    then have "pg x \<noteq> pg v" using v(2) al pg_inj by metis
    then show "?m x = mem s x" by (rule other)
  qed (use inv al in \<open>auto simp: kmem_inv_def\<close>)
  then have "kmem_inv ?t (v # ps)"
    using inv v kpage_nz [OF v(1)] by (simp add: kmem_inv_def kpage_def)
  moreover have "kfree v s = Ok () ?t"
    using v(1) by (simp add: kfree_def kpage_def page_aligned_def not_le not_less)
  ultimately show ?thesis using other by simp
qed

lemma kalloc_inv:
  assumes "kmem_inv s ps"
  shows "case ps of [] \<Rightarrow> kalloc s = Ok 0 s
    | p # ps' \<Rightarrow> kalloc s = Ok p (s\<lparr>freelist := load32 (mem s) p\<rparr>) \<and>
                 kmem_inv (s\<lparr>freelist := load32 (mem s) p\<rparr>) ps'"
  using assms by (cases ps) (auto simp: kmem_inv_def kalloc_def kpage_def)

lemma kmem_inv_frame:
  assumes "kmem_inv s ps" "mem t = m" "freelist t = freelist s" "kend t = kend s"
    "\<And>x. \<exists>q \<in> set ps. pg x = pg q \<Longrightarrow> m x = mem s x"
  shows "kmem_inv t ps"
proof -
  have "free_list m (freelist s) ps"
  proof (rule free_list_frame [where m = "mem s"])
    show "free_list (mem s) (freelist s) ps" "\<forall>q \<in> set ps. page_aligned q"
      using assms(1) by (auto simp: kmem_inv_def kpage_def)
  qed (rule assms(5))
  moreover have "kpage t p = kpage s p" for p using assms(4) by (simp add: kpage_def)
  ultimately show ?thesis using assms(1-3) by (simp add: kmem_inv_def)
qed

section \<open>Properties\<close>

text \<open>C31: With a well-formed free list, \<open>kalloc\<close> returns the first free page, which is page
  aligned and inside free physical memory, and removes it from the list; with no free page
  it returns the null pointer and changes nothing.\<close>

theorem kalloc_correct:
  assumes "kmem_inv s ps"
  shows "\<exists>r t. kalloc s = Ok r t \<and>
     (ps = [] \<longrightarrow> r = 0 \<and> t = s) \<and>
     (ps \<noteq> [] \<longrightarrow> r = hd ps \<and> r \<noteq> 0 \<and> kpage s r \<and> kmem_inv t (tl ps) \<and> r \<notin> set (tl ps) \<and> mem t = mem s)"
  using kalloc_inv [OF assms] assms kpage_nz by (cases ps) (auto simp: kmem_inv_def)

text \<open>C32: \<open>kfree\<close> accepts exactly the aligned pages between the end of the kernel and the
  top of physical memory and panics on every other address; freeing a page that is not
  already free puts it at the head of the free list, so that the next \<open>kalloc\<close> returns it
  and the pages after it are the ones that were free before. No byte outside the freed
  page changes.\<close>

theorem kfree_kalloc_roundtrip:
  assumes "kmem_inv s ps" "v \<notin> set ps"
  shows "(\<not> kpage s v \<longrightarrow> kfree v s = Panic ''kfree'') \<and>
     (kpage s v \<longrightarrow> (\<exists>t. kfree v s = Ok () t \<and> kmem_inv t (v # ps) \<and>
        (\<forall>x. pg x \<noteq> pg v \<longrightarrow> mem t x = mem s x) \<and>
        (\<exists>u. kalloc t = Ok v u \<and> kmem_inv u ps \<and> freelist u = freelist s)))"
proof -
  have "\<exists>u. kalloc t = Ok v u \<and> kmem_inv u ps \<and> freelist u = freelist s"
    if t: "kmem_inv t (v # ps)" for t :: "'a kmem_st_scheme"
  proof -
    let ?u = "t\<lparr>freelist := load32 (mem t) v\<rparr>"
    have u: "kalloc t = Ok v ?u" "kmem_inv ?u ps" using kalloc_inv [OF t] by auto
    then have "freelist ?u = freelist s"
      using assms(1) free_list_head unfolding kmem_inv_def by metis
    with u show ?thesis by blast
  qed
  then show ?thesis using kfree_inv [OF assms(1) _ assms(2)] kfree_kpage by blast
qed

lemma ucast_page_numbers:
  "unat (p + 4096) = unat p + 4096" if "unat p + 4096 < 4294967296" for p :: uint
  using that by (simp add: unat_word_ariths)

text \<open>The pages of a range, lowest first.\<close>

definition range_pages :: "nat \<Rightarrow> nat \<Rightarrow> uint list" where
  "range_pages p vend = map (\<lambda>i. of_nat (p + 4096 * i)) [0..<(vend - p) div 4096]"

lemma range_pages_Nil: "vend < p + 4096 \<Longrightarrow> range_pages p vend = []"
  by (simp add: range_pages_def)

lemma range_pages_Cons:
  assumes "p + 4096 \<le> vend"
  shows "range_pages p vend = of_nat p # range_pages (p + 4096) vend"
proof -
  have "(vend - p) div 4096 = Suc ((vend - (p + 4096)) div 4096)"
    using assms by (simp add: div_if [of "vend - p"] diff_diff_left)
  then show ?thesis
    by (simp add: range_pages_def upt_conv_Cons map_Suc_upt [symmetric] del: upt_Suc map_Suc_upt)
qed

lemma freerange_from_inv:
  assumes "kmem_inv s ps" "page_aligned p" "kend s \<le> p"
    "unat KERNBASE \<le> unat p" "unat p \<le> unat KERNBASE + unat PHYSTOP"
    "unat vend \<le> unat KERNBASE + unat PHYSTOP"
    "\<forall>q \<in> set ps. unat q < unat p \<or> unat vend \<le> unat q"
  shows "\<exists>t. freerange_from p vend s = Ok () t \<and>
     kmem_inv t (rev (range_pages (unat p) (unat vend)) @ ps) \<and> kend t = kend s"
  using assms
proof (induction p vend s arbitrary: ps rule: freerange_from.induct)
  case (1 p vend s)
  have up: "unat (p + 4096) = unat p + 4096"
    using "1.prems"(5) by (intro ucast_page_numbers) simp
  show ?case
  proof (cases "p + 4096 \<le> vend")
    case True
    then have le: "unat p + 4096 \<le> unat vend" using up by (simp only: word_le_nat_alt)
    have "unat (p - 0x80000000) = unat p - 0x80000000"
      using "1.prems"(4) by (subst unat_sub) (simp_all add: word_le_nat_alt)
    then have "kpage s p"
      using "1.prems"(2,3,6) le by (simp add: kpage_def V2P_def word_less_nat_alt)
    moreover have "p \<notin> set ps" using "1.prems"(7) le by auto
    ultimately obtain t where t: "kfree p s = Ok () t" "kmem_inv t (p # ps)" "kend t = kend s"
      using kfree_inv "1.prems"(1) by blast
    have "kend t \<le> p + 4096" using t "1.prems"(3) up by (simp add: word_le_nat_alt)
    moreover have "\<forall>q \<in> set (p # ps). unat q < unat (p + 4096) \<or> unat vend \<le> unat q"
      using "1.prems"(7) up by auto
    ultimately obtain u where "freerange_from (p + 4096) vend t = Ok () u"
      "kmem_inv u (rev (range_pages (unat (p + 4096)) (unat vend)) @ p # ps)" "kend u = kend t"
      using "1.IH" [OF True t(1) t(2)] "1.prems" up le page_aligned_add [of p 4096] by auto
    then show ?thesis using True t le up
      by (auto simp: freerange_from.simps [of p vend s] range_pages_Cons)
  next
    case False
    then have "unat vend < unat p + 4096" using up by (simp add: word_le_nat_alt)
    then show ?thesis using False "1.prems"(1)
      by (simp add: freerange_from.simps [of p vend s] range_pages_Nil)
  qed
qed

text \<open>\<open>freerange\<close> over a range of free physical memory never panics and puts exactly the
  whole pages of the range, from the first page boundary at or above \<open>vstart\<close> up to
  \<open>vend\<close>, on the free list, the highest page first.\<close>

lemma freerange_correct:
  assumes "kmem_inv s ps" "kend s \<le> PGROUNDUP vstart"
    "unat KERNBASE \<le> unat vstart" "unat vstart \<le> unat KERNBASE + unat PHYSTOP"
    "unat vend \<le> unat KERNBASE + unat PHYSTOP"
    "\<forall>q \<in> set ps. unat q < unat (PGROUNDUP vstart) \<or> unat vend \<le> unat q"
  shows "\<exists>t. freerange vstart vend s = Ok () t \<and>
     kmem_inv t (rev (range_pages ((unat vstart + 4095) div 4096 * 4096) (unat vend)) @ ps)"
proof -
  have u: "unat (PGROUNDUP vstart) = (unat vstart + 4095) div 4096 * 4096"
    using assms(4) by (intro PGROUNDUP_unat) simp
  moreover have "unat vstart \<le> (unat vstart + 4095) div 4096 * 4096" by arith
  moreover have "(unat vstart + 4095) div 4096 * 4096 \<le> unat KERNBASE + unat PHYSTOP"
    using assms(4) by simp
  ultimately show ?thesis
    using freerange_from_inv [OF assms(1) PGROUNDUP_aligned assms(2) _ _ assms(5,6)] assms(3)
    by (auto simp: freerange_def)
qed

section \<open>Witnesses\<close>

definition ex_kmem :: kmem_st where
  "ex_kmem = \<lparr>mem = \<lambda>_. 0, freelist = 0, use_lock = False, kend = 0x80100000\<rparr>"

lemma ex_kmem_inv: "kmem_inv ex_kmem []"
  by (simp add: kmem_inv_def ex_kmem_def)

lemma ex_kmem_inv1: "kmem_inv (ex_kmem\<lparr>freelist := 0x80200000\<rparr>) [0x80200000]"
  by (simp add: kmem_inv_def ex_kmem_def load32_def le32_def le16_def kpage_def page_aligned_def V2P_def)

theorem kalloc_correct_witness:
  "\<exists>t. kalloc (ex_kmem\<lparr>freelist := 0x80200000\<rparr>) = Ok 0x80200000 t \<and> kmem_inv t []"
  using kalloc_correct [OF ex_kmem_inv1] by auto

theorem kfree_kalloc_roundtrip_witness:
  "kpage ex_kmem 0x80200000 \<and>
   (\<exists>t u. kfree 0x80200000 ex_kmem = Ok () t \<and> kalloc t = Ok 0x80200000 u \<and> freelist u = 0)"
proof -
  have "kpage ex_kmem 0x80200000"
    by (simp add: kpage_def ex_kmem_def V2P_def page_aligned_def)
  then show ?thesis using kfree_kalloc_roundtrip [OF ex_kmem_inv, of "0x80200000"]
    by (auto simp: ex_kmem_def)
qed

end
