(* ===== verification/Vm.thy ===== *)
theory Vm
  imports Kalloc
begin

text \<open>
  Page tables, vm.c: the two-level x86 page table as words in raw memory, the walk, and
  the operations that map, allocate, copy and free user memory.
\<close>

section \<open>Page-table entries (mmu.h)\<close>

abbreviation (input) PTE_P :: uint where "PTE_P \<equiv> 1"
abbreviation (input) PTE_W :: uint where "PTE_W \<equiv> 2"
abbreviation (input) PTE_U :: uint where "PTE_U \<equiv> 4"

definition PDX :: "uint \<Rightarrow> uint" where "PDX va = drop_bit 22 va AND 0x3FF"
definition PTX :: "uint \<Rightarrow> uint" where "PTX va = drop_bit 12 va AND 0x3FF"
definition PGADDR :: "uint \<Rightarrow> uint \<Rightarrow> uint \<Rightarrow> uint" where
  "PGADDR d t off = push_bit 22 d OR push_bit 12 t OR off"
definition PTE_ADDR :: "uint \<Rightarrow> uint" where "PTE_ADDR pte = pte AND NOT 0xFFF"
definition PTE_FLAGS :: "uint \<Rightarrow> uint" where "PTE_FLAGS pte = pte AND 0xFFF"

section \<open>State\<close>

text \<open>
  \<open>kdata\<close> is the address of the linker symbol \<open>data\<close>, \<open>cr3\<close> the page-table register, and
  \<open>esp0\<close> the kernel stack the CPU's task segment names.
\<close>

record vm_st = kmem_st +
  kpgdir :: uint
  kdata :: uint
  cr3 :: uint
  esp0 :: uint

section \<open>Walking and mapping\<close>

text \<open>Returns the address of the page-table entry, or 0.\<close>

definition walkpgdir :: "uint \<Rightarrow> uint \<Rightarrow> bool \<Rightarrow> 'z kmem_st_scheme \<Rightarrow> (uint, 'z kmem_st_scheme) res" where
  "walkpgdir pgdir va alloc s =
     (let pde = pgdir + 4 * PDX va
      in if load32 (mem s) pde AND PTE_P \<noteq> 0
         then Ok (P2V (PTE_ADDR (load32 (mem s) pde)) + 4 * PTX va) s
         else if \<not> alloc then Ok 0 s
         else rbind (kalloc s) (\<lambda>pgtab s.
           if pgtab = 0 then Ok 0 s
           else Ok (pgtab + 4 * PTX va)
                   (s\<lparr>mem := store32 (mem_set (mem s) pgtab 0 PGSIZE) pde
                               (V2P pgtab OR PTE_P OR PTE_W OR PTE_U)\<rparr>)))"

text \<open>
  The endless loop of \<open>mappages\<close>, which leaves at \<open>a = last\<close>. The two are page boundaries,
  so the loop runs \<open>(last - a) / PGSIZE + 1\<close> times; running out of that fuel is \<^const>\<open>Spin\<close>.
  The result is 0 or -1.
\<close>

fun mappages_loop :: "nat \<Rightarrow> uint \<Rightarrow> uint \<Rightarrow> uint \<Rightarrow> uint \<Rightarrow> uint \<Rightarrow> 'z kmem_st_scheme \<Rightarrow> (int, 'z kmem_st_scheme) res" where
  "mappages_loop 0 pgdir a lst pa perm s = Spin"
| "mappages_loop (Suc n) pgdir a lst pa perm s =
     rbind (walkpgdir pgdir a True s) (\<lambda>pte s.
       if pte = 0 then Ok (- 1) s
       else if load32 (mem s) pte AND PTE_P \<noteq> 0 then Panic ''remap''
       else let s = s\<lparr>mem := store32 (mem s) pte (pa OR perm OR PTE_P)\<rparr>
            in if a = lst then Ok 0 s
               else mappages_loop n pgdir (a + PGSIZE) lst (pa + PGSIZE) perm s)"

definition mappages :: "uint \<Rightarrow> uint \<Rightarrow> uint \<Rightarrow> uint \<Rightarrow> uint \<Rightarrow> 'z kmem_st_scheme \<Rightarrow> (int, 'z kmem_st_scheme) res" where
  "mappages pgdir va sz pa perm s =
     (let a = PGROUNDDOWN va; lst = PGROUNDDOWN (va + sz - 1)
      in mappages_loop (Suc (unat (lst - a) div 4096)) pgdir a lst pa perm s)"

section \<open>Freeing\<close>

text \<open>
  The loop of \<open>deallocuvm\<close>. Each turn moves \<open>a\<close> up by at least a page, so \<open>oldsz / PGSIZE + 1\<close>
  turns reach \<open>oldsz\<close> unless the addresses wrap around.
\<close>

fun deallocuvm_loop :: "nat \<Rightarrow> uint \<Rightarrow> uint \<Rightarrow> uint \<Rightarrow> 'z kmem_st_scheme \<Rightarrow> (unit, 'z kmem_st_scheme) res" where
  "deallocuvm_loop 0 pgdir a oldsz s = (if a < oldsz then Spin else Ok () s)"
| "deallocuvm_loop (Suc n) pgdir a oldsz s =
     (if \<not> a < oldsz then Ok () s
      else rbind (walkpgdir pgdir a False s) (\<lambda>pte s.
        if pte = 0
        then deallocuvm_loop n pgdir (PGADDR (PDX a + 1) 0 0 - PGSIZE + PGSIZE) oldsz s
        else if load32 (mem s) pte AND PTE_P \<noteq> 0
        then let pa = PTE_ADDR (load32 (mem s) pte)
             in if pa = 0 then Panic ''kfree''
                else rbind (kfree (P2V pa) s) (\<lambda>_ s.
                  deallocuvm_loop n pgdir (a + PGSIZE) oldsz (s\<lparr>mem := store32 (mem s) pte 0\<rparr>))
        else deallocuvm_loop n pgdir (a + PGSIZE) oldsz s))"

definition deallocuvm :: "uint \<Rightarrow> uint \<Rightarrow> uint \<Rightarrow> 'z kmem_st_scheme \<Rightarrow> (uint, 'z kmem_st_scheme) res" where
  "deallocuvm pgdir oldsz newsz s =
     (if newsz \<ge> oldsz then Ok oldsz s
      else rbind (deallocuvm_loop (Suc (unat oldsz div 4096)) pgdir (PGROUNDUP newsz) oldsz s)
             (\<lambda>_ s. Ok newsz s))"

fun freevm_loop :: "nat \<Rightarrow> uint \<Rightarrow> uint \<Rightarrow> 'z kmem_st_scheme \<Rightarrow> (unit, 'z kmem_st_scheme) res" where
  "freevm_loop 0 pgdir i s = Ok () s"
| "freevm_loop (Suc n) pgdir i s =
     (let pde = load32 (mem s) (pgdir + 4 * i)
      in if pde AND PTE_P \<noteq> 0
         then rbind (kfree (P2V (PTE_ADDR pde)) s) (\<lambda>_ s. freevm_loop n pgdir (i + 1) s)
         else freevm_loop n pgdir (i + 1) s)"

definition freevm :: "uint \<Rightarrow> 'z kmem_st_scheme \<Rightarrow> (unit, 'z kmem_st_scheme) res" where
  "freevm pgdir s =
     (if pgdir = 0 then Panic ''freevm: no pgdir''
      else rbind (deallocuvm pgdir KERNBASE 0 s) (\<lambda>_ s.
           rbind (freevm_loop 1024 pgdir 0 s) (\<lambda>_ s.
           kfree pgdir s)))"

section \<open>Kernel part of a page table\<close>

text \<open>The rows of \<open>kmap\<close>: virtual start, physical start and end, permissions.\<close>

definition kmap :: "'z vm_st_scheme \<Rightarrow> (uint \<times> uint \<times> uint \<times> uint) list" where
  "kmap s =
    [(KERNBASE, 0, EXTMEM, PTE_W),
     (KERNBASE + EXTMEM, V2P (KERNBASE + EXTMEM), V2P (kdata s), 0),
     (kdata s, V2P (kdata s), PHYSTOP, PTE_W),
     (DEVSPACE, DEVSPACE, 0, PTE_W)]"

fun setupkvm_loop :: "(uint \<times> uint \<times> uint \<times> uint) list \<Rightarrow> uint \<Rightarrow> 'z vm_st_scheme \<Rightarrow> (uint, 'z vm_st_scheme) res" where
  "setupkvm_loop [] pgdir s = Ok pgdir s"
| "setupkvm_loop ((virt, pstart, pend, perm) # ks) pgdir s =
     rbind (mappages pgdir virt (pend - pstart) pstart perm s) (\<lambda>r s.
       if r < 0 then rbind (freevm pgdir s) (\<lambda>_ s. Ok 0 s)
       else setupkvm_loop ks pgdir s)"

definition setupkvm :: "'z vm_st_scheme \<Rightarrow> (uint, 'z vm_st_scheme) res" where
  "setupkvm s =
     rbind (kalloc s) (\<lambda>pgdir s.
       if pgdir = 0 then Ok 0 s
       else let s = s\<lparr>mem := mem_set (mem s) pgdir 0 PGSIZE\<rparr>
            in if P2V PHYSTOP > DEVSPACE then Panic ''PHYSTOP too high''
               else setupkvm_loop (kmap s) pgdir s)"

definition switchkvm :: "'z vm_st_scheme \<Rightarrow> 'z vm_st_scheme" where
  "switchkvm s = s\<lparr>cr3 := V2P (kpgdir s)\<rparr>"

definition kvmalloc :: "'z vm_st_scheme \<Rightarrow> (unit, 'z vm_st_scheme) res" where
  "kvmalloc s = rbind (setupkvm s) (\<lambda>pgdir s. Ok () (switchkvm (s\<lparr>kpgdir := pgdir\<rparr>)))"

text \<open>\<open>switchuvm\<close> on the kernel stack and page directory of the process it is given.\<close>

definition switchuvm :: "uint \<Rightarrow> uint \<Rightarrow> 'z vm_st_scheme \<Rightarrow> (unit, 'z vm_st_scheme) res" where
  "switchuvm kstack pgdir s =
     (if kstack = 0 then Panic ''switchuvm: no kstack''
      else if pgdir = 0 then Panic ''switchuvm: no pgdir''
      else Ok () (s\<lparr>esp0 := kstack + 4096, cr3 := V2P pgdir\<rparr>))"

section \<open>User memory\<close>

text \<open>\<open>init\<close> is the bytes of the program image, at most a page of them.\<close>

definition store_bytes :: "memory \<Rightarrow> uint \<Rightarrow> uchar list \<Rightarrow> memory" where
  "store_bytes m a bs = (\<lambda>x. if unat (x - a) < length bs then bs ! unat (x - a) else m x)"

definition inituvm :: "uint \<Rightarrow> uchar list \<Rightarrow> 'z kmem_st_scheme \<Rightarrow> (unit, 'z kmem_st_scheme) res" where
  "inituvm pgdir init s =
     (if length init \<ge> 4096 then Panic ''inituvm: more than a page''
      else rbind (kalloc s) (\<lambda>pg s.
           rbind (mappages pgdir 0 PGSIZE (V2P pg) (PTE_W OR PTE_U)
                    (s\<lparr>mem := mem_set (mem s) pg 0 PGSIZE\<rparr>)) (\<lambda>_ s.
           Ok () (s\<lparr>mem := store_bytes (mem s) pg init\<rparr>))))"

fun allocuvm_loop :: "nat \<Rightarrow> uint \<Rightarrow> uint \<Rightarrow> uint \<Rightarrow> uint \<Rightarrow> 'z kmem_st_scheme \<Rightarrow> (uint, 'z kmem_st_scheme) res" where
  "allocuvm_loop 0 pgdir a oldsz newsz s = (if a < newsz then Spin else Ok newsz s)"
| "allocuvm_loop (Suc n) pgdir a oldsz newsz s =
     (if \<not> a < newsz then Ok newsz s
      else rbind (kalloc s) (\<lambda>pg s.
        if pg = 0 then rbind (deallocuvm pgdir newsz oldsz s) (\<lambda>_ s. Ok 0 s)
        else rbind (mappages pgdir a PGSIZE (V2P pg) (PTE_W OR PTE_U)
                      (s\<lparr>mem := mem_set (mem s) pg 0 PGSIZE\<rparr>)) (\<lambda>r s.
          if r < 0
          then rbind (deallocuvm pgdir newsz oldsz s) (\<lambda>_ s.
               rbind (kfree pg s) (\<lambda>_ s. Ok 0 s))
          else allocuvm_loop n pgdir (a + PGSIZE) oldsz newsz s)))"

definition allocuvm :: "uint \<Rightarrow> uint \<Rightarrow> uint \<Rightarrow> 'z kmem_st_scheme \<Rightarrow> (uint, 'z kmem_st_scheme) res" where
  "allocuvm pgdir oldsz newsz s =
     (if newsz \<ge> KERNBASE then Ok 0 s
      else if newsz < oldsz then Ok oldsz s
      else allocuvm_loop (Suc (unat newsz div 4096)) pgdir (PGROUNDUP oldsz) oldsz newsz s)"

definition clearpteu :: "uint \<Rightarrow> uint \<Rightarrow> 'z kmem_st_scheme \<Rightarrow> (unit, 'z kmem_st_scheme) res" where
  "clearpteu pgdir uva s =
     rbind (walkpgdir pgdir uva False s) (\<lambda>pte s.
       if pte = 0 then Panic ''clearpteu''
       else Ok () (s\<lparr>mem := store32 (mem s) pte (load32 (mem s) pte AND NOT PTE_U)\<rparr>))"

fun copyuvm_loop :: "nat \<Rightarrow> uint \<Rightarrow> uint \<Rightarrow> uint \<Rightarrow> uint \<Rightarrow> 'z kmem_st_scheme \<Rightarrow> (uint, 'z kmem_st_scheme) res" where
  "copyuvm_loop 0 pgdir d i sz s = (if i < sz then Spin else Ok d s)"
| "copyuvm_loop (Suc n) pgdir d i sz s =
     (if \<not> i < sz then Ok d s
      else rbind (walkpgdir pgdir i False s) (\<lambda>pte s.
        if pte = 0 then Panic ''copyuvm: pte should exist''
        else let e = load32 (mem s) pte
        in if e AND PTE_P = 0 then Panic ''copyuvm: page not present''
        else rbind (kalloc s) (\<lambda>pg s.
          if pg = 0 then rbind (freevm d s) (\<lambda>_ s. Ok 0 s)
          else rbind (mappages d i PGSIZE (V2P pg) (PTE_FLAGS e)
                        (s\<lparr>mem := mem_move (mem s) pg (P2V (PTE_ADDR e)) PGSIZE\<rparr>)) (\<lambda>r s.
            if r < 0
            then rbind (kfree pg s) (\<lambda>_ s. rbind (freevm d s) (\<lambda>_ s. Ok 0 s))
            else copyuvm_loop n pgdir d (i + PGSIZE) sz s))))"

definition copyuvm :: "uint \<Rightarrow> uint \<Rightarrow> 'z vm_st_scheme \<Rightarrow> (uint, 'z vm_st_scheme) res" where
  "copyuvm pgdir sz s =
     rbind (setupkvm s) (\<lambda>d s.
       if d = 0 then Ok 0 s else copyuvm_loop (Suc (unat sz div 4096)) pgdir d 0 sz s)"

text \<open>\<open>uva2ka\<close> does not test the walk's result: a null entry pointer faults in the kernel.\<close>

definition uva2ka :: "uint \<Rightarrow> uint \<Rightarrow> 'z kmem_st_scheme \<Rightarrow> (uint, 'z kmem_st_scheme) res" where
  "uva2ka pgdir uva s =
     rbind (walkpgdir pgdir uva False s) (\<lambda>pte s.
       if pte = 0 then Panic ''trap''
       else let e = load32 (mem s) pte
       in if e AND PTE_P = 0 then Ok 0 s
          else if e AND PTE_U = 0 then Ok 0 s
          else Ok (P2V (PTE_ADDR e)) s)"

lemma PGROUNDDOWN_offset: "va - PGROUNDDOWN va < 4096"
proof -
  have "unat (va - PGROUNDDOWN va) = unat va mod 4096"
    by (subst unat_sub) (auto simp: word_le_nat_alt PGROUNDDOWN_unat minus_div_mult_eq_mod)
  then show ?thesis by (simp add: word_less_nat_alt)
qed

lemma page_rest_pos: "0 < unat (PGSIZE - (va - PGROUNDDOWN va))"
proof -
  have "PGSIZE - (va - PGROUNDDOWN va) \<noteq> 0"
    using PGROUNDDOWN_offset [of va] by (metis less_irrefl right_minus_eq)
  then show ?thesis by (simp add: unat_gt_0)
qed

text \<open>The bytes to copy are the list \<open>buf\<close>; its length is \<open>len\<close>.\<close>

function copyout :: "uint \<Rightarrow> uint \<Rightarrow> uchar list \<Rightarrow> 'z kmem_st_scheme \<Rightarrow> (int, 'z kmem_st_scheme) res" where
  "copyout pgdir va buf s =
     (if buf = [] then Ok 0 s
      else let va0 = PGROUNDDOWN va
      in rbind (uva2ka pgdir va0 s) (\<lambda>pa0 s.
        if pa0 = 0 then Ok (- 1) s
        else let n = min (unat (PGSIZE - (va - va0))) (length buf)
             in copyout pgdir (va0 + PGSIZE) (drop n buf)
                  (s\<lparr>mem := store_bytes (mem s) (pa0 + (va - va0)) (take n buf)\<rparr>)))"
  by pat_completeness auto
termination
  by (relation "measure (\<lambda>(pgdir, va, buf, s). length buf)") (auto simp: page_rest_pos)

declare copyout.simps [simp del]

end
