(* ===== verification/Spinlock.thy ===== *)
theory Spinlock
  imports Prelude
begin

text \<open>
  Spin locks and the nested interrupt disabling they use, spinlock.c. The operations of
  one CPU are functions on its \<open>struct cpu\<close> and the lock; the interleavings of several
  CPUs on one lock are a step relation whose steps are the pieces of \<open>acquire\<close> and
  \<open>release\<close> that the hardware makes atomic.
\<close>

section \<open>Operations of one CPU\<close>

text \<open>
  The fields of \<open>struct cpu\<close> that locking uses, with \<open>ifl\<close> the interrupt flag FL_IF of the
  CPU's eflags register. CPUs are numbered; the debugging fields \<open>name\<close> and \<open>pcs\<close> of a
  lock play no part.
\<close>

record cpu =
  ncli :: int
  intena :: bool
  ifl :: bool

record spinlock =
  locked :: bool
  lkcpu :: "nat option"

definition initlock :: spinlock where
  "initlock = \<lparr>locked = False, lkcpu = None\<rparr>"

definition pushcli :: "cpu \<Rightarrow> cpu" where
  "pushcli c =
     (let eflags = ifl c;
          c = c\<lparr>ifl := False\<rparr>;
          c = (if ncli c = 0 then c\<lparr>intena := eflags\<rparr> else c)
      in c\<lparr>ncli := ncli c + 1\<rparr>)"

definition popcli :: "cpu \<Rightarrow> (unit, cpu) res" where
  "popcli c =
     (if ifl c then Panic ''popcli - interruptible''
      else let c = c\<lparr>ncli := ncli c - 1\<rparr>
           in if ncli c < 0 then Panic ''popcli''
              else Ok () (if ncli c = 0 \<and> intena c then c\<lparr>ifl := True\<rparr> else c))"

definition holding :: "nat \<Rightarrow> spinlock \<Rightarrow> cpu \<Rightarrow> (bool, cpu) res" where
  "holding me lk c =
     rbind (popcli (pushcli c)) (\<lambda>_ c. Ok (locked lk \<and> lkcpu lk = Some me) c)"

text \<open>The three atomic pieces of \<open>acquire\<close>: up to the spin loop, one exchange, the rest.\<close>

definition acquire_enter :: "nat \<Rightarrow> spinlock \<Rightarrow> cpu \<Rightarrow> (unit, cpu) res" where
  "acquire_enter me lk c =
     rbind (holding me lk (pushcli c)) (\<lambda>h c. if h then Panic ''acquire lock'' else Ok () c)"

definition xchg_locked :: "spinlock \<Rightarrow> bool \<times> spinlock" where
  "xchg_locked lk = (locked lk, lk\<lparr>locked := True\<rparr>)"

definition acquire_record :: "nat \<Rightarrow> spinlock \<Rightarrow> spinlock" where
  "acquire_record me lk = lk\<lparr>lkcpu := Some me\<rparr>"

text \<open>\<open>acquire\<close> when no other CPU acts: it spins for ever on a lock that is taken.\<close>

definition acquire :: "nat \<Rightarrow> cpu \<times> spinlock \<Rightarrow> (unit, cpu \<times> spinlock) res" where
  "acquire me = (\<lambda>(c, lk).
     (case acquire_enter me lk c of
        Ok _ c \<Rightarrow> (case xchg_locked lk of
            (True, _) \<Rightarrow> Spin
          | (False, lk) \<Rightarrow> Ok () (c, acquire_record me lk))
      | Panic e \<Rightarrow> Panic e | Sleep ch c \<Rightarrow> Sleep ch (c, lk) | Spin \<Rightarrow> Spin))"

definition release_clear :: "spinlock \<Rightarrow> spinlock" where
  "release_clear lk = lk\<lparr>lkcpu := None\<rparr>"

definition release_store :: "spinlock \<Rightarrow> spinlock" where
  "release_store lk = lk\<lparr>locked := False\<rparr>"

definition release :: "nat \<Rightarrow> cpu \<times> spinlock \<Rightarrow> (unit, cpu \<times> spinlock) res" where
  "release me = (\<lambda>(c, lk).
     (case holding me lk c of
        Ok h c \<Rightarrow>
          (if \<not> h then Panic ''release''
           else (case popcli c of
               Ok _ c \<Rightarrow> Ok () (c, release_store (release_clear lk))
             | Panic e \<Rightarrow> Panic e | Sleep ch c \<Rightarrow> Sleep ch (c, lk) | Spin \<Rightarrow> Spin))
      | Panic e \<Rightarrow> Panic e | Sleep ch c \<Rightarrow> Sleep ch (c, lk) | Spin \<Rightarrow> Spin))"

section \<open>Nesting of pushcli and popcli\<close>

text \<open>A CPU whose interrupts are off while it is inside a pushcli section.\<close>

definition cpu_ok :: "cpu \<Rightarrow> bool" where
  "cpu_ok c \<longleftrightarrow> 0 \<le> ncli c \<and> (0 < ncli c \<longrightarrow> \<not> ifl c)"

lemma cpu_ok_pushcli [simp]: "cpu_ok c \<Longrightarrow> cpu_ok (pushcli c)"
  by (simp add: cpu_ok_def pushcli_def Let_def)

lemma popcli_pushcli:
  "cpu_ok c \<Longrightarrow> popcli (pushcli c) = Ok () (if ncli c = 0 then c\<lparr>intena := ifl c\<rparr> else c)"
  by (cases c) (auto simp: cpu_ok_def popcli_def pushcli_def Let_def)

lemma holding_inside:
  "cpu_ok c \<Longrightarrow> 0 < ncli c \<Longrightarrow> holding me lk c = Ok (locked lk \<and> lkcpu lk = Some me) c"
  by (simp add: holding_def popcli_pushcli)

lemma ncli_pushcli [simp]: "ncli (pushcli c) = ncli c + 1" "ifl (pushcli c) = False"
  by (simp_all add: pushcli_def Let_def)

lemma cpu_ok_popcli: "cpu_ok c \<Longrightarrow> popcli c = Ok x d \<Longrightarrow> cpu_ok d"
  by (auto simp: cpu_ok_def popcli_def Let_def split: if_splits)

text \<open>Balanced sequences of pushcli (\<open>True\<close>) and popcli (\<open>False\<close>).\<close>

inductive balanced :: "bool list \<Rightarrow> bool" where
  bal_Nil: "balanced []"
| bal_nest: "balanced xs \<Longrightarrow> balanced ys \<Longrightarrow> balanced (True # xs @ False # ys)"

fun run_cli :: "bool list \<Rightarrow> cpu \<Rightarrow> (unit, cpu) res" where
  "run_cli [] c = Ok () c"
| "run_cli (True # xs) c = run_cli xs (pushcli c)"
| "run_cli (False # xs) c = rbind (popcli c) (\<lambda>_ c. run_cli xs c)"

lemma run_cli_append: "run_cli (xs @ ys) c = rbind (run_cli xs c) (\<lambda>_ c. run_cli ys c)"
  by (induction xs c rule: run_cli.induct) (auto simp: rbind_assoc cong: rbind_cong)

lemma run_cli_balanced_inside:
  "balanced xs \<Longrightarrow> cpu_ok c \<Longrightarrow> 0 < ncli c \<Longrightarrow> run_cli xs c = Ok () c"
proof (induction arbitrary: c rule: balanced.induct)
  case (bal_nest xs ys)
  then have "run_cli xs (pushcli c) = Ok () (pushcli c)" by simp
  with bal_nest show ?case by (simp add: run_cli_append popcli_pushcli)
qed simp

section \<open>Several CPUs on one lock\<close>

datatype lkpc = Out | Spinning | Got | Inside | Leaving

record smp =
  slock :: spinlock
  cpus :: "nat \<Rightarrow> cpu"
  pc :: "nat \<Rightarrow> lkpc"

definition smp_init :: smp where
  "smp_init = \<lparr>slock = initlock, cpus = (\<lambda>_. \<lparr>ncli = 0, intena = False, ifl = True\<rparr>), pc = (\<lambda>_. Out)\<rparr>"

inductive smp_step :: "smp \<Rightarrow> smp \<Rightarrow> bool" where
  enter: "pc s i = Out \<Longrightarrow> acquire_enter i (slock s) (cpus s i) = Ok () c \<Longrightarrow>
    smp_step s (s\<lparr>cpus := (cpus s)(i := c), pc := (pc s)(i := Spinning)\<rparr>)"
| xchg_busy: "pc s i = Spinning \<Longrightarrow> xchg_locked (slock s) = (True, lk) \<Longrightarrow>
    smp_step s (s\<lparr>slock := lk\<rparr>)"
| xchg_free: "pc s i = Spinning \<Longrightarrow> xchg_locked (slock s) = (False, lk) \<Longrightarrow>
    smp_step s (s\<lparr>slock := lk, pc := (pc s)(i := Got)\<rparr>)"
| record_cpu: "pc s i = Got \<Longrightarrow>
    smp_step s (s\<lparr>slock := acquire_record i (slock s), pc := (pc s)(i := Inside)\<rparr>)"
| leave: "pc s i = Inside \<Longrightarrow> holding i (slock s) (cpus s i) = Ok True c \<Longrightarrow>
    smp_step s (s\<lparr>cpus := (cpus s)(i := c), slock := release_clear (slock s), pc := (pc s)(i := Leaving)\<rparr>)"
| unlock: "pc s i = Leaving \<Longrightarrow> popcli (cpus s i) = Ok () c \<Longrightarrow>
    smp_step s (s\<lparr>cpus := (cpus s)(i := c), slock := release_store (slock s), pc := (pc s)(i := Out)\<rparr>)"

inductive smp_reach :: "smp \<Rightarrow> bool" where
  smp_start: "smp_reach smp_init"
| smp_more: "smp_reach s \<Longrightarrow> smp_step s t \<Longrightarrow> smp_reach t"

definition owner_pc :: "lkpc \<Rightarrow> bool" where
  "owner_pc p \<longleftrightarrow> p = Got \<or> p = Inside \<or> p = Leaving"

definition smp_inv :: "smp \<Rightarrow> bool" where
  "smp_inv s \<longleftrightarrow>
     (\<forall>i j. owner_pc (pc s i) \<and> owner_pc (pc s j) \<longrightarrow> i = j) \<and>
     (\<forall>i. owner_pc (pc s i) \<longrightarrow> locked (slock s)) \<and>
     (\<forall>i. lkcpu (slock s) = Some i \<longleftrightarrow> pc s i = Inside) \<and>
     (\<forall>i. cpu_ok (cpus s i) \<and> (pc s i \<noteq> Out \<longrightarrow> 0 < ncli (cpus s i)))"

lemma acquire_enter_Ok:
  assumes "cpu_ok c" "acquire_enter me lk c = Ok x d"
  shows "d = pushcli c \<and> \<not> (locked lk \<and> lkcpu lk = Some me)"
  using assms by (auto simp: acquire_enter_def holding_inside cpu_ok_def split: if_splits)

lemma smp_step_inv: "smp_step s t \<Longrightarrow> smp_inv s \<Longrightarrow> smp_inv t"
proof (induction rule: smp_step.induct)
  case (enter s i c)
  then have "c = pushcli (cpus s i)" using acquire_enter_Ok by (auto simp: smp_inv_def)
  with enter show ?case by (auto simp: smp_inv_def owner_pc_def cpu_ok_def)
next
  case (xchg_busy s i lk)
  then have "lk = slock s" by (cases "slock s") (auto simp: xchg_locked_def)
  with xchg_busy show ?case by (simp add: smp_inv_def)
next
  case (xchg_free s i lk)
  then show ?case by (fastforce simp: smp_inv_def owner_pc_def xchg_locked_def)
next
  case (record_cpu s i)
  then show ?case by (fastforce simp: smp_inv_def owner_pc_def acquire_record_def)
next
  case (leave s i c)
  then have "c = cpus s i" by (auto simp: smp_inv_def holding_inside)
  with leave show ?case by (fastforce simp: smp_inv_def owner_pc_def release_clear_def)
next
  case (unlock s i c)
  then have "cpu_ok c" using cpu_ok_popcli by (fastforce simp: smp_inv_def)
  with unlock show ?case by (fastforce simp: smp_inv_def owner_pc_def release_store_def)
qed

lemma smp_reach_inv: "smp_reach s \<Longrightarrow> smp_inv s"
proof (induction rule: smp_reach.induct)
  case smp_start
  show ?case by (simp add: smp_inv_def smp_init_def initlock_def owner_pc_def cpu_ok_def)
next
  case (smp_more s t)
  then show ?case using smp_step_inv by blast
qed

lemma popcli_inside:
  "cpu_ok c \<Longrightarrow> 0 < ncli c \<Longrightarrow>
     popcli c = Ok () (c\<lparr>ncli := ncli c - 1, ifl := (ncli c = 1 \<and> intena c)\<rparr>)"
  by (cases c) (auto simp: popcli_def cpu_ok_def Let_def)

lemma acquire_free:
  "cpu_ok c \<Longrightarrow> \<not> locked lk \<Longrightarrow>
     acquire me (c, lk) = Ok () (pushcli c, lk\<lparr>locked := True, lkcpu := Some me\<rparr>)"
  by (simp add: acquire_def acquire_enter_def holding_inside cpu_ok_def xchg_locked_def acquire_record_def)

lemma release_held:
  "cpu_ok c \<Longrightarrow> 0 < ncli c \<Longrightarrow> locked lk \<Longrightarrow> lkcpu lk = Some me \<Longrightarrow>
     release me (c, lk) = Ok () (c\<lparr>ncli := ncli c - 1, ifl := (ncli c = 1 \<and> intena c)\<rparr>,
       lk\<lparr>locked := False, lkcpu := None\<rparr>)"
  by (simp add: release_def holding_inside popcli_inside release_store_def release_clear_def)

section \<open>Properties\<close>

text \<open>C23: Mutual exclusion: however the CPUs interleave, at most one of them is between its
  successful exchange in \<open>acquire\<close> and the final store of \<open>release\<close>; that CPU holds the
  lock word, and its interrupts are off.\<close>

theorem spinlock_mutual_exclusion:
  assumes "smp_reach s" "owner_pc (pc s i)"
  shows "locked (slock s) \<and> \<not> ifl (cpus s i) \<and> (\<forall>j. owner_pc (pc s j) \<longrightarrow> j = i)"
  using smp_reach_inv [OF assms(1)] assms(2)
  by (auto simp: smp_inv_def cpu_ok_def owner_pc_def)

theorem spinlock_mutual_exclusion_witness:
  "\<exists>s. smp_reach s \<and> owner_pc (pc s 0) \<and> locked (slock s)"
proof -
  let ?c = "pushcli (cpus smp_init 0)"
  let ?s1 = "smp_init\<lparr>cpus := (cpus smp_init)(0 := ?c), pc := (pc smp_init)(0 := Spinning)\<rparr>"
  let ?s2 = "?s1\<lparr>slock := (slock ?s1)\<lparr>locked := True\<rparr>, pc := (pc ?s1)(0 := Got)\<rparr>"
  have "smp_step smp_init ?s1"
    by (rule smp_step.enter)
      (simp_all add: smp_init_def acquire_enter_def holding_inside cpu_ok_def initlock_def)
  then have "smp_reach ?s1" by (rule smp_more [OF smp_start])
  moreover have "smp_step ?s1 ?s2"
    by (rule smp_step.xchg_free) (simp_all add: xchg_locked_def smp_init_def initlock_def)
  ultimately have r: "smp_reach ?s2" by (rule smp_more)
  have o: "owner_pc (pc ?s2 0)" by (simp add: owner_pc_def)
  from spinlock_mutual_exclusion [OF r o] r o show ?thesis by blast
qed

text \<open>\<open>pushcli\<close> and \<open>popcli\<close> are matched: a balanced sequence of them never panics, it
  leaves the nesting depth and the interrupt flag as they were, and interrupts are off
  after its first step until its end.\<close>

lemma pushcli_popcli_balanced:
  assumes "balanced xs" "cpu_ok c"
  shows "\<exists>d. run_cli xs c = Ok () d \<and> ncli d = ncli c \<and> ifl d = ifl c \<and> cpu_ok d"
  using assms
proof (induction arbitrary: c rule: balanced.induct)
  case (bal_nest xs ys)
  have "0 < ncli (pushcli c)" using bal_nest.prems by (simp add: cpu_ok_def)
  then have xs: "run_cli xs (pushcli c) = Ok () (pushcli c)"
    using run_cli_balanced_inside bal_nest by simp
  define e where "e = (if ncli c = 0 then c\<lparr>intena := ifl c\<rparr> else c)"
  have e: "cpu_ok e" "ncli e = ncli c" "ifl e = ifl c"
    using bal_nest.prems by (auto simp: e_def cpu_ok_def)
  then obtain d where "run_cli ys e = Ok () d" "ncli d = ncli c" "ifl d = ifl c" "cpu_ok d"
    using bal_nest.IH(2) [of e] by auto
  with xs bal_nest.prems show ?case
    by (simp add: run_cli_append popcli_pushcli e_def [symmetric])
qed simp

text \<open>Taking a free lock and releasing it gives the lock and the interrupt state back;
  taking a lock the CPU already holds, and releasing one it does not hold, panics.\<close>

lemma acquire_release:
  assumes "cpu_ok c"
  shows "(\<not> locked lk \<longrightarrow>
       (\<exists>d lk'. acquire me (c, lk) = Ok () (d, lk') \<and> locked lk' \<and> lkcpu lk' = Some me \<and> \<not> ifl d \<and>
          ncli d = ncli c + 1 \<and>
          (\<exists>e. release me (d, lk') = Ok () (e, lk'\<lparr>locked := False, lkcpu := None\<rparr>) \<and>
             ncli e = ncli c \<and> ifl e = ifl c))) \<and>
     (locked lk \<and> lkcpu lk = Some me \<longrightarrow> acquire me (c, lk) = Panic ''acquire lock'') \<and>
     (locked lk \<and> lkcpu lk \<noteq> Some me \<longrightarrow> acquire me (c, lk) = Spin) \<and>
     (\<not> (locked lk \<and> lkcpu lk = Some me) \<longrightarrow> release me (c, lk) = Panic ''release'')"
proof -
  let ?d = "pushcli c" and ?lk = "lk\<lparr>locked := True, lkcpu := Some me\<rparr>"
  have d: "cpu_ok ?d" "0 < ncli ?d" using assms by (simp_all add: cpu_ok_def)
  have ent: "acquire_enter me lk c = (if locked lk \<and> lkcpu lk = Some me then Panic ''acquire lock'' else Ok () ?d)"
    using holding_inside [OF d] by (simp add: acquire_enter_def)
  have "release me (?d, ?lk) = Ok () (if ncli c = 0 then c\<lparr>intena := ifl c\<rparr> else c, ?lk\<lparr>locked := False, lkcpu := None\<rparr>)"
    using holding_inside [OF d] popcli_pushcli [OF assms]
    by (simp add: release_def release_store_def release_clear_def)
  moreover have "holding me lk c = Ok (locked lk \<and> lkcpu lk = Some me) (if ncli c = 0 then c\<lparr>intena := ifl c\<rparr> else c)"
    using popcli_pushcli [OF assms] by (simp add: holding_def)
  ultimately show ?thesis
    using ent by (auto simp: acquire_def xchg_locked_def acquire_record_def release_def)
qed

end
