(* ===== verification/StrideHeap.thy ===== *)
theory StrideHeap
  imports Prelude "HOL-Library.Product_Lexorder"
begin

text \<open>
  The array min-heap of the stride scheduler: \<open>parent\<close>, \<open>compare\<close>, \<open>greater\<close>, \<open>swap\<close>,
  \<open>push\<close> and \<open>getmin\<close> of proc.c, and the further operations \<open>heapify\<close>, \<open>pop\<close> and
  \<open>getsorted\<close> that the stand-alone copy strideheap.c has. The theory states the contract
  of a priority queue as a locale, proves the client's view of it once (the first element
  out is the least one in, draining gives a sorted permutation), and shows that the array
  heap meets the contract.
\<close>

section \<open>The ordering of processes\<close>

text \<open>
  The fields of \<open>struct proc\<close> the scheduler compares; this is the whole of the cut-down
  \<open>struct proc\<close> of strideheap.c, and proc.h's structure extends it.
\<close>

record sproc =
  pid :: cint
  pass :: cint
  runtime :: cint

definition compare :: "'z sproc_scheme \<Rightarrow> 'z sproc_scheme \<Rightarrow> int" where
  "compare p1 p2 =
     (if pass p1 \<noteq> pass p2 then (if pass p1 <s pass p2 then - 1 else 1)
      else if runtime p1 \<noteq> runtime p2 then (if runtime p1 <s runtime p2 then - 1 else 1)
      else if pid p1 \<noteq> pid p2 then (if pid p1 <s pid p2 then - 1 else 1)
      else 0)"

definition greater :: "'z sproc_scheme \<Rightarrow> 'z sproc_scheme \<Rightarrow> bool" where
  "greater p1 p2 \<longleftrightarrow> compare p1 p2 > 0"

section \<open>The array heap\<close>

record 'p minheap =
  arr :: "'p list"
  hsize :: nat

definition parent :: "nat \<Rightarrow> nat" where
  "parent idx = (idx - 1) div 2"

lemma parent_less: "i \<noteq> 0 \<Longrightarrow> parent i < i"
  by (simp add: parent_def less_mult_imp_div_less)

text \<open>The while loop of \<open>push\<close>.\<close>

function sift_up :: "('p \<Rightarrow> 'p \<Rightarrow> bool) \<Rightarrow> 'p list \<Rightarrow> nat \<Rightarrow> 'p list" where
  "sift_up gt xs idx =
     (if idx \<noteq> 0 \<and> gt (xs ! parent idx) (xs ! idx)
      then sift_up gt (swap_at xs idx (parent idx)) (parent idx) else xs)"
  by pat_completeness auto
termination
  by (relation "measure (\<lambda>(gt, xs, idx). idx)") (auto simp: parent_less)

declare sift_up.simps [simp del]

text \<open>
  strideheap.c's \<open>push\<close> has no bound check: writing past the 64-entry array is undefined
  behaviour, here \<^const>\<open>None\<close>. proc.c's \<open>push\<close> refuses a full heap with \<open>-1\<close> first.
\<close>

definition push_unchecked :: "'z sproc_scheme minheap \<Rightarrow> 'z sproc_scheme \<Rightarrow> 'z sproc_scheme minheap option" where
  "push_unchecked h p =
     (if hsize h < length (arr h)
      then Some \<lparr>arr = sift_up greater ((arr h)[hsize h := p]) (hsize h), hsize = hsize h + 1\<rparr>
      else None)"

definition push :: "'z sproc_scheme minheap \<Rightarrow> 'z sproc_scheme \<Rightarrow> int \<times> 'z sproc_scheme minheap" where
  "push h p =
     (if hsize h = NPROC then (- 1, h)
      else (0, \<lparr>arr = sift_up greater ((arr h)[hsize h := p]) (hsize h), hsize = hsize h + 1\<rparr>))"

definition getmin :: "'p minheap \<Rightarrow> 'p" where
  "getmin h = arr h ! 0"

definition smallest3 :: "('p \<Rightarrow> 'p \<Rightarrow> bool) \<Rightarrow> 'p list \<Rightarrow> nat \<Rightarrow> nat \<Rightarrow> nat" where
  "smallest3 gt xs n idx =
     (let left = 2 * idx + 1; right = left + 1;
          s = (if left < n \<and> gt (xs ! idx) (xs ! left) then left else idx)
      in if right < n \<and> gt (xs ! s) (xs ! right) then right else s)"

lemma smallest3_cases:
  "smallest3 gt xs n idx = idx \<or> (idx < smallest3 gt xs n idx \<and> smallest3 gt xs n idx < n)"
  by (auto simp: smallest3_def Let_def)

function heapify :: "('p \<Rightarrow> 'p \<Rightarrow> bool) \<Rightarrow> 'p list \<Rightarrow> nat \<Rightarrow> nat \<Rightarrow> 'p list" where
  "heapify gt xs n idx =
     (let s = smallest3 gt xs n idx
      in if s \<noteq> idx then heapify gt (swap_at xs idx s) n s else xs)"
  by pat_completeness auto
termination
proof (relation "measure (\<lambda>(gt, xs, n, idx). n - idx)")
  show "wf (measure (\<lambda>(gt, xs, n, idx). n - idx))" by simp
next
  fix gt :: "'p \<Rightarrow> 'p \<Rightarrow> bool" and xs n idx s
  assume "s = smallest3 gt xs n idx" and "s \<noteq> idx"
  then have "idx < s \<and> s < n" using smallest3_cases by metis
  then show "((gt, swap_at xs idx s, n, s), (gt, xs, n, idx))
      \<in> measure (\<lambda>(gt, xs, n, idx). n - idx)" by auto
qed

declare heapify.simps [simp del]

text \<open>\<open>pop\<close> on an empty heap indexes the array at \<open>-1\<close>: \<^const>\<open>None\<close>.\<close>

definition pop :: "'z sproc_scheme minheap \<Rightarrow> 'z sproc_scheme minheap option" where
  "pop h =
     (if hsize h = 0 then None
      else Some \<lparr>arr = heapify greater (swap_at (arr h) 0 (hsize h - 1)) (hsize h - 1) 0,
                 hsize = hsize h - 1\<rparr>)"

text \<open>The two loops of \<open>getsorted\<close>: pop everything, then push everything back.\<close>

fun drain :: "nat \<Rightarrow> 'z sproc_scheme minheap \<Rightarrow> ('z sproc_scheme list \<times> 'z sproc_scheme minheap) option" where
  "drain 0 h = Some ([], h)"
| "drain (Suc n) h =
     (case pop h of
        None \<Rightarrow> None
      | Some h' \<Rightarrow> (case drain n h' of
          None \<Rightarrow> None
        | Some (ps, h'') \<Rightarrow> Some (getmin h # ps, h'')))"

fun refill :: "'z sproc_scheme list \<Rightarrow> 'z sproc_scheme minheap \<Rightarrow> 'z sproc_scheme minheap option" where
  "refill [] h = Some h"
| "refill (p # ps) h = (case push_unchecked h p of None \<Rightarrow> None | Some h' \<Rightarrow> refill ps h')"

definition getsorted :: "'z sproc_scheme minheap \<Rightarrow> ('z sproc_scheme list \<times> 'z sproc_scheme minheap) option" where
  "getsorted h =
     (case drain (hsize h) h of
        None \<Rightarrow> None
      | Some (ps, h') \<Rightarrow> (case refill ps h' of None \<Rightarrow> None | Some h'' \<Rightarrow> Some (ps, h'')))"

section \<open>Heap arrays over a total preorder\<close>

text \<open>
  The contract the heap algorithms rely on: \<open>gt\<close> is a strict weak order, given by an
  integer-valued or any other comparison.
\<close>

definition heap_upto :: "('p \<Rightarrow> 'p \<Rightarrow> bool) \<Rightarrow> 'p list \<Rightarrow> nat \<Rightarrow> bool" where
  "heap_upto gt xs n \<longleftrightarrow> n \<le> length xs \<and> (\<forall>i. i \<noteq> 0 \<and> i < n \<longrightarrow> \<not> gt (xs ! parent i) (xs ! i))"

locale heap_order =
  fixes gt :: "'p \<Rightarrow> 'p \<Rightarrow> bool"
  assumes gt_asym: "gt a b \<Longrightarrow> \<not> gt b a"
    and le_trans: "\<not> gt a b \<Longrightarrow> \<not> gt b c \<Longrightarrow> \<not> gt a c"
begin

lemma gt_irrefl [simp]: "\<not> gt a a"
  using gt_asym by blast

lemma gt_le_trans: "gt b a \<Longrightarrow> \<not> gt b c \<Longrightarrow> gt c a"
  using le_trans by blast

lemma heap_root_least: "heap_upto gt xs n \<Longrightarrow> i < n \<Longrightarrow> \<not> gt (xs ! 0) (xs ! i)"
proof (induction i rule: less_induct)
  case (less i)
  show ?case
  proof (cases "i = 0")
    case False
    then have "\<not> gt (xs ! 0) (xs ! parent i)"
      using less.IH [of "parent i"] less.prems parent_less [OF False] by simp
    moreover have "\<not> gt (xs ! parent i) (xs ! i)"
      using less.prems False by (auto simp: heap_upto_def)
    ultimately show ?thesis by (rule le_trans)
  qed simp
qed

text \<open>
  During \<open>push\<close> only the edge above \<open>idx\<close> may be out of order, and the children of
  \<open>idx\<close> are in order with the parent of \<open>idx\<close>.
\<close>

lemma sift_up_heap:
  assumes "idx < n" and "n \<le> length xs"
    and "\<forall>i. i \<noteq> 0 \<and> i < n \<and> i \<noteq> idx \<longrightarrow> \<not> gt (xs ! parent i) (xs ! i)"
    and "\<forall>i. i \<noteq> 0 \<and> i < n \<and> parent i = idx \<and> idx \<noteq> 0 \<longrightarrow> \<not> gt (xs ! parent idx) (xs ! i)"
  shows "heap_upto gt (sift_up gt xs idx) n"
  using assms
proof (induction idx arbitrary: xs rule: less_induct)
  case (less idx)
  let ?p = "parent idx" and ?ys = "swap_at xs idx (parent idx)"
  show ?case
  proof (cases "idx \<noteq> 0 \<and> gt (xs ! ?p) (xs ! idx)")
    case True
    then have p: "?p < idx" and asym: "\<not> gt (xs ! idx) (xs ! ?p)"
      using gt_asym parent_less by auto
    then have pn: "?p < n" using less.prems by linarith
    have ys: "?ys ! k = (if k = ?p then xs ! idx else if k = idx then xs ! ?p else xs ! k)"
      if "k < n" for k
      using that p less.prems by (simp add: nth_swap_at)
    have "\<not> gt (?ys ! parent i) (?ys ! i)" if i: "i \<noteq> 0" "i < n" "i \<noteq> ?p" for i
    proof (cases "i = idx")
      case True
      then have "?ys ! i = xs ! ?p" "?ys ! parent i = xs ! idx"
        using p i ys [of idx] ys [OF pn] by auto
      then show ?thesis using asym by simp
    next
      case False
      then have edge: "\<not> gt (xs ! parent i) (xs ! i)" using less.prems i by blast
      have pi: "parent i < i" using i by (simp add: parent_less)
      show ?thesis
      proof (cases "parent i = ?p")
        case True
        then have "\<not> gt (xs ! idx) (xs ! i)" using edge asym le_trans by metis
        then show ?thesis using True i False pi p by (simp add: ys)
      next
        case np: False
        show ?thesis
        proof (cases "parent i = idx")
          case True
          then have "\<not> gt (xs ! ?p) (xs ! i)" using less.prems i \<open>idx \<noteq> 0 \<and> _\<close> by blast
          then show ?thesis using True i False pi p np by (simp add: ys)
        next
          case False
          then show ?thesis using edge i \<open>i \<noteq> idx\<close> pi np by (simp add: ys)
        qed
      qed
    qed
    moreover have "\<not> gt (?ys ! parent ?p) (?ys ! i)"
      if i: "i \<noteq> 0" "i < n" "parent i = ?p" "?p \<noteq> 0" for i
    proof -
      have pp: "parent ?p < ?p" using i by (simp add: parent_less)
      have up: "\<not> gt (xs ! parent ?p) (xs ! ?p)" using less.prems i p by auto
      have "\<not> gt (xs ! parent ?p) (xs ! i)" if "i \<noteq> idx"
        using up less.prems that i le_trans by metis
      then show ?thesis using up i pp p less.prems by (auto simp: ys)
    qed
    ultimately have "heap_upto gt (sift_up gt ?ys ?p) n"
      using p less.prems by (intro less.IH) auto
    with True show ?thesis by (simp add: sift_up.simps [of gt xs idx])
  next
    case False
    then have "sift_up gt xs idx = xs" by (auto simp: sift_up.simps [of gt xs idx])
    moreover have "\<not> gt (xs ! parent i) (xs ! i)" if "i \<noteq> 0" "i < n" for i
      using that False less.prems by (cases "i = idx") auto
    ultimately show ?thesis using less.prems by (simp add: heap_upto_def)
  qed
qed

text \<open>
  During \<open>heapify\<close> only the edges below \<open>idx\<close> may be out of order.
\<close>

definition heap_but :: "'p list \<Rightarrow> nat \<Rightarrow> nat \<Rightarrow> bool" where
  "heap_but xs n idx \<longleftrightarrow> n \<le> length xs \<and>
     (\<forall>i. i \<noteq> 0 \<and> i < n \<and> parent i \<noteq> idx \<longrightarrow> \<not> gt (xs ! parent i) (xs ! i)) \<and>
     (\<forall>i. i \<noteq> 0 \<and> i < n \<and> parent i = idx \<and> idx \<noteq> 0 \<longrightarrow> \<not> gt (xs ! parent idx) (xs ! i))"

lemma parent_child: "i \<noteq> 0 \<Longrightarrow> parent i = idx \<longleftrightarrow> i = 2 * idx + 1 \<or> i = 2 * idx + 2"
  by (auto simp: parent_def)

lemma smallest3_le:
  assumes "i \<noteq> 0" "i < n" "parent i = idx"
  shows "\<not> gt (xs ! smallest3 gt xs n idx) (xs ! i)"
proof -
  from assms have "i = 2 * idx + 1 \<or> i = 2 * idx + 2" by (simp add: parent_child)
  then show ?thesis
  proof
    assume "i = 2 * idx + 1"
    with assms(2) show ?thesis
      using gt_asym [of "xs ! idx"] gt_asym [of "xs ! i"] le_trans [of "xs ! Suc i" "xs ! idx" "xs ! i"]
      by (auto simp: smallest3_def Let_def)
  next
    assume "i = 2 * idx + 2"
    with assms(2) show ?thesis by (auto simp: smallest3_def Let_def)
  qed
qed

lemma smallest3_child:
  "smallest3 gt xs n idx \<noteq> idx \<Longrightarrow>
     smallest3 gt xs n idx \<noteq> 0 \<and> parent (smallest3 gt xs n idx) = idx \<and>
     gt (xs ! idx) (xs ! smallest3 gt xs n idx)"
  using le_trans [of "xs ! idx" "xs ! Suc (Suc (2 * idx))" "xs ! Suc (2 * idx)"]
    gt_asym [of "xs ! Suc (2 * idx)" "xs ! Suc (Suc (2 * idx))"]
  by (auto simp: smallest3_def Let_def parent_def split: if_splits)

lemma heap_but_step:
  assumes hb: "heap_but xs n idx" and s: "s = smallest3 gt xs n idx" "s \<noteq> idx"
  shows "heap_but (swap_at xs idx s) n s"
proof -
  have sn: "idx < s" "s < n" using smallest3_cases [of gt xs n idx] s by auto
  have sp: "s \<noteq> 0" "parent s = idx" "gt (xs ! idx) (xs ! s)"
    using smallest3_child [of xs n idx] s by auto
  have n: "n \<le> length xs" using hb by (simp add: heap_but_def)
  let ?ys = "swap_at xs idx s"
  have ys: "?ys ! k = (if k = s then xs ! idx else if k = idx then xs ! s else xs ! k)"
    if "k < n" for k
    using that sn n by (simp add: nth_swap_at)
  have "\<not> gt (?ys ! parent i) (?ys ! i)" if i: "i \<noteq> 0" "i < n" "parent i \<noteq> s" for i
  proof (cases "parent i = idx")
    case True
    then have "\<not> gt (xs ! s) (xs ! i)" using smallest3_le i s by blast
    then show ?thesis using True i sn sp gt_asym parent_less [OF i(1)]
      by (auto simp: ys)
  next
    case False
    then have edge: "\<not> gt (xs ! parent i) (xs ! i)" using hb i by (auto simp: heap_but_def)
    have "\<not> gt (xs ! parent idx) (xs ! s)" if "i = idx"
      using hb sp sn i that by (auto simp: heap_but_def)
    then show ?thesis using edge i False sn sp parent_less [OF i(1)] by (auto simp: ys)
  qed
  moreover have "\<not> gt (?ys ! parent s) (?ys ! i)" if i: "i \<noteq> 0" "i < n" "parent i = s" for i
  proof -
    have "i \<noteq> s" "i \<noteq> idx" using parent_less [OF i(1)] i sn by auto
    moreover have "\<not> gt (xs ! s) (xs ! i)" using hb i sn by (auto simp: heap_but_def)
    ultimately show ?thesis using sp sn i by (auto simp: ys)
  qed
  ultimately show ?thesis using n by (simp add: heap_but_def)
qed

lemma heapify_heap: "heap_but xs n idx \<Longrightarrow> heap_upto gt (heapify gt xs n idx) n"
proof (induction "n - idx" arbitrary: xs idx rule: less_induct)
  case less
  define s where "s = smallest3 gt xs n idx"
  show ?case
  proof (cases "s = idx")
    case True
    then have "\<not> gt (xs ! parent i) (xs ! i)" if "i \<noteq> 0" "i < n" for i
      using that less.prems smallest3_le [of i n idx xs] by (auto simp: heap_but_def s_def)
    then show ?thesis using True less.prems
      by (simp add: heapify.simps [of gt xs n idx] s_def heap_upto_def heap_but_def)
  next
    case False
    then have "n - s < n - idx" using smallest3_cases [of gt xs n idx] by (auto simp: s_def)
    then have "heap_upto gt (heapify gt (swap_at xs idx s) n s) n"
      using less.hyps heap_but_step [OF less.prems s_def False] by blast
    then show ?thesis using False
      by (simp add: heapify.simps [of gt xs n idx] s_def [symmetric] Let_def)
  qed
qed

end

text \<open>Facts about the algorithms that hold for any comparison.\<close>

lemma length_sift_up [simp]: "length (sift_up gt xs idx) = length xs"
proof (induction gt xs idx rule: sift_up.induct)
  case (1 gt xs idx)
  then show ?case by (simp add: sift_up.simps [of gt xs idx])
qed

lemma sift_up_take:
  "idx < n \<Longrightarrow> n \<le> length xs \<Longrightarrow> mset (take n (sift_up gt xs idx)) = mset (take n xs)"
proof (induction gt xs idx rule: sift_up.induct)
  case (1 gt xs idx)
  show ?case
  proof (cases "idx \<noteq> 0 \<and> gt (xs ! parent idx) (xs ! idx)")
    case True
    then have "parent idx < n" using 1 parent_less less_trans by blast
    then show ?thesis using 1 True
      by (simp add: sift_up.simps [of gt xs idx] take_swap_at)
  next
    case False
    then have "sift_up gt xs idx = xs" by (auto simp: sift_up.simps [of gt xs idx])
    then show ?thesis by simp
  qed
qed

lemma length_heapify [simp]: "length (heapify gt xs n idx) = length xs"
proof (induction gt xs n idx rule: heapify.induct)
  case (1 gt xs n idx)
  then show ?case by (simp add: heapify.simps [of gt xs n idx] Let_def)
qed

lemma heapify_take:
  "n \<le> length xs \<Longrightarrow> idx < n \<Longrightarrow> mset (take n (heapify gt xs n idx)) = mset (take n xs)"
proof (induction gt xs n idx rule: heapify.induct)
  case (1 gt xs n idx)
  then show ?case
    using smallest3_cases [of gt xs n idx]
    by (auto simp: heapify.simps [of gt xs n idx] Let_def take_swap_at)
qed

section \<open>The priority-queue contract\<close>

text \<open>
  What a client of a bounded priority queue may rely on: \<open>elems\<close> is the abstraction,
  \<open>cap\<close> the capacity, and \<open>le\<close> the order.
\<close>

fun drainq :: "('q \<Rightarrow> 'a) \<Rightarrow> ('q \<Rightarrow> 'q) \<Rightarrow> nat \<Rightarrow> 'q \<Rightarrow> 'a list \<times> 'q" where
  "drainq least remove 0 q = ([], q)"
| "drainq least remove (Suc n) q =
     (case drainq least remove n (remove q) of (xs, q') \<Rightarrow> (least q # xs, q'))"

locale min_queue =
  fixes ins :: "'a \<Rightarrow> 'q \<Rightarrow> 'q" and least :: "'q \<Rightarrow> 'a" and remove :: "'q \<Rightarrow> 'q"
    and elems :: "'q \<Rightarrow> 'a multiset" and invar :: "'q \<Rightarrow> bool" and cap :: nat
    and le :: "'a \<Rightarrow> 'a \<Rightarrow> bool"
  assumes invar_ins: "invar q \<Longrightarrow> size (elems q) < cap \<Longrightarrow> invar (ins x q)"
    and elems_ins: "invar q \<Longrightarrow> size (elems q) < cap \<Longrightarrow> elems (ins x q) = add_mset x (elems q)"
    and least_le: "invar q \<Longrightarrow> x \<in># elems q \<Longrightarrow> le (least q) x"
    and invar_remove: "invar q \<Longrightarrow> elems q \<noteq> {#} \<Longrightarrow> invar (remove q)"
    and elems_remove: "invar q \<Longrightarrow> elems q \<noteq> {#} \<Longrightarrow> elems q = add_mset (least q) (elems (remove q))"
begin

lemma least_in: "invar q \<Longrightarrow> elems q \<noteq> {#} \<Longrightarrow> least q \<in># elems q"
  using elems_remove by (metis union_single_eq_member)

lemma fold_ins:
  "invar q \<Longrightarrow> size (elems q) + length xs \<le> cap \<Longrightarrow>
     invar (fold ins xs q) \<and> elems (fold ins xs q) = elems q + mset xs"
proof (induction xs arbitrary: q)
  case (Cons x xs)
  then have "invar (ins x q)" "elems (ins x q) = add_mset x (elems q)"
    by (auto intro: invar_ins elems_ins)
  with Cons show ?case by simp
qed simp

lemma select_least:
  assumes "invar q" "elems q = {#}" "xs \<noteq> []" "length xs \<le> cap"
  shows "least (fold ins xs q) \<in> set xs \<and> (\<forall>x \<in> set xs. le (least (fold ins xs q)) x)"
proof -
  have "invar (fold ins xs q)" "elems (fold ins xs q) = mset xs"
    using fold_ins [of q xs] assms by auto
  with least_in [of "fold ins xs q"] least_le [of "fold ins xs q"] assms(3)
  show ?thesis by auto
qed

lemma drain_sorted:
  "invar q \<Longrightarrow> size (elems q) = n \<Longrightarrow> drainq least remove n q = (xs, q') \<Longrightarrow>
     sorted_wrt le xs \<and> mset xs = elems q \<and> invar q' \<and> elems q' = {#}"
proof (induction n arbitrary: q xs)
  case (Suc n)
  then have ne: "elems q \<noteq> {#}" by auto
  have el: "elems q = add_mset (least q) (elems (remove q))"
    using elems_remove Suc.prems ne by blast
  obtain ys where ys: "drainq least remove n (remove q) = (ys, q')" "xs = least q # ys"
    using Suc.prems by (auto split: prod.splits)
  have "size (elems (remove q)) = n" using Suc.prems el by (metis size_add_mset nat.inject)
  then have IH: "sorted_wrt le ys \<and> mset ys = elems (remove q) \<and> invar q' \<and> elems q' = {#}"
    using Suc.IH [of "remove q" ys] Suc.prems ys invar_remove ne by blast
  then have "le (least q) y" if "y \<in> set ys" for y
    using that el least_le [OF Suc.prems(1)] by (metis set_mset_mset insert_iff set_mset_add_mset_insert)
  then show ?case using IH ys el by simp
qed simp

end

section \<open>The array heap meets the contract\<close>

definition sched_key :: "'z sproc_scheme \<Rightarrow> int \<times> int \<times> int" where
  "sched_key p = (sint (pass p), sint (runtime p), sint (pid p))"

lemma greater_iff: "greater p q \<longleftrightarrow> sched_key q < sched_key p"
  by (auto simp: greater_def compare_def sched_key_def word_sless_alt not_less order.order_iff_strict)

definition heap_invar :: "'z sproc_scheme minheap \<Rightarrow> bool" where
  "heap_invar h \<longleftrightarrow> heap_upto greater (arr h) (hsize h) \<and> length (arr h) = NPROC"

definition heap_elems :: "'z sproc_scheme minheap \<Rightarrow> 'z sproc_scheme multiset" where
  "heap_elems h = mset (take (hsize h) (arr h))"

interpretation proc_order: heap_order "greater :: 'z sproc_scheme \<Rightarrow> 'z sproc_scheme \<Rightarrow> bool"
  by unfold_locales (auto simp: greater_iff)

lemma heap_size: "heap_invar h \<Longrightarrow> size (heap_elems h) = hsize h"
  by (simp add: heap_invar_def heap_elems_def heap_upto_def min_def)

lemma heap_elems_empty: "heap_invar h \<Longrightarrow> heap_elems h = {#} \<longleftrightarrow> hsize h = 0"
  using heap_size by (metis size_eq_0_iff_empty)

lemma heap_invar_push:
  assumes "heap_invar h" "hsize h < NPROC"
  shows "heap_invar (snd (push h p)) \<and> heap_elems (snd (push h p)) = add_mset p (heap_elems h)"
proof -
  let ?n = "hsize h" and ?xs = "(arr h)[hsize h := p]"
  have len: "length (arr h) = NPROC" and hp: "heap_upto greater (arr h) ?n"
    using assms(1) by (auto simp: heap_invar_def)
  have "\<not> greater (?xs ! parent i) (?xs ! i)" if "i \<noteq> 0" "i < Suc ?n" "i \<noteq> ?n" for i
    using that hp parent_less [of i] by (auto simp: heap_upto_def)
  moreover have "parent i \<noteq> ?n" if "i \<noteq> 0" "i < Suc ?n" for i
    using parent_less [OF that(1)] that(2) by linarith
  ultimately have "heap_upto greater (sift_up greater ?xs ?n) (Suc ?n)"
    using assms(2) len by (intro proc_order.sift_up_heap) auto
  moreover have "take (Suc ?n) ?xs = take ?n (arr h) @ [p]"
    using assms(2) len by (simp add: take_Suc_conv_app_nth)
  ultimately show ?thesis using assms len
    by (simp add: push_def heap_invar_def heap_elems_def sift_up_take)
qed

lemma heap_pop:
  assumes "heap_invar h" "hsize h \<noteq> 0"
  shows "\<exists>h'. pop h = Some h' \<and> heap_invar h' \<and>
           heap_elems h = add_mset (getmin h) (heap_elems h')"
proof -
  obtain n where n: "hsize h = Suc n" using assms(2) not0_implies_Suc by blast
  let ?xs = "swap_at (arr h) 0 n"
  let ?ys = "heapify greater ?xs n 0"
  have len: "length (arr h) = NPROC" and hp: "heap_upto greater (arr h) (Suc n)"
    and nl: "n < NPROC"
    using assms n by (auto simp: heap_invar_def heap_upto_def)
  have nth: "?xs ! k = (if k = n then arr h ! 0 else if k = 0 then arr h ! n else arr h ! k)"
    if "k < Suc n" for k
    using that len nl by (simp add: nth_swap_at)
  have "\<not> greater (?xs ! parent i) (?xs ! i)" if "i \<noteq> 0" "i < n" "parent i \<noteq> 0" for i
    using that hp parent_less [of i] by (auto simp: nth heap_upto_def)
  then have hb: "proc_order.heap_but ?xs n 0"
    using len nl by (auto simp: proc_order.heap_but_def)
  have "mset (take (Suc n) (arr h)) = mset (take (Suc n) ?xs)"
    using nl len by (simp add: take_swap_at)
  also have "take (Suc n) ?xs = take n ?xs @ [arr h ! 0]"
    using nl len nth [of n] by (simp add: take_Suc_conv_app_nth)
  finally have "heap_elems h = add_mset (getmin h) (mset (take n ?xs))"
    by (simp add: heap_elems_def getmin_def n)
  also have "mset (take n ?xs) = mset (take n ?ys)"
    using nl len by (cases "n = 0") (auto simp: heapify_take)
  finally show ?thesis
    using proc_order.heapify_heap [OF hb] len n
    by (simp add: pop_def heap_invar_def heap_elems_def)
qed

interpretation proc_heap: min_queue
  "\<lambda>p h. snd (push h p)" getmin "\<lambda>h. the (pop h)"
  heap_elems heap_invar NPROC "\<lambda>p q :: 'z sproc_scheme. sched_key p \<le> sched_key q"
proof unfold_locales
  fix q :: "'z sproc_scheme minheap" and x
  assume q: "heap_invar q"
  show "heap_invar (snd (push q x))" if "size (heap_elems q) < NPROC"
    using that q heap_invar_push by (metis heap_size)
  show "heap_elems (snd (push q x)) = add_mset x (heap_elems q)" if "size (heap_elems q) < NPROC"
    using that q heap_invar_push by (metis heap_size)
  show "sched_key (getmin q) \<le> sched_key x" if x: "x \<in># heap_elems q"
  proof -
    from x obtain i where "i < hsize q" "arr q ! i = x"
      by (auto simp: heap_elems_def in_set_conv_nth)
    with q proc_order.heap_root_least [of "arr q" "hsize q" i] show ?thesis
      by (auto simp: heap_invar_def getmin_def greater_iff not_less)
  qed
  assume ne: "heap_elems q \<noteq> {#}"
  then have "hsize q \<noteq> 0" using heap_elems_empty q by blast
  from heap_pop [OF q this]
  show "heap_invar (the (pop q))" "heap_elems q = add_mset (getmin q) (heap_elems (the (pop q)))"
    by auto
qed

lemma drain_drainq:
  "heap_invar h \<Longrightarrow> hsize h = n \<Longrightarrow> drain n h = Some (drainq getmin (\<lambda>h. the (pop h)) n h)"
proof (induction n arbitrary: h)
  case (Suc n)
  then obtain h' where h': "pop h = Some h'" "heap_invar h'"
    "heap_elems h = add_mset (getmin h) (heap_elems h')" using heap_pop by (metis nat.distinct(1))
  then have "hsize h' = n" using heap_size Suc.prems by (metis size_add_mset nat.inject)
  with Suc.IH h' show ?case by (simp split: prod.splits)
qed simp

lemma refill_fold:
  "heap_invar h \<Longrightarrow> hsize h + length ps \<le> NPROC \<Longrightarrow>
     refill ps h = Some (fold (\<lambda>p h. snd (push h p)) ps h)"
proof (induction ps arbitrary: h)
  case (Cons p ps)
  then have "push_unchecked h p = Some (snd (push h p))"
    by (simp add: push_unchecked_def push_def heap_invar_def)
  moreover have "heap_invar (snd (push h p))" "hsize (snd (push h p)) = Suc (hsize h)"
    using Cons.prems heap_invar_push [of h p] by (auto simp: push_def)
  ultimately show ?case using Cons by simp
qed simp

section \<open>Properties\<close>

text \<open>C29: \<open>push\<close> on a well-formed heap with a free slot returns 0, keeps the heap order and
  adds exactly the pushed process; a full heap is refused with \<open>-1\<close> and left unchanged.\<close>

theorem push_correct:
  assumes "heap_invar h"
  shows "(hsize h < NPROC \<longrightarrow> fst (push h p) = 0 \<and> heap_invar (snd (push h p)) \<and>
            heap_elems (snd (push h p)) = add_mset p (heap_elems h)) \<and>
         (hsize h = NPROC \<longrightarrow> push h p = (- 1, h))"
  using heap_invar_push [OF assms] by (auto simp: push_def)

definition ex_heap :: "sproc minheap" where
  "ex_heap = \<lparr>arr = replicate NPROC \<lparr>pid = 0, pass = 0, runtime = 0\<rparr>, hsize = 0\<rparr>"

lemma ex_heap_invar: "heap_invar ex_heap" "hsize ex_heap = 0" "heap_elems ex_heap = {#}"
  by (simp_all add: ex_heap_def heap_invar_def heap_upto_def heap_elems_def)

theorem push_correct_witness:
  "heap_invar (snd (push ex_heap \<lparr>pid = 3, pass = 7, runtime = 1\<rparr>))"
  using push_correct [OF ex_heap_invar(1), of "\<lparr>pid = 3, pass = 7, runtime = 1\<rparr>"]
  by (simp add: ex_heap_invar)

text \<open>Pushing processes one after another on an empty heap and then taking \<open>getmin\<close> gives
  one of them, and none of them is smaller by (pass, runtime, pid): lowest pass first,
  ties broken by the lower runtime and then by the lower pid.\<close>

lemma getmin_least:
  assumes "heap_invar h" "hsize h = 0" "ps \<noteq> []" "length ps \<le> NPROC"
  shows "getmin (fold (\<lambda>p h. snd (push h p)) ps h) \<in> set ps \<and>
         (\<forall>p \<in> set ps. \<not> greater (getmin (fold (\<lambda>p h. snd (push h p)) ps h)) p)"
  using proc_heap.select_least [of h ps] assms heap_elems_empty
  by (auto simp: greater_iff not_less)

text \<open>C30: \<open>getsorted\<close> on a well-formed heap never runs out of elements or room: it returns the
  stored processes sorted by (pass, runtime, pid) and leaves a well-formed heap with the
  same contents.\<close>

theorem getsorted_correct:
  assumes "heap_invar h"
  shows "\<exists>ps h'. getsorted h = Some (ps, h') \<and> sorted_wrt (\<lambda>p q. \<not> greater p q) ps \<and>
           mset ps = heap_elems h \<and> heap_invar h' \<and> heap_elems h' = heap_elems h"
proof -
  obtain ps q where dq: "drainq getmin (\<lambda>h. the (pop h)) (hsize h) h = (ps, q)" by fastforce
  then have q: "sorted_wrt (\<lambda>p q. sched_key p \<le> sched_key q) ps" "mset ps = heap_elems h"
    "heap_invar q" "heap_elems q = {#}"
    using proc_heap.drain_sorted assms heap_size by blast+
  have "length ps = hsize h" using q(2) heap_size [OF assms] by (metis size_mset)
  then have len: "length ps \<le> NPROC" "hsize q = 0"
    using q assms heap_elems_empty by (auto simp: heap_invar_def heap_upto_def)
  have "getsorted h = Some (ps, fold (\<lambda>p h. snd (push h p)) ps q)"
    using dq drain_drainq [OF assms refl] refill_fold [OF q(3), of ps] len
    by (simp add: getsorted_def)
  moreover have "heap_invar (fold (\<lambda>p h. snd (push h p)) ps q)"
    "heap_elems (fold (\<lambda>p h. snd (push h p)) ps q) = heap_elems h"
    using proc_heap.fold_ins [of q ps] q len by auto
  ultimately show ?thesis using q by (auto simp: greater_iff not_less)
qed

text \<open>A heap with three processes, pushed in the wrong order.\<close>

definition ex_three :: "sproc minheap" where
  "ex_three = fold (\<lambda>p h. snd (push h p))
     [\<lparr>pid = 3, pass = 7, runtime = 1\<rparr>, \<lparr>pid = 2, pass = 5, runtime = 0\<rparr>, \<lparr>pid = 1, pass = 5, runtime = 0\<rparr>] ex_heap"

lemma ex_three_invar:
  "heap_invar ex_three"
  "heap_elems ex_three = {#\<lparr>pid = 3, pass = 7, runtime = 1\<rparr>, \<lparr>pid = 2, pass = 5, runtime = 0\<rparr>, \<lparr>pid = 1, pass = 5, runtime = 0\<rparr>#}"
  using proc_heap.fold_ins [OF ex_heap_invar(1), of "[\<lparr>pid = 3, pass = 7, runtime = 1\<rparr>, \<lparr>pid = 2, pass = 5, runtime = 0\<rparr>, \<lparr>pid = 1, pass = 5, runtime = 0\<rparr>]"]
  by (simp_all add: ex_three_def ex_heap_invar add_mset_commute)

theorem getsorted_correct_witness:
  "\<exists>ps h'. getsorted ex_three = Some (ps, h') \<and> sorted_wrt (\<lambda>p q. \<not> greater p q) ps \<and> length ps = 3 \<and>
     mset ps = {#\<lparr>pid = 1, pass = 5, runtime = 0\<rparr>, \<lparr>pid = 2, pass = 5, runtime = 0\<rparr>, \<lparr>pid = 3, pass = 7, runtime = 1\<rparr>#}"
proof -
  obtain ps h' where p: "getsorted ex_three = Some (ps, h')" "sorted_wrt (\<lambda>p q. \<not> greater p q) ps" "mset ps = heap_elems ex_three"
    using getsorted_correct [OF ex_three_invar(1)] by blast
  moreover have "length ps = 3" unfolding size_mset [symmetric] p(3) by (simp add: ex_three_invar(2))
  ultimately show ?thesis by (auto simp: ex_three_invar(2) add_mset_commute)
qed

end
