(* ===== verification/Proc.thy ===== *)
theory Proc
  imports Vm Spinlock StrideHeap
begin

text \<open>
  The process table and the two schedulers, proc.c: allocation of a slot, sleep and
  wakeup, kill, the hand-over of \<open>ptable.lock\<close> between a process and the scheduler, the
  round-robin scheduler and the stride scheduler. \<open>fork\<close>, \<open>exit\<close> and \<open>wait\<close>, which also
  use the file system, are in ProcLife.
\<close>

section \<open>State (proc.h)\<close>

datatype procstate = UNUSED | EMBRYO | SLEEPING | RUNNABLE | RUNNING | ZOMBIE

text \<open>
  \<open>struct proc\<close>. Pointers to files and inodes are indices of the file table and the inode
  cache; \<open>tf\<close> and \<open>pcontext\<close> are addresses on the kernel stack, in raw memory.
\<close>

record proc = sproc +
  sz :: uint
  pgdir :: uint
  kstack :: uint
  state :: procstate
  pparent :: "procref option"
  tf :: uint
  pcontext :: uint
  pchan :: "chan option"
  killed :: bool
  ofile :: "nat option list"
  cwd :: "nat option"
  name :: "uchar list"
  tickets :: cint
  stride :: cint
  remain :: cint
  last_scheduled :: cint
  last_interrupted :: cint

text \<open>
  The globals of proc.c and trap.c on a machine with one CPU. \<open>cproc\<close> is the CPU's
  \<open>c->proc\<close>, \<open>sheap\<close> the local variable \<open>heap\<close> of \<open>sched_stride\<close>, and \<open>a_trapret\<close>,
  \<open>a_forkret\<close> the code addresses of trapret and forkret.
\<close>

record proc_st = vm_st +
  ptable :: "proc list"
  nextpid :: cint
  initproc :: "procref option"
  cproc :: "procref option"
  sheap :: "proc minheap"
  stride_scheduler :: bool
  ticks :: uint
  cpu0 :: cpu
  ptlock :: spinlock
  a_trapret :: uint
  a_forkret :: uint

text \<open>Reading and writing through a process pointer.\<close>

fun pget :: "'z proc_st_scheme \<Rightarrow> procref \<Rightarrow> proc" where
  "pget s (Slot i) = ptable s ! i"
| "pget s (HeapCopy j) = arr (sheap s) ! j"

fun pset :: "procref \<Rightarrow> proc \<Rightarrow> 'z proc_st_scheme \<Rightarrow> 'z proc_st_scheme" where
  "pset (Slot i) p s = s\<lparr>ptable := (ptable s)[i := p]\<rparr>"
| "pset (HeapCopy j) p s = s\<lparr>sheap := (sheap s)\<lparr>arr := (arr (sheap s))[j := p]\<rparr>\<rparr>"

definition pupd :: "procref \<Rightarrow> (proc \<Rightarrow> proc) \<Rightarrow> 'z proc_st_scheme \<Rightarrow> 'z proc_st_scheme" where
  "pupd r f s = pset r (f (pget s r)) s"

section \<open>Allocating a slot\<close>

text \<open>The first slot in the given state, as the scan from the start of the table finds it.\<close>

fun find_idx :: "('p \<Rightarrow> bool) \<Rightarrow> 'p list \<Rightarrow> nat \<Rightarrow> nat option" where
  "find_idx P [] k = None"
| "find_idx P (x # xs) k = (if P x then Some k else find_idx P xs (Suc k))"

text \<open>\<open>sizeof\<close> of the trap frame (x86.h) and of the saved context (proc.h).\<close>

abbreviation (input) TFSIZE :: uint where "TFSIZE \<equiv> 76"
abbreviation (input) CTXSIZE :: uint where "CTXSIZE \<equiv> 20"

definition allocproc :: "'z proc_st_scheme \<Rightarrow> (procref option, 'z proc_st_scheme) res" where
  "allocproc s =
     (case find_idx (\<lambda>p. state p = UNUSED) (ptable s) 0 of
        None \<Rightarrow> Ok None s
      | Some i \<Rightarrow>
          let s = pupd (Slot i) (\<lambda>p. p\<lparr>state := EMBRYO, pid := nextpid s\<rparr>) s;
              s = s\<lparr>nextpid := nextpid s + 1\<rparr>
          in rbind (kalloc s) (\<lambda>k s.
            let s = pupd (Slot i) (\<lambda>p. p\<lparr>kstack := k\<rparr>) s
            in if k = 0 then Ok None (pupd (Slot i) (\<lambda>p. p\<lparr>state := UNUSED\<rparr>) s)
               else let sp = k + of_nat KSTACKSIZE - TFSIZE;
                        s = pupd (Slot i) (\<lambda>p. p\<lparr>tf := sp\<rparr>) s;
                        sp = sp - 4;
                        s = s\<lparr>mem := store32 (mem s) sp (a_trapret s)\<rparr>;
                        sp = sp - CTXSIZE;
                        s = pupd (Slot i) (\<lambda>p. p\<lparr>pcontext := sp\<rparr>) s;
                        s = s\<lparr>mem := store32 (mem_set (mem s) sp 0 CTXSIZE) (sp + 16) (a_forkret s)\<rparr>
                    in Ok (Some (Slot i)) s))"

section \<open>Sleep, wakeup and kill\<close>

definition wakeup1 :: "chan \<Rightarrow> 'z proc_st_scheme \<Rightarrow> 'z proc_st_scheme" where
  "wakeup1 ch s =
     s\<lparr>ptable := map (\<lambda>p. if state p = SLEEPING \<and> pchan p = Some ch then p\<lparr>state := RUNNABLE\<rparr> else p)
                    (ptable s)\<rparr>"

definition wakeup :: "chan \<Rightarrow> 'z proc_st_scheme \<Rightarrow> 'z proc_st_scheme" where
  "wakeup ch s = wakeup1 ch s"

text \<open>
  \<open>sleep\<close> up to the switch to the scheduler: the current process is marked and the outcome
  is \<^const>\<open>Sleep\<close>. \<open>sleep_return\<close> is the rest, run when the process is scheduled again.
\<close>

definition sleep :: "chan \<Rightarrow> 'z proc_st_scheme \<Rightarrow> ('a, 'z proc_st_scheme) res" where
  "sleep ch s =
     (case cproc s of
        None \<Rightarrow> Panic ''sleep''
      | Some r \<Rightarrow> Sleep ch (pupd r (\<lambda>p. p\<lparr>pchan := Some ch, state := SLEEPING\<rparr>) s))"

definition sleep_return :: "procref \<Rightarrow> 'z proc_st_scheme \<Rightarrow> 'z proc_st_scheme" where
  "sleep_return r s = pupd r (\<lambda>p. p\<lparr>pchan := None\<rparr>) s"

definition kill :: "cint \<Rightarrow> 'z proc_st_scheme \<Rightarrow> (int, 'z proc_st_scheme) res" where
  "kill pd s =
     (case find_idx (\<lambda>p. pid p = pd) (ptable s) 0 of
        None \<Rightarrow> Ok (- 1) s
      | Some i \<Rightarrow>
          let s = pupd (Slot i) (\<lambda>p. p\<lparr>killed := True\<rparr>) s
          in Ok 0 (if state (pget s (Slot i)) = SLEEPING
                   then pupd (Slot i) (\<lambda>p. p\<lparr>state := RUNNABLE\<rparr>) s else s))"

definition myproc_killed :: "'z proc_st_scheme \<Rightarrow> bool" where
  "myproc_killed s = (case cproc s of None \<Rightarrow> False | Some r \<Rightarrow> killed (pget s r))"

definition growproc :: "cint \<Rightarrow> 'z proc_st_scheme \<Rightarrow> (int, 'z proc_st_scheme) res" where
  "growproc n s =
     (case cproc s of
        None \<Rightarrow> Panic ''trap''
      | Some r \<Rightarrow>
          let p = pget s r in
          rbind (if 0 <s n then allocuvm (pgdir p) (sz p) (sz p + n) s
                 else if n <s 0 then deallocuvm (pgdir p) (sz p) (sz p + n) s
                 else Ok (sz p) s) (\<lambda>sz' s.
            if n \<noteq> 0 \<and> sz' = 0 then Ok (- 1) s
            else rbind (switchuvm (kstack p) (pgdir p) (pupd r (\<lambda>p. p\<lparr>sz := sz'\<rparr>) s)) (\<lambda>_ s. Ok 0 s)))"

definition getticks :: "'z proc_st_scheme \<Rightarrow> cint" where
  "getticks s = ticks s"

section \<open>Entering the scheduler\<close>

definition lock_op :: "(cpu \<times> spinlock \<Rightarrow> (unit, cpu \<times> spinlock) res) \<Rightarrow> 'z proc_st_scheme \<Rightarrow> (unit, 'z proc_st_scheme) res" where
  "lock_op f s =
     (case f (cpu0 s, ptlock s) of
        Ok _ (c, lk) \<Rightarrow> Ok () (s\<lparr>cpu0 := c, ptlock := lk\<rparr>)
      | Panic e \<Rightarrow> Panic e | Sleep ch _ \<Rightarrow> Sleep ch s | Spin \<Rightarrow> Spin)"

definition acquire_ptable :: "'z proc_st_scheme \<Rightarrow> (unit, 'z proc_st_scheme) res" where
  "acquire_ptable = lock_op (acquire 0)"

definition release_ptable :: "'z proc_st_scheme \<Rightarrow> (unit, 'z proc_st_scheme) res" where
  "release_ptable = lock_op (release 0)"

definition holding_ptable :: "'z proc_st_scheme \<Rightarrow> (bool, 'z proc_st_scheme) res" where
  "holding_ptable s =
     (case holding 0 (ptlock s) (cpu0 s) of
        Ok h c \<Rightarrow> Ok h (s\<lparr>cpu0 := c\<rparr>)
      | Panic e \<Rightarrow> Panic e | Sleep ch _ \<Rightarrow> Sleep ch s | Spin \<Rightarrow> Spin)"

text \<open>
  \<open>sched\<close> up to its swtch, which stores the address of the saved registers, \<open>ctx\<close>, through
  \<open>p->context\<close>; the value is the interrupt-enable flag it saves. \<open>sched_return\<close> is the rest.
\<close>

definition sched :: "uint \<Rightarrow> 'z proc_st_scheme \<Rightarrow> (bool, 'z proc_st_scheme) res" where
  "sched ctx s =
     (case cproc s of
        None \<Rightarrow> Panic ''trap''
      | Some r \<Rightarrow>
          rbind (holding_ptable s) (\<lambda>h s.
          if \<not> h then Panic ''sched ptable.lock''
          else if ncli (cpu0 s) \<noteq> 1 then Panic ''sched locks''
          else if state (pget s r) = RUNNING then Panic ''sched running''
          else if ifl (cpu0 s) then Panic ''sched interruptible''
          else Ok (intena (cpu0 s)) (pupd r (\<lambda>p. p\<lparr>pcontext := ctx\<rparr>) s)))"

definition sched_return :: "bool \<Rightarrow> 'z proc_st_scheme \<Rightarrow> 'z proc_st_scheme" where
  "sched_return ie s = s\<lparr>cpu0 := (cpu0 s)\<lparr>intena := ie\<rparr>\<rparr>"

definition yield :: "uint \<Rightarrow> 'z proc_st_scheme \<Rightarrow> (bool, 'z proc_st_scheme) res" where
  "yield ctx s =
     rbind (acquire_ptable s) (\<lambda>_ s.
       case cproc s of
         None \<Rightarrow> Panic ''trap''
       | Some r \<Rightarrow> sched ctx (pupd r (\<lambda>p. p\<lparr>state := RUNNABLE\<rparr>) s))"

section \<open>The round-robin scheduler\<close>

text \<open>
  \<open>run r\<close> stands for what happens between the scheduler's swtch to process \<open>r\<close> and that
  process's swtch back. One turn of the inner loop of \<open>sched_RR\<close>; the value says whether
  the slot was run.
\<close>

definition rr_visit :: "(procref \<Rightarrow> 'z proc_st_scheme \<Rightarrow> (unit, 'z proc_st_scheme) res) \<Rightarrow> nat \<Rightarrow> 'z proc_st_scheme \<Rightarrow> (bool, 'z proc_st_scheme) res" where
  "rr_visit run i s =
     (if state (pget s (Slot i)) \<noteq> RUNNABLE then Ok False s
      else let p = pget s (Slot i); s = s\<lparr>cproc := Some (Slot i)\<rparr>
      in rbind (switchuvm (kstack p) (pgdir p) s) (\<lambda>_ s.
         rbind (run (Slot i) (pupd (Slot i) (\<lambda>p. p\<lparr>state := RUNNING\<rparr>) s)) (\<lambda>_ s.
         Ok True ((switchkvm s)\<lparr>cproc := None\<rparr>))))"

text \<open>The inner loop; the value is the list of slots it ran.\<close>

fun rr_scan :: "(procref \<Rightarrow> 'z proc_st_scheme \<Rightarrow> (unit, 'z proc_st_scheme) res) \<Rightarrow> nat list \<Rightarrow> 'z proc_st_scheme \<Rightarrow> (nat list, 'z proc_st_scheme) res" where
  "rr_scan run [] s = Ok [] s"
| "rr_scan run (i # is) s =
     rbind (rr_visit run i s) (\<lambda>b s.
     rbind (rr_scan run is s) (\<lambda>tr s. Ok (if b then i # tr else tr) s))"

text \<open>One turn of the outer loop of \<open>sched_RR\<close>.\<close>

definition sched_RR_iter :: "(procref \<Rightarrow> 'z proc_st_scheme \<Rightarrow> (unit, 'z proc_st_scheme) res) \<Rightarrow> 'z proc_st_scheme \<Rightarrow> (nat list, 'z proc_st_scheme) res" where
  "sched_RR_iter run s =
     rbind (acquire_ptable (s\<lparr>cpu0 := (cpu0 s)\<lparr>ifl := True\<rparr>\<rparr>)) (\<lambda>_ s.
     rbind (rr_scan run [0..<NPROC] s) (\<lambda>tr s.
     rbind (release_ptable s) (\<lambda>_ s. Ok tr s)))"

section \<open>The stride scheduler\<close>

text \<open>The loop that pushes every runnable slot, by value, on the local heap.\<close>

definition build_heap :: "proc list \<Rightarrow> proc minheap \<Rightarrow> proc minheap" where
  "build_heap ps h = fold (\<lambda>p h. if state p = RUNNABLE then snd (push h p) else h) ps h"

text \<open>
  One turn of \<open>sched_stride\<close> up to its swtch: the chosen process pointer, which is the root
  of the local heap, or none. The heap starts with size 0 and whatever its array holds.
\<close>

definition stride_pick :: "'z proc_st_scheme \<Rightarrow> (procref option, 'z proc_st_scheme) res" where
  "stride_pick s =
     (let s = s\<lparr>cpu0 := (cpu0 s)\<lparr>ifl := True\<rparr>\<rparr>;
          h = build_heap (ptable s) ((sheap s)\<lparr>hsize := 0\<rparr>);
          s = s\<lparr>sheap := h\<rparr>
      in if hsize h > 0
         then let r = HeapCopy 0; s = s\<lparr>cproc := Some r\<rparr>
              in rbind (switchuvm (kstack (pget s r)) (pgdir (pget s r)) s) (\<lambda>_ s.
                 rbind (acquire_ptable s) (\<lambda>_ s.
                 let s = pupd r (\<lambda>p. p\<lparr>state := RUNNING\<rparr>) s;
                     s = pupd r (\<lambda>p. p\<lparr>last_scheduled := getticks s\<rparr>) s
                 in Ok (Some r) s))
         else Ok None s)"

text \<open>The rest of the turn, after the process has switched back.\<close>

definition stride_account :: "procref \<Rightarrow> 'z proc_st_scheme \<Rightarrow> (unit, 'z proc_st_scheme) res" where
  "stride_account r s =
     (let s = pupd r (\<lambda>p. p\<lparr>last_interrupted := getticks s\<rparr>) s;
          s = pupd r (\<lambda>p. p\<lparr>runtime := runtime p + (last_interrupted p - last_scheduled p)\<rparr>) s;
          s = (switchkvm s)\<lparr>cproc := None\<rparr>
      in release_ptable s)"

definition sched_stride_iter :: "(procref \<Rightarrow> 'z proc_st_scheme \<Rightarrow> (unit, 'z proc_st_scheme) res) \<Rightarrow> 'z proc_st_scheme \<Rightarrow> (procref option, 'z proc_st_scheme) res" where
  "sched_stride_iter run s =
     rbind (stride_pick s) (\<lambda>ro s.
       case ro of
         None \<Rightarrow> Ok None s
       | Some r \<Rightarrow> rbind (run r s) (\<lambda>_ s. rbind (stride_account r s) (\<lambda>_ s. Ok (Some r) s)))"

text \<open>
  The slice of a process that the timer interrupts after \<open>dt\<close> ticks, when the scheduler has
  switched to the context that the process last saved or was created with: the process goes on
  in the rest of its own \<open>yield\<close>, or in \<open>forkret\<close>, which both release \<open>ptable.lock\<close>, leaves the
  kernel, and comes back through \<open>yield\<close>. A context that is out of date is not covered: what runs
  then depends on a kernel stack that has been used since.
\<close>

definition run_preempted :: "uint \<Rightarrow> uint \<Rightarrow> procref \<Rightarrow> 'z proc_st_scheme \<Rightarrow> (unit, 'z proc_st_scheme) res" where
  "run_preempted dt ctx r s =
     rbind (release_ptable s) (\<lambda>_ s. rbind (yield ctx (s\<lparr>ticks := ticks s + dt\<rparr>)) (\<lambda>ie s. Ok () s))"

text \<open>The first \<open>n\<close> turns of the stride scheduler's loop, with the pids it ran.\<close>

fun stride_turns :: "(procref \<Rightarrow> 'z proc_st_scheme \<Rightarrow> (unit, 'z proc_st_scheme) res) \<Rightarrow> nat \<Rightarrow> 'z proc_st_scheme \<Rightarrow> (cint list, 'z proc_st_scheme) res" where
  "stride_turns run 0 s = Ok [] s"
| "stride_turns run (Suc n) s =
     rbind (sched_stride_iter run s) (\<lambda>ro s.
     rbind (stride_turns run n s) (\<lambda>ps t.
       Ok (case ro of None \<Rightarrow> ps | Some r \<Rightarrow> pid (pget s r) # ps) t))"

section \<open>Basic facts\<close>

lemma find_idx_Some:
  "find_idx P xs k = Some i \<Longrightarrow>
     k \<le> i \<and> i < k + length xs \<and> P (xs ! (i - k)) \<and> (\<forall>j < i - k. \<not> P (xs ! j))"
proof (induction xs arbitrary: k)
  case (Cons x xs)
  show ?case
  proof (cases "P x")
    case False
    with Cons.prems Cons.IH [of "Suc k"]
    have h: "Suc k \<le> i" "i < Suc k + length xs" "P (xs ! (i - Suc k))" "\<forall>j < i - Suc k. \<not> P (xs ! j)"
      by auto
    then have "i - k = Suc (i - Suc k)" by simp
    with h False show ?thesis by (auto simp: nth_Cons split: nat.splits)
  qed (use Cons.prems in auto)
qed simp

lemma find_idx_None: "find_idx P xs k = None \<longleftrightarrow> (\<forall>x \<in> set xs. \<not> P x)"
  by (induction xs arbitrary: k) auto

lemma find_idx_shift: "find_idx P xs (Suc k) = map_option Suc (find_idx P xs k)"
  by (induction xs arbitrary: k) auto

lemma find_idx_first:
  "i < length xs \<Longrightarrow> P (xs ! i) \<Longrightarrow> (\<And>j. j < i \<Longrightarrow> \<not> P (xs ! j)) \<Longrightarrow> find_idx P xs 0 = Some i"
proof (induction xs arbitrary: i)
  case (Cons x xs)
  show ?case
  proof (cases i)
    case (Suc k)
    then have "\<not> P x" "find_idx P xs 0 = Some k"
      using Cons.prems(3) [of 0] Cons.prems(3) [of "Suc j" for j] Cons.IH [of k] Cons.prems(1,2) by force+
    with Suc show ?thesis by (simp add: find_idx_shift)
  qed (use Cons.prems in simp)
qed simp

lemmas find_idx0 = find_idx_Some [where k = 0, simplified]

lemma pupd_Slot: "pupd (Slot i) f s = s\<lparr>ptable := (ptable s)[i := f (ptable s ! i)]\<rparr>"
  by (simp add: pupd_def)

lemma pupd_HeapCopy:
  "pupd (HeapCopy j) f s = s\<lparr>sheap := (sheap s)\<lparr>arr := (arr (sheap s))[j := f (arr (sheap s) ! j)]\<rparr>\<rparr>"
  by (simp add: pupd_def)

lemma acquire_ptable_free:
  "cpu_ok (cpu0 s) \<Longrightarrow> \<not> locked (ptlock s) \<Longrightarrow>
     acquire_ptable s = Ok () (s\<lparr>cpu0 := pushcli (cpu0 s), ptlock := (ptlock s)\<lparr>locked := True, lkcpu := Some 0\<rparr>\<rparr>)"
  by (simp add: acquire_ptable_def lock_op_def acquire_free)

lemma release_ptable_held:
  "cpu_ok (cpu0 s) \<Longrightarrow> 0 < ncli (cpu0 s) \<Longrightarrow> locked (ptlock s) \<Longrightarrow> lkcpu (ptlock s) = Some 0 \<Longrightarrow>
     release_ptable s = Ok () (s\<lparr>cpu0 := (cpu0 s)\<lparr>ncli := ncli (cpu0 s) - 1, ifl := (ncli (cpu0 s) = 1 \<and> intena (cpu0 s))\<rparr>,
       ptlock := (ptlock s)\<lparr>locked := False, lkcpu := None\<rparr>\<rparr>)"
  by (simp add: release_ptable_def lock_op_def release_held)

section \<open>What the stride scheduler picks\<close>

lemma build_heap_fold:
  "build_heap ps h = fold (\<lambda>p h. snd (push h p)) (filter (\<lambda>p. state p = RUNNABLE) ps) h"
  by (induction ps arbitrary: h) (auto simp: build_heap_def)

lemma build_heap_elems:
  assumes "length (arr h) = NPROC" "hsize h = 0" "length ps \<le> NPROC"
  shows "heap_invar (build_heap ps h)"
    "heap_elems (build_heap ps h) = mset (filter (\<lambda>p. state p = RUNNABLE) ps)"
proof -
  have "heap_invar h" "heap_elems h = {#}"
    using assms by (auto simp: heap_invar_def heap_elems_def heap_upto_def)
  moreover have "length (filter (\<lambda>p. state p = RUNNABLE) ps) \<le> NPROC"
    using assms(3) length_filter_le [of "\<lambda>p. state p = RUNNABLE" ps] by linarith
  ultimately show "heap_invar (build_heap ps h)"
    "heap_elems (build_heap ps h) = mset (filter (\<lambda>p. state p = RUNNABLE) ps)"
    using proc_heap.fold_ins [of h "filter (\<lambda>p. state p = RUNNABLE) ps"]
    by (simp_all add: build_heap_fold)
qed

lemma build_heap_hsize:
  assumes "length (arr h) = NPROC" "hsize h = 0" "length ps \<le> NPROC"
  shows "hsize (build_heap ps h) = length (filter (\<lambda>p. state p = RUNNABLE) ps)"
  using heap_size [OF build_heap_elems(1) [OF assms]] build_heap_elems(2) [OF assms]
  by (metis size_mset)

lemma build_heap_root:
  assumes "length (arr h) = NPROC" "hsize h = 0" "length ps \<le> NPROC" "0 < hsize (build_heap ps h)"
  obtains i where "i < length ps" "state (ps ! i) = RUNNABLE" "arr (build_heap ps h) ! 0 = ps ! i"
    "\<forall>p \<in> set ps. state p = RUNNABLE \<longrightarrow> sched_key (ps ! i) \<le> sched_key p"
proof -
  note inv = build_heap_elems [OF assms(1-3)]
  have "heap_elems (build_heap ps h) \<noteq> {#}" using assms(4) inv heap_elems_empty by fastforce
  then have "getmin (build_heap ps h) \<in># heap_elems (build_heap ps h)"
    using proc_heap.least_in inv(1) by blast
  then have "getmin (build_heap ps h) \<in> set ps" "state (getmin (build_heap ps h)) = RUNNABLE"
    by (auto simp: inv(2))
  moreover have "\<forall>p \<in> set ps. state p = RUNNABLE \<longrightarrow> sched_key (getmin (build_heap ps h)) \<le> sched_key p"
    using proc_heap.least_le [OF inv(1)] by (simp add: inv(2))
  ultimately show thesis using that by (auto simp: in_set_conv_nth getmin_def)
qed

text \<open>
  The state in which the stride scheduler begins a turn: no locks held, the table and the
  heap of their declared size, and every runnable process with a stack and a page table.
\<close>

definition sched_ready :: "'z proc_st_scheme \<Rightarrow> bool" where
  "sched_ready s \<longleftrightarrow>
     length (ptable s) = NPROC \<and> length (arr (sheap s)) = NPROC \<and> ncli (cpu0 s) = 0 \<and> \<not> locked (ptlock s) \<and>
     (\<forall>p \<in> set (ptable s). state p = RUNNABLE \<longrightarrow> kstack p \<noteq> 0 \<and> pgdir p \<noteq> 0)"

definition least_runnable :: "proc list \<Rightarrow> proc \<Rightarrow> bool" where
  "least_runnable ps p \<longleftrightarrow>
     p \<in> set ps \<and> state p = RUNNABLE \<and> (\<forall>q \<in> set ps. state q = RUNNABLE \<longrightarrow> sched_key p \<le> sched_key q)"

lemma least_runnable_pid: "least_runnable ps p \<Longrightarrow> least_runnable ps q \<Longrightarrow> pid p = pid q"
  by (fastforce simp: least_runnable_def sched_key_def)

lemma stride_pick_some:
  assumes "sched_ready s" "p \<in> set (ptable s)" "state p = RUNNABLE"
  obtains q h where "least_runnable (ptable s) q" "length (arr h) = NPROC"
    "stride_pick s = Ok (Some (HeapCopy 0))
       (s\<lparr>cpu0 := \<lparr>ncli = 1, intena = True, ifl = False\<rparr>, ptlock := (ptlock s)\<lparr>locked := True, lkcpu := Some 0\<rparr>,
          sheap := h\<lparr>arr := (arr h)[0 := q\<lparr>state := RUNNING, last_scheduled := ticks s\<rparr>]\<rparr>,
          cproc := Some (HeapCopy 0), esp0 := kstack q + 4096, cr3 := V2P (pgdir q)\<rparr>)"
proof -
  let ?h = "build_heap (ptable s) ((sheap s)\<lparr>hsize := 0\<rparr>)"
  have pre: "length (arr ((sheap s)\<lparr>hsize := 0\<rparr>)) = NPROC" "hsize ((sheap s)\<lparr>hsize := 0\<rparr>) = 0"
    "length (ptable s) \<le> NPROC" using assms by (auto simp: sched_ready_def)
  have pos: "0 < hsize ?h"
    using assms(2,3) by (auto simp: build_heap_hsize [OF pre] filter_empty_conv)
  have len: "length (arr ?h) = NPROC"
    using build_heap_elems(1) [OF pre] by (simp add: heap_invar_def)
  obtain i where i: "i < length (ptable s)" "state (ptable s ! i) = RUNNABLE" "arr ?h ! 0 = ptable s ! i"
    "\<forall>p \<in> set (ptable s). state p = RUNNABLE \<longrightarrow> sched_key (ptable s ! i) \<le> sched_key p"
    using build_heap_root [OF pre pos] by blast
  have q: "least_runnable (ptable s) (ptable s ! i)" "kstack (ptable s ! i) \<noteq> 0" "pgdir (ptable s ! i) \<noteq> 0"
    using i assms(1) by (auto simp: least_runnable_def sched_ready_def)
  have "cpu_ok ((cpu0 s)\<lparr>ifl := True\<rparr>)" "pushcli ((cpu0 s)\<lparr>ifl := True\<rparr>) = \<lparr>ncli = 1, intena = True, ifl = False\<rparr>"
    using assms(1) by (auto simp: sched_ready_def cpu_ok_def pushcli_def Let_def)
  then have "stride_pick s = Ok (Some (HeapCopy 0))
       (s\<lparr>cpu0 := \<lparr>ncli = 1, intena = True, ifl = False\<rparr>, ptlock := (ptlock s)\<lparr>locked := True, lkcpu := Some 0\<rparr>,
          sheap := ?h\<lparr>arr := (arr ?h)[0 := (ptable s ! i)\<lparr>state := RUNNING, last_scheduled := ticks s\<rparr>]\<rparr>,
          cproc := Some (HeapCopy 0), esp0 := kstack (ptable s ! i) + 4096, cr3 := V2P (pgdir (ptable s ! i))\<rparr>)"
    using q pos len i(3) assms(1)
    by (simp add: stride_pick_def Let_def switchuvm_def acquire_ptable_free sched_ready_def pupd_def getticks_def)
  with q(1) len show thesis by (rule that)
qed

lemma stride_pick_none:
  assumes "sched_ready s" "\<forall>p \<in> set (ptable s). state p \<noteq> RUNNABLE"
  shows "\<exists>s'. stride_pick s = Ok None s' \<and> ptable s' = ptable s"
proof -
  have "filter (\<lambda>p. state p = RUNNABLE) (ptable s) = []" using assms(2) by (simp add: filter_empty_conv)
  then have "hsize (build_heap (ptable s) ((sheap s)\<lparr>hsize := 0\<rparr>)) = 0"
    using assms(1) build_heap_hsize [of "(sheap s)\<lparr>hsize := 0\<rparr>" "ptable s"] by (simp add: sched_ready_def)
  then show ?thesis by (simp add: stride_pick_def Let_def)
qed

section \<open>A time slice\<close>

text \<open>A process pointer in range, and the CPU state between the scheduler and a process.\<close>

fun pvalid :: "'z proc_st_scheme \<Rightarrow> procref \<Rightarrow> bool" where
  "pvalid s (Slot i) \<longleftrightarrow> i < length (ptable s)"
| "pvalid s (HeapCopy j) \<longleftrightarrow> j < length (arr (sheap s))"

definition ptable_held :: "'z proc_st_scheme \<Rightarrow> bool" where
  "ptable_held s \<longleftrightarrow> locked (ptlock s) \<and> lkcpu (ptlock s) = Some 0 \<and> ncli (cpu0 s) = 1 \<and> \<not> ifl (cpu0 s)"

lemma ptlock_restore: "ptable_held s \<Longrightarrow> (ptlock s)\<lparr>locked := True, lkcpu := Some 0\<rparr> = ptlock s"
  by (cases "ptlock s") (simp add: ptable_held_def)

lemma cpu0_restore:
  "ptable_held s \<Longrightarrow> pushcli ((cpu0 s)\<lparr>ncli := 0, ifl := intena (cpu0 s)\<rparr>) = cpu0 s"
  by (cases "cpu0 s") (simp add: ptable_held_def pushcli_def Let_def)

lemma yield_unlocked:
  assumes "ptable_held s" "cproc s = Some r" "pvalid s r"
  shows "yield ctx (s\<lparr>cpu0 := (cpu0 s)\<lparr>ncli := 0, ifl := intena (cpu0 s)\<rparr>,
       ptlock := (ptlock s)\<lparr>locked := False, lkcpu := None\<rparr>\<rparr>) =
     Ok (intena (cpu0 s)) (pupd r (\<lambda>p. p\<lparr>state := RUNNABLE, pcontext := ctx\<rparr>) s)"
proof -
  let ?u = "s\<lparr>cpu0 := (cpu0 s)\<lparr>ncli := 0, ifl := intena (cpu0 s)\<rparr>,
       ptlock := (ptlock s)\<lparr>locked := False, lkcpu := None\<rparr>\<rparr>"
  have "acquire_ptable ?u = Ok () s"
    using ptlock_restore [OF assms(1)] cpu0_restore [OF assms(1)]
    by (subst acquire_ptable_free) (auto simp: cpu_ok_def)
  moreover have "holding 0 (ptlock s) (cpu0 s) = Ok True (cpu0 s)"
    using assms(1) by (simp add: holding_inside ptable_held_def cpu_ok_def)
  moreover have "ncli (cpu0 s) = 1" "\<not> ifl (cpu0 s)" using assms(1) by (auto simp: ptable_held_def)
  ultimately show ?thesis using assms(2,3)
    by (cases r) (simp_all add: yield_def sched_def holding_ptable_def pupd_def)
qed

lemma run_preempted_held:
  assumes "ptable_held s" "cproc s = Some r" "pvalid s r"
  shows "run_preempted dt ctx r s =
     Ok () (pupd r (\<lambda>p. p\<lparr>state := RUNNABLE, pcontext := ctx\<rparr>) (s\<lparr>ticks := ticks s + dt\<rparr>))"
proof -
  let ?t = "s\<lparr>ticks := ticks s + dt\<rparr>"
  have "release_ptable s = Ok () (s\<lparr>cpu0 := (cpu0 s)\<lparr>ncli := 0, ifl := intena (cpu0 s)\<rparr>,
       ptlock := (ptlock s)\<lparr>locked := False, lkcpu := None\<rparr>\<rparr>)"
    using assms(1) by (subst release_ptable_held) (auto simp: ptable_held_def cpu_ok_def)
  moreover have "ptable_held ?t" "cproc ?t = Some r" "pvalid ?t r"
    using assms by (simp_all add: ptable_held_def) (cases r; simp)
  from yield_unlocked [OF this, of ctx]
  have "yield ctx (s\<lparr>ticks := ticks s + dt, cpu0 := (cpu0 s)\<lparr>ncli := 0, ifl := intena (cpu0 s)\<rparr>,
       ptlock := (ptlock s)\<lparr>locked := False, lkcpu := None\<rparr>\<rparr>) =
     Ok (intena (cpu0 s)) (pupd r (\<lambda>p. p\<lparr>state := RUNNABLE, pcontext := ctx\<rparr>) ?t)" by simp
  moreover have eq: "s\<lparr>cpu0 := c, ptlock := l, ticks := t\<rparr> = s\<lparr>ticks := t, cpu0 := c, ptlock := l\<rparr>" for c l t
    by simp
  ultimately show ?thesis by (simp add: run_preempted_def eq)
qed

lemma stride_iter_preempted:
  assumes "sched_ready s" "p \<in> set (ptable s)" "state p = RUNNABLE"
  obtains q s' where "least_runnable (ptable s) q"
    "sched_stride_iter (run_preempted dt ctx) s = Ok (Some (HeapCopy 0)) s'"
    "sched_ready s'" "ptable s' = ptable s" "pid (pget s' (HeapCopy 0)) = pid q"
    "runtime (pget s' (HeapCopy 0)) = runtime q + dt" "pcontext (pget s' (HeapCopy 0)) = ctx" "ticks s' = ticks s + dt"
proof -
  obtain q h where q: "least_runnable (ptable s) q" "length (arr h) = NPROC"
    "stride_pick s = Ok (Some (HeapCopy 0))
       (s\<lparr>cpu0 := \<lparr>ncli = 1, intena = True, ifl = False\<rparr>, ptlock := (ptlock s)\<lparr>locked := True, lkcpu := Some 0\<rparr>,
          sheap := h\<lparr>arr := (arr h)[0 := q\<lparr>state := RUNNING, last_scheduled := ticks s\<rparr>]\<rparr>,
          cproc := Some (HeapCopy 0), esp0 := kstack q + 4096, cr3 := V2P (pgdir q)\<rparr>)" (is "_ = Ok _ ?s1")
    using stride_pick_some [OF assms] by blast
  let ?q = "q\<lparr>last_scheduled := ticks s, state := RUNNABLE, pcontext := ctx\<rparr>"
  have run: "run_preempted dt ctx (HeapCopy 0) ?s1 =
      Ok () (?s1\<lparr>ticks := ticks s + dt, sheap := h\<lparr>arr := (arr h)[0 := ?q]\<rparr>\<rparr>)" (is "_ = Ok () ?s2")
    using q(2) by (subst run_preempted_held) (auto simp: ptable_held_def pupd_def)
  have "stride_account (HeapCopy 0) ?s2 =
      Ok () (?s2\<lparr>sheap := h\<lparr>arr := (arr h)[0 := ?q\<lparr>last_interrupted := ticks s + dt, runtime := runtime q + dt\<rparr>]\<rparr>,
               cr3 := V2P (kpgdir s), cproc := None, cpu0 := \<lparr>ncli = 0, intena = True, ifl = True\<rparr>,
               ptlock := (ptlock s)\<lparr>locked := False, lkcpu := None\<rparr>\<rparr>)" (is "_ = Ok () ?s3")
    using q(2) by (simp add: stride_account_def Let_def pupd_def getticks_def switchkvm_def release_ptable_held cpu_ok_def)
  then have "sched_stride_iter (run_preempted dt ctx) s = Ok (Some (HeapCopy 0)) ?s3"
    by (simp add: sched_stride_iter_def q(3) run)
  moreover have "sched_ready ?s3" using assms(1) q(2) by (simp add: sched_ready_def)
  ultimately show thesis using q(1,2) by (intro that [of q ?s3]) simp_all
qed

section \<open>Properties of the stride scheduler\<close>

text \<open>C24: A turn of the stride scheduler picks a process exactly when one is runnable, and then
  it picks a least one by (pass, runtime, pid): the CPU's current process is a copy of that
  slot marked RUNNING, with its stack and page table loaded and \<open>ptable.lock\<close> held.\<close>

theorem stride_pick_least:
  assumes "sched_ready s"
  shows "\<exists>ro s'. stride_pick s = Ok ro s' \<and>
     (case ro of
        None \<Rightarrow> \<forall>p \<in> set (ptable s). state p \<noteq> RUNNABLE
      | Some r \<Rightarrow> \<exists>p. least_runnable (ptable s) p \<and> cproc s' = Some r \<and> ptable_held s' \<and>
          pget s' r = p\<lparr>state := RUNNING, last_scheduled := ticks s\<rparr> \<and>
          esp0 s' = kstack p + 4096 \<and> cr3 s' = V2P (pgdir p))"
proof (cases "\<exists>p \<in> set (ptable s). state p = RUNNABLE")
  case True
  then obtain p where "p \<in> set (ptable s)" "state p = RUNNABLE" by blast
  from stride_pick_some [OF assms this] obtain q h where q: "least_runnable (ptable s) q" "length (arr h) = NPROC"
    "stride_pick s = Ok (Some (HeapCopy 0))
       (s\<lparr>cpu0 := \<lparr>ncli = 1, intena = True, ifl = False\<rparr>, ptlock := (ptlock s)\<lparr>locked := True, lkcpu := Some 0\<rparr>,
          sheap := h\<lparr>arr := (arr h)[0 := q\<lparr>state := RUNNING, last_scheduled := ticks s\<rparr>]\<rparr>,
          cproc := Some (HeapCopy 0), esp0 := kstack q + 4096, cr3 := V2P (pgdir q)\<rparr>)" by blast
  then show ?thesis by (auto simp: ptable_held_def)
next
  case False
  with stride_pick_none [OF assms] show ?thesis by force
qed

text \<open>
  What a slice leaves alone when it makes no change to the table itself. The kernel works on
  the current process through \<open>myproc()\<close>, which under the stride scheduler is the heap copy.
\<close>

definition keeps_table :: "(procref \<Rightarrow> 'z proc_st_scheme \<Rightarrow> (unit, 'z proc_st_scheme) res) \<Rightarrow> bool" where
  "keeps_table run \<longleftrightarrow>
     (\<forall>s t. cproc s = Some (HeapCopy 0) \<longrightarrow> run (HeapCopy 0) s = Ok () t \<longrightarrow>
        ptable t = ptable s \<and> length (arr (sheap t)) = length (arr (sheap s)) \<and>
        pid (pget t (HeapCopy 0)) = pid (pget s (HeapCopy 0)))"

lemma lock_op_fields: "lock_op f s = Ok x t \<Longrightarrow> \<exists>c l. t = s\<lparr>cpu0 := c, ptlock := l\<rparr>"
  by (auto simp: lock_op_def split: res.splits prod.splits)

lemma switchuvm_fields: "switchuvm k d s = Ok x t \<Longrightarrow> \<exists>e c. t = s\<lparr>esp0 := e, cr3 := c\<rparr>"
  by (auto simp: switchuvm_def split: if_splits)

text \<open>Whenever the scheduler gets as far as the switch, it has picked a copy of a least runnable slot.\<close>

lemma stride_pick_OkD:
  assumes "stride_pick s = Ok ro t" "length (ptable s) = NPROC" "length (arr (sheap s)) = NPROC"
    "p \<in> set (ptable s)" "state p = RUNNABLE"
  obtains q where "ro = Some (HeapCopy 0)" "least_runnable (ptable s) q" "pid (pget t (HeapCopy 0)) = pid q"
    "ptable t = ptable s" "length (arr (sheap t)) = NPROC" "cproc t = Some (HeapCopy 0)"
proof -
  let ?h = "build_heap (ptable s) ((sheap s)\<lparr>hsize := 0\<rparr>)"
  have pre: "length (arr ((sheap s)\<lparr>hsize := 0\<rparr>)) = NPROC" "hsize ((sheap s)\<lparr>hsize := 0\<rparr>) = 0" "length (ptable s) \<le> NPROC"
    using assms(2,3) by auto
  have pos: "0 < hsize ?h" using assms(4,5) by (auto simp: build_heap_hsize [OF pre] filter_empty_conv)
  have len: "length (arr ?h) = NPROC" using build_heap_elems(1) [OF pre] by (simp add: heap_invar_def)
  obtain i where i: "i < length (ptable s)" "state (ptable s ! i) = RUNNABLE" "arr ?h ! 0 = ptable s ! i"
    "\<forall>p \<in> set (ptable s). state p = RUNNABLE \<longrightarrow> sched_key (ptable s ! i) \<le> sched_key p"
    using build_heap_root [OF pre pos] by blast
  let ?s1 = "s\<lparr>cpu0 := (cpu0 s)\<lparr>ifl := True\<rparr>, sheap := ?h, cproc := Some (HeapCopy 0)\<rparr>"
  obtain u v where u: "switchuvm (kstack (pget ?s1 (HeapCopy 0))) (pgdir (pget ?s1 (HeapCopy 0))) ?s1 = Ok () u"
    and v: "acquire_ptable u = Ok () v" and ro: "ro = Some (HeapCopy 0)"
    and t: "t = pupd (HeapCopy 0) (\<lambda>p. p\<lparr>last_scheduled := ticks v\<rparr>) (pupd (HeapCopy 0) (\<lambda>p. p\<lparr>state := RUNNING\<rparr>) v)"
    using assms(1) pos by (auto simp: stride_pick_def Let_def getticks_def pupd_def)
  obtain e c d l where "v = ?s1\<lparr>esp0 := e, cr3 := c, cpu0 := d, ptlock := l\<rparr>"
    using switchuvm_fields [OF u] lock_op_fields [OF v [unfolded acquire_ptable_def]] by auto
  then have "ptable t = ptable s" "length (arr (sheap t)) = NPROC" "cproc t = Some (HeapCopy 0)" "pid (pget t (HeapCopy 0)) = pid (ptable s ! i)"
    using t len i(3) by (simp_all add: pupd_def)
  moreover have "least_runnable (ptable s) (ptable s ! i)" using i by (simp add: least_runnable_def)
  ultimately show thesis using that ro by blast
qed

lemma stride_account_keeps:
  assumes "stride_account (HeapCopy 0) s = Ok () t" "0 < length (arr (sheap s))"
  shows "ptable t = ptable s" "length (arr (sheap t)) = length (arr (sheap s))" "pid (pget t (HeapCopy 0)) = pid (pget s (HeapCopy 0))"
proof -
  from assms(1) obtain c l u where "t = u\<lparr>cpu0 := c, ptlock := l\<rparr>" "ptable u = ptable s"
    "length (arr (sheap u)) = length (arr (sheap s))" "pid (pget u (HeapCopy 0)) = pid (pget s (HeapCopy 0))"
    using assms(2) unfolding stride_account_def release_ptable_def Let_def
    by (auto simp: pupd_def switchkvm_def dest!: lock_op_fields)
  then show "ptable t = ptable s" "length (arr (sheap t)) = length (arr (sheap s))" "pid (pget t (HeapCopy 0)) = pid (pget s (HeapCopy 0))"
    by simp_all
qed

lemma stride_iter_keeps:
  assumes "sched_stride_iter run s = Ok ro t" "keeps_table run" "length (ptable s) = NPROC" "length (arr (sheap s)) = NPROC"
    "least_runnable (ptable s) p"
  shows "ro = Some (HeapCopy 0)" "pid (pget t (HeapCopy 0)) = pid p" "ptable t = ptable s" "length (arr (sheap t)) = NPROC"
proof -
  have p: "p \<in> set (ptable s)" "state p = RUNNABLE" using assms(5) by (auto simp: least_runnable_def)
  obtain r u where u: "stride_pick s = Ok r u" using assms(1) by (auto simp: sched_stride_iter_def)
  obtain q where q: "r = Some (HeapCopy 0)" "least_runnable (ptable s) q" "pid (pget u (HeapCopy 0)) = pid q"
    "ptable u = ptable s" "length (arr (sheap u)) = NPROC" "cproc u = Some (HeapCopy 0)"
    using stride_pick_OkD [OF u assms(3,4) p] by blast
  obtain v where v: "run (HeapCopy 0) u = Ok () v" "stride_account (HeapCopy 0) v = Ok () t" "ro = Some (HeapCopy 0)"
    using assms(1) by (auto simp: sched_stride_iter_def u q(1))
  have k: "ptable v = ptable u" "length (arr (sheap v)) = length (arr (sheap u))" "pid (pget v (HeapCopy 0)) = pid (pget u (HeapCopy 0))"
    using assms(2) q(6) v(1) unfolding keeps_table_def by blast+
  have "0 < length (arr (sheap v))" using k(2) q(5) by simp
  note a = stride_account_keeps [OF v(2) this]
  show "ro = Some (HeapCopy 0)" "pid (pget t (HeapCopy 0)) = pid p" "ptable t = ptable s" "length (arr (sheap t)) = NPROC"
    using v(3) a k q(3-5) least_runnable_pid [OF q(2) assms(5)] by simp_all
qed

text \<open>C25: The stride scheduler starves, because it runs a process through a copy of its slot. The
  first slice, which the timer ends after \<open>dt\<close> ticks, leaves the context that the process saved and
  the time it is charged in the copy, and the table as it was; the next turn picks the same
  process again, with the time it had before and, instead of the saved context, the one it
  was started from. And in every run of the scheduler's loop, whatever the slices do as long
  as they return to the scheduler and make no change to the table, every turn runs that one
  process, the least by (pass, runtime, pid), and the table never changes.\<close>

theorem stride_starvation:
  assumes "sched_ready s" "least_runnable (ptable s) p" "\<forall>q \<in> set (ptable s). state q = RUNNABLE \<longrightarrow> pid q = pid p \<longrightarrow> q = p"
  shows "(\<exists>t u. sched_stride_iter (run_preempted dt ctx) s = Ok (Some (HeapCopy 0)) t \<and> ptable t = ptable s \<and>
        pcontext (pget t (HeapCopy 0)) = ctx \<and> runtime (pget t (HeapCopy 0)) = runtime p + dt \<and>
        stride_pick t = Ok (Some (HeapCopy 0)) u \<and>
        pget u (HeapCopy 0) = p\<lparr>state := RUNNING, last_scheduled := ticks s + dt\<rparr>) \<and>
     (\<forall>run n ps t. keeps_table run \<longrightarrow> stride_turns run n s = Ok ps t \<longrightarrow> ps = replicate n (pid p) \<and> ptable t = ptable s)"
proof
  have p: "p \<in> set (ptable s)" "state p = RUNNABLE" using assms(2) by (auto simp: least_runnable_def)
  have only: "q = p" if "least_runnable (ptable s) q" for q
    using that assms(3) least_runnable_pid [OF that assms(2)] by (simp add: least_runnable_def)
  obtain q t where t: "least_runnable (ptable s) q" "sched_stride_iter (run_preempted dt ctx) s = Ok (Some (HeapCopy 0)) t"
    "sched_ready t" "ptable t = ptable s" "runtime (pget t (HeapCopy 0)) = runtime q + dt" "pcontext (pget t (HeapCopy 0)) = ctx" "ticks t = ticks s + dt"
    using stride_iter_preempted [OF assms(1) p, of dt ctx] by blast
  obtain q' h where q': "least_runnable (ptable t) q'" "length (arr h) = NPROC"
    "stride_pick t = Ok (Some (HeapCopy 0))
       (t\<lparr>cpu0 := \<lparr>ncli = 1, intena = True, ifl = False\<rparr>, ptlock := (ptlock t)\<lparr>locked := True, lkcpu := Some 0\<rparr>,
          sheap := h\<lparr>arr := (arr h)[0 := q'\<lparr>state := RUNNING, last_scheduled := ticks t\<rparr>]\<rparr>,
          cproc := Some (HeapCopy 0), esp0 := kstack q' + 4096, cr3 := V2P (pgdir q')\<rparr>)"
    using stride_pick_some [OF t(3), of p] p t(4) by (metis (no_types))
  have "q = p" "q' = p" using only [OF t(1)] only [of q'] t(4) q'(1) by simp_all
  then show "\<exists>t u. sched_stride_iter (run_preempted dt ctx) s = Ok (Some (HeapCopy 0)) t \<and> ptable t = ptable s \<and>
        pcontext (pget t (HeapCopy 0)) = ctx \<and> runtime (pget t (HeapCopy 0)) = runtime p + dt \<and>
        stride_pick t = Ok (Some (HeapCopy 0)) u \<and>
        pget u (HeapCopy 0) = p\<lparr>state := RUNNING, last_scheduled := ticks s + dt\<rparr>"
    using t q' by (intro exI [of _ t] exI) auto
next
  have "ps = replicate n (pid p) \<and> ptable t = ptable s"
    if "keeps_table run" "stride_turns run n u = Ok ps t" "ptable u = ptable s" "length (arr (sheap u)) = NPROC" for run n ps t u
    using that
  proof (induction n arbitrary: u ps)
    case (Suc n)
    have l: "length (ptable u) = NPROC" "least_runnable (ptable u) p" using Suc.prems(3) assms(1,2) by (auto simp: sched_ready_def)
    obtain ro v qs where v: "sched_stride_iter run u = Ok ro v" "stride_turns run n v = Ok qs t"
      "ps = (case ro of None \<Rightarrow> qs | Some r \<Rightarrow> pid (pget v r) # qs)" using Suc.prems(2) by auto
    note k = stride_iter_keeps [OF v(1) Suc.prems(1) l(1) Suc.prems(4) l(2)]
    show ?case using Suc.IH [OF Suc.prems(1) v(2)] k Suc.prems(3) v(3) by simp
  qed simp
  then show "\<forall>run n ps t. keeps_table run \<longrightarrow> stride_turns run n s = Ok ps t \<longrightarrow> ps = replicate n (pid p) \<and> ptable t = ptable s"
    using assms(1) unfolding sched_ready_def by blast
qed

section \<open>Allocation\<close>

lemma new_stack_mem:
  fixes k fr tr :: uint and m :: memory
  defines "m' \<equiv> store32 (mem_set (store32 m (k + 4016) tr) (k + 3996) 0 20) (k + 4012) fr"
  shows "load32 m' (k + 4012) = fr" "load32 m' (k + 4016) = tr"
    "j < 16 \<Longrightarrow> m' (k + 3996 + j) = 0"
    "page_aligned k \<Longrightarrow> pg x \<noteq> pg k \<Longrightarrow> m' x = m x"
proof -
  show "load32 m' (k + 4012) = fr" by (simp add: m'_def)
  show "load32 m' (k + 4016) = tr"
    by (simp add: m'_def load32_def store32_def mem_set_def)
  show "m' (k + 3996 + j) = 0" if "j < 16"
  proof -
    have "\<not> (k + 3996 + j) - (k + 4012) < 4"
    proof
      assume "(k + 3996 + j) - (k + 4012) < 4"
      then have "j - 16 < 4" by (simp add: algebra_simps)
      with that show False by (simp add: word_less_nat_alt unat_sub_if')
    qed
    moreover have "j < 20" using that by (simp add: word_less_nat_alt)
    ultimately show ?thesis by (simp add: m'_def store32_apply mem_set_def)
  qed
  show "m' x = m x" if "page_aligned k" "pg x \<noteq> pg k"
  proof -
    have "\<not> x - (k + 3996) < 20"
    proof
      assume a: "x - (k + 3996) < 20"
      have "3996 + d < 4096" if "d < 20" for d :: uint
        using that by (simp add: word_less_nat_alt unat_word_ariths)
      from this [OF a] have "3996 + (x - (k + 3996)) < 4096" .
      then have "pg (k + (3996 + (x - (k + 3996)))) = pg k" using that(1) by (intro pg_offset)
      then show False using that(2) by simp
    qed
    then show ?thesis using that by (simp add: m'_def store32_other mem_set_def)
  qed
qed

lemma allocproc_full:
  "\<forall>p \<in> set (ptable s). state p \<noteq> UNUSED \<Longrightarrow> allocproc s = Ok None s"
  by (simp add: allocproc_def find_idx_None [THEN iffD2])

lemma allocproc_nomem:
  assumes "find_idx (\<lambda>p. state p = UNUSED) (ptable s) 0 = Some i" "kmem_inv s []"
  shows "allocproc s = Ok None (s\<lparr>ptable := (ptable s)[i := (ptable s ! i)\<lparr>pid := nextpid s, kstack := 0, state := UNUSED\<rparr>],
     nextpid := nextpid s + 1\<rparr>)"
proof -
  have i: "i < length (ptable s)" "state (ptable s ! i) = UNUSED" using find_idx0 [OF assms(1)] by auto
  have "freelist s = 0" using assms(2) by (simp add: kmem_inv_def)
  then show ?thesis using i
    by (simp add: allocproc_def assms(1) kalloc_def pupd_def Let_def)
qed

lemma allocproc_some:
  assumes "find_idx (\<lambda>p. state p = UNUSED) (ptable s) 0 = Some i" "kmem_inv s (k # ps)"
  shows "\<exists>m. allocproc s = Ok (Some (Slot i))
      (s\<lparr>ptable := (ptable s)[i := (ptable s ! i)\<lparr>state := EMBRYO, pid := nextpid s, kstack := k,
           tf := k + 4020, pcontext := k + 3996\<rparr>],
         nextpid := nextpid s + 1, freelist := load32 (mem s) k, mem := m\<rparr>) \<and>
     load32 m (k + 4012) = a_forkret s \<and> load32 m (k + 4016) = a_trapret s \<and>
     (\<forall>j < 16. m (k + 3996 + j) = 0) \<and> (\<forall>x. pg x \<noteq> pg k \<longrightarrow> m x = mem s x)"
proof -
  have i: "i < length (ptable s)" using find_idx0 [OF assms(1)] by auto
  have k: "freelist s = k" "k \<noteq> 0" "page_aligned k"
    using assms(2) by (auto simp: kmem_inv_def kpage_def)
  let ?m = "store32 (mem_set (store32 (mem s) (k + 4016) (a_trapret s)) (k + 3996) 0 20) (k + 4012) (a_forkret s)"
  have "allocproc s = Ok (Some (Slot i))
      (s\<lparr>ptable := (ptable s)[i := (ptable s ! i)\<lparr>state := EMBRYO, pid := nextpid s, kstack := k,
           tf := k + 4020, pcontext := k + 3996\<rparr>],
         nextpid := nextpid s + 1, freelist := load32 (mem s) k, mem := ?m\<rparr>)"
    using i k by (simp add: allocproc_def assms(1) kalloc_def pupd_def Let_def add.commute)
  with new_stack_mem [where m = "mem s" and k = k] k(3) show ?thesis by blast
qed


text \<open>C33: \<open>allocproc\<close> never panics while the free list is well formed. It fails only when no slot
  is unused or no page is free, and then no slot's state has changed. Otherwise it takes the
  first unused slot, marks it EMBRYO with the next pid, gives it the first free page as its
  kernel stack with room for a trap frame at the top, and lays out the context below it so that
  the first switch to the process starts in forkret and returns to trapret. No other slot
  and no byte of another page changes.\<close>

theorem allocproc_correct:
  assumes "kmem_inv s ps"
  shows "\<exists>ro s'. allocproc s = Ok ro s' \<and> kmem_inv s' (if ro = None then ps else tl ps) \<and>
     (case ro of
        None \<Rightarrow> ((\<forall>p \<in> set (ptable s). state p \<noteq> UNUSED) \<or> ps = []) \<and> map state (ptable s') = map state (ptable s)
      | Some r \<Rightarrow> \<exists>i k p. r = Slot i \<and> i < length (ptable s) \<and> state (ptable s ! i) = UNUSED \<and>
          (\<forall>j < i. state (ptable s ! j) \<noteq> UNUSED) \<and> ps = k # tl ps \<and>
          ptable s' = (ptable s)[i := p] \<and> nextpid s' = nextpid s + 1 \<and>
          state p = EMBRYO \<and> pid p = nextpid s \<and> kstack p = k \<and> tf p = k + 4096 - 76 \<and>
          load32 (mem s') (pcontext p + 16) = a_forkret s \<and> load32 (mem s') (pcontext p + 20) = a_trapret s \<and>
          pcontext p + 24 = tf p \<and> (\<forall>x. pg x \<noteq> pg k \<longrightarrow> mem s' x = mem s x))"
proof (cases "find_idx (\<lambda>p. state p = UNUSED) (ptable s) 0")
  case None
  then have "\<forall>p \<in> set (ptable s). state p \<noteq> UNUSED" by (simp add: find_idx_None)
  with assms allocproc_full [OF this] show ?thesis by simp
next
  case (Some i)
  note i = find_idx0 [OF Some]
  show ?thesis
  proof (cases ps)
    case Nil
    have "map state ((ptable s)[i := (ptable s ! i)\<lparr>pid := nextpid s, kstack := 0, state := UNUSED\<rparr>]) = map state (ptable s)"
      using i by (intro nth_equalityI) (auto simp: nth_list_update)
    then show ?thesis using Nil assms allocproc_nomem [OF Some]
      by (simp add: kmem_inv_def)
  next
    case (Cons k qs)
    from allocproc_some [OF Some assms [unfolded Cons]] obtain m where m:
      "allocproc s = Ok (Some (Slot i))
        (s\<lparr>ptable := (ptable s)[i := (ptable s ! i)\<lparr>state := EMBRYO, pid := nextpid s, kstack := k,
           tf := k + 4020, pcontext := k + 3996\<rparr>],
         nextpid := nextpid s + 1, freelist := load32 (mem s) k, mem := m\<rparr>)" (is "_ = Ok _ ?t")
      "load32 m (k + 4012) = a_forkret s" "load32 m (k + 4016) = a_trapret s"
      "\<forall>x. pg x \<noteq> pg k \<longrightarrow> m x = mem s x" by blast
    have "kmem_inv (s\<lparr>freelist := load32 (mem s) k\<rparr>) qs" using kalloc_inv [OF assms] Cons by simp
    moreover have "pg q \<noteq> pg k" if "q \<in> set qs" for q
      using that assms pg_inj [of q k] by (auto simp: Cons kmem_inv_def kpage_def)
    ultimately have inv: "kmem_inv ?t qs"
      using m(4) by (elim kmem_inv_frame [where m = m]) (simp_all, metis)
    show ?thesis
      unfolding m(1) using inv i m(2-4)
      by (intro exI [where x = "Some (Slot i)"] exI [where x = ?t])
        (simp add: Cons, rule exI [where x = "ptable ?t ! i"], simp add: add.commute)
  qed
qed

section \<open>Round robin\<close>

text \<open>
  What \<open>sched_RR\<close> relies on: the slice of one process leaves every other runnable
  process runnable. Only a process itself, and nobody else, stops being runnable.
\<close>

definition keeps_others :: "(procref \<Rightarrow> 'z proc_st_scheme \<Rightarrow> (unit, 'z proc_st_scheme) res) \<Rightarrow> bool" where
  "keeps_others run \<longleftrightarrow>
     (\<forall>i s a s'. run (Slot i) s = Ok a s' \<longrightarrow> length (ptable s') = length (ptable s) \<and>
        (\<forall>j < length (ptable s). j \<noteq> i \<longrightarrow> state (ptable s ! j) = RUNNABLE \<longrightarrow> state (ptable s' ! j) = RUNNABLE))"

lemma switch_ptable [simp]: "ptable (switchkvm s) = ptable s"
  by (simp add: switchkvm_def)

lemma switchuvm_OkD: "switchuvm k d s = Ok x s' \<Longrightarrow> ptable s' = ptable s"
  by (auto simp: switchuvm_def split: if_splits)

lemma rr_visit_keeps:
  assumes "keeps_others run" "rr_visit run i s = Ok b s'" "i < length (ptable s)"
  shows "b = (state (ptable s ! i) = RUNNABLE)" "length (ptable s') = length (ptable s)"
    "j < length (ptable s) \<Longrightarrow> j \<noteq> i \<Longrightarrow> state (ptable s ! j) = RUNNABLE \<Longrightarrow> state (ptable s' ! j) = RUNNABLE"
proof -
  consider "state (ptable s ! i) \<noteq> RUNNABLE" "b = False" "s' = s"
    | u a v where "state (ptable s ! i) = RUNNABLE" "b" "ptable u = ptable s"
      "run (Slot i) (pupd (Slot i) (\<lambda>p. p\<lparr>state := RUNNING\<rparr>) u) = Ok a v" "s' = (switchkvm v)\<lparr>cproc := None\<rparr>"
    using assms(2) by (auto simp: rr_visit_def Let_def split: if_splits dest!: switchuvm_OkD)
  note cs = this
  show "b = (state (ptable s ! i) = RUNNABLE)" using cs by cases auto
  show "length (ptable s') = length (ptable s)"
    using cs assms(1) by cases (auto simp: keeps_others_def pupd_def dest!: spec)
  show "state (ptable s' ! j) = RUNNABLE"
    if j: "j < length (ptable s)" "j \<noteq> i" "state (ptable s ! j) = RUNNABLE"
    using cs
  proof cases
    case (2 u a v)
    let ?u = "pupd (Slot i) (\<lambda>p. p\<lparr>state := RUNNING\<rparr>) u"
    have "j < length (ptable ?u)" "state (ptable ?u ! j) = RUNNABLE" using j 2 by (auto simp: pupd_def)
    then have "state (ptable v ! j) = RUNNABLE"
      using assms(1) 2(4) j(2) unfolding keeps_others_def by blast
    then show ?thesis using 2 by simp
  qed (use j in auto)
qed

lemma rr_scan_keeps:
  "keeps_others run \<Longrightarrow> rr_scan run is s = Ok tr s' \<Longrightarrow> distinct is \<Longrightarrow> \<forall>i \<in> set is. i < length (ptable s) \<Longrightarrow>
     set tr \<subseteq> set is \<and> (sorted_wrt (<) is \<longrightarrow> sorted_wrt (<) tr) \<and>
     (\<forall>i \<in> set is. state (ptable s ! i) = RUNNABLE \<longrightarrow> i \<in> set tr)"
proof (induction "is" arbitrary: s tr)
  case (Cons i "is")
  from Cons.prems obtain b u tr' where v: "rr_visit run i s = Ok b u" "rr_scan run is u = Ok tr' s'"
    "tr = (if b then i # tr' else tr')" by auto
  have i: "i < length (ptable s)" using Cons.prems by simp
  note k = rr_visit_keeps [OF Cons.prems(1) v(1) i]
  have IH: "set tr' \<subseteq> set is \<and> (sorted_wrt (<) is \<longrightarrow> sorted_wrt (<) tr') \<and>
     (\<forall>i \<in> set is. state (ptable u ! i) = RUNNABLE \<longrightarrow> i \<in> set tr')"
    using Cons.IH [OF Cons.prems(1) v(2)] Cons.prems k(2) by auto
  have "j \<in> set tr'" if "j \<in> set is" "state (ptable s ! j) = RUNNABLE" for j
  proof -
    have "j \<noteq> i" "j < length (ptable s)" using that Cons.prems by auto
    then show ?thesis using IH that k(3) by blast
  qed
  with IH k(1) v(3) show ?case by auto
qed auto

text \<open>C26: Round robin does not starve: whatever the processes do with their slices, as long as
  none of them makes another one stop being runnable, a pass over the table runs each slot at
  most once, in slot order, and it runs every process that was runnable when the pass began.\<close>

theorem rr_no_starvation:
  assumes "keeps_others run" "sched_RR_iter run s = Ok tr s'" "length (ptable s) = NPROC"
  shows "sorted_wrt (<) tr \<and> (\<forall>i < NPROC. state (ptable s ! i) = RUNNABLE \<longrightarrow> i \<in> set tr)"
proof -
  from assms(2) obtain u v where u: "acquire_ptable (s\<lparr>cpu0 := (cpu0 s)\<lparr>ifl := True\<rparr>\<rparr>) = Ok () u"
    "rr_scan run [0..<NPROC] u = Ok tr v"
    by (auto simp: sched_RR_iter_def)
  then have "ptable u = ptable s"
    by (auto simp: acquire_ptable_def lock_op_def split: res.splits prod.splits)
  with rr_scan_keeps [OF assms(1) u(2)] assms(3) show ?thesis by simp
qed

definition rr_ready :: "'z proc_st_scheme \<Rightarrow> bool" where
  "rr_ready s \<longleftrightarrow> ptable_held s \<and> length (ptable s) = NPROC \<and>
     (\<forall>p \<in> set (ptable s). state p = RUNNABLE \<longrightarrow> kstack p \<noteq> 0 \<and> pgdir p \<noteq> 0)"

lemma rr_visit_preempted:
  assumes "rr_ready s" "i < NPROC"
  obtains s' where "rr_visit (run_preempted dt ctx) i s = Ok (state (ptable s ! i) = RUNNABLE) s'"
    "rr_ready s'" "map state (ptable s') = map state (ptable s)"
proof (cases "state (ptable s ! i) = RUNNABLE")
  case True
  let ?p = "ptable s ! i"
  let ?s1 = "s\<lparr>cproc := Some (Slot i), esp0 := kstack ?p + 4096, cr3 := V2P (pgdir ?p),
    ptable := (ptable s)[i := ?p\<lparr>state := RUNNING\<rparr>]\<rparr>"
  have i: "i < length (ptable s)" using assms by (simp add: rr_ready_def)
  then have k: "kstack ?p \<noteq> 0" "pgdir ?p \<noteq> 0" using assms(1) True by (simp_all add: rr_ready_def)
  have "ptable_held ?s1" "cproc ?s1 = Some (Slot i)" "pvalid ?s1 (Slot i)"
    using assms(1) i by (simp_all add: rr_ready_def ptable_held_def)
  note run = run_preempted_held [OF this, of dt ctx]
  let ?s2 = "?s1\<lparr>ticks := ticks s + dt, ptable := (ptable s)[i := ?p\<lparr>state := RUNNABLE, pcontext := ctx\<rparr>],
    cr3 := V2P (kpgdir s), cproc := None\<rparr>"
  have "rr_visit (run_preempted dt ctx) i s = Ok True ?s2"
    using True i k run by (simp add: rr_visit_def switchuvm_def pupd_def switchkvm_def Let_def)
  moreover have "rr_ready ?s2"
    using assms(1) i k set_update_subset_insert [of "ptable s" i "?p\<lparr>state := RUNNABLE, pcontext := ctx\<rparr>"]
    by (auto simp: rr_ready_def ptable_held_def)
  moreover have "map state (ptable ?s2) = map state (ptable s)"
    using i True by (intro nth_equalityI) (auto simp: nth_list_update)
  ultimately show thesis using True that by simp
next
  case False
  then show thesis using assms(1) by (intro that [of s]) (simp_all add: rr_visit_def)
qed

lemma rr_scan_preempted:
  "rr_ready s \<Longrightarrow> \<forall>i \<in> set is. i < NPROC \<Longrightarrow>
     \<exists>s'. rr_scan (run_preempted dt ctx) is s = Ok (filter (\<lambda>i. state (ptable s ! i) = RUNNABLE) is) s' \<and>
       rr_ready s' \<and> map state (ptable s') = map state (ptable s)"
proof (induction "is" arbitrary: s)
  case (Cons i "is")
  then have "i < NPROC" by simp
  from rr_visit_preempted [OF Cons.prems(1) this, of dt ctx] obtain u where
    u: "rr_visit (run_preempted dt ctx) i s = Ok (state (ptable s ! i) = RUNNABLE) u"
      "rr_ready u" "map state (ptable u) = map state (ptable s)" by blast
  have same: "state (ptable u ! j) = state (ptable s ! j)" if "j < NPROC" for j
    using u(2,3) that Cons.prems(1) by (metis nth_map rr_ready_def)
  obtain v where "rr_scan (run_preempted dt ctx) is u = Ok (filter (\<lambda>i. state (ptable u ! i) = RUNNABLE) is) v"
    "rr_ready v" "map state (ptable v) = map state (ptable s)"
    using Cons.IH [OF u(2)] Cons.prems(2) u(3) by auto
  moreover have "filter (\<lambda>i. state (ptable u ! i) = RUNNABLE) is = filter (\<lambda>i. state (ptable s ! i) = RUNNABLE) is"
    using Cons.prems(2) same by (intro filter_cong) auto
  ultimately show ?case using u(1) by auto
qed simp

lemma rr_pass:
  assumes "sched_ready s"
  shows "\<exists>s'. sched_RR_iter (run_preempted dt ctx) s =
       Ok (filter (\<lambda>i. state (ptable s ! i) = RUNNABLE) [0..<NPROC]) s' \<and>
     map state (ptable s') = map state (ptable s) \<and> ncli (cpu0 s') = 0 \<and> \<not> locked (ptlock s')"
proof -
  let ?s0 = "s\<lparr>cpu0 := (cpu0 s)\<lparr>ifl := True\<rparr>\<rparr>"
  let ?s1 = "?s0\<lparr>cpu0 := pushcli ((cpu0 s)\<lparr>ifl := True\<rparr>), ptlock := (ptlock s)\<lparr>locked := True, lkcpu := Some 0\<rparr>\<rparr>"
  have "cpu_ok (cpu0 ?s0)" "\<not> locked (ptlock ?s0)" using assms by (auto simp: sched_ready_def cpu_ok_def)
  from acquire_ptable_free [OF this] have acq: "acquire_ptable ?s0 = Ok () ?s1" by simp
  have "rr_ready ?s1" using assms by (auto simp: sched_ready_def rr_ready_def ptable_held_def)
  from rr_scan_preempted [OF this, of "[0..<NPROC]" dt ctx] obtain u where
    u: "rr_scan (run_preempted dt ctx) [0..<NPROC] ?s1 = Ok (filter (\<lambda>i. state (ptable s ! i) = RUNNABLE) [0..<NPROC]) u"
      "rr_ready u" "map state (ptable u) = map state (ptable s)" by auto
  then have "\<exists>v. release_ptable u = Ok () v \<and> ptable v = ptable u \<and> ncli (cpu0 v) = 0 \<and> \<not> locked (ptlock v)"
    by (subst release_ptable_held) (auto simp: rr_ready_def ptable_held_def cpu_ok_def)
  with u show ?thesis by (auto simp: sched_RR_iter_def acq simp del: upt_rec_numeral)
qed

text \<open>A pass of round robin over compute-bound processes completes: starting with no lock
  held, it runs exactly the runnable slots, once each in slot order, every process is left in
  the state it was in, and the scheduler is ready for the next pass.\<close>

lemma rr_pass_preempted:
  assumes "sched_ready s"
  shows "\<exists>s'. sched_RR_iter (run_preempted dt ctx) s =
       Ok (filter (\<lambda>i. state (ptable s ! i) = RUNNABLE) [0..<NPROC]) s' \<and>
     map state (ptable s') = map state (ptable s) \<and> ncli (cpu0 s') = 0 \<and> \<not> locked (ptlock s')"
  using rr_pass [OF assms] .

section \<open>Kill\<close>

text \<open>\<open>kill\<close> returns -1 and changes nothing when no slot has the pid. Otherwise it marks
  the first such slot killed, makes it runnable if it was asleep so that it can notice, and
  changes nothing else.\<close>

lemma kill_correct:
  "\<exists>r s'. kill pd s = Ok r s' \<and>
     (if \<exists>p \<in> set (ptable s). pid p = pd
      then r = 0 \<and> (\<exists>i < length (ptable s). pid (ptable s ! i) = pd \<and> (\<forall>j < i. pid (ptable s ! j) \<noteq> pd) \<and>
             (let p = ptable s ! i in
              s' = s\<lparr>ptable := (ptable s)[i := p\<lparr>killed := True,
                       state := (if state p = SLEEPING then RUNNABLE else state p)\<rparr>]\<rparr>))
      else r = - 1 \<and> s' = s)"
proof (cases "find_idx (\<lambda>p. pid p = pd) (ptable s) 0")
  case None
  then have "kill pd s = Ok (- 1) s" by (simp add: kill_def)
  moreover have "\<forall>p \<in> set (ptable s). pid p \<noteq> pd" using None by (simp add: find_idx_None)
  ultimately show ?thesis by auto
next
  case (Some i)
  note i = find_idx0 [OF Some]
  then have ex: "\<exists>p \<in> set (ptable s). pid p = pd" using nth_mem by blast
  have st: "p\<lparr>killed := True, state := state p\<rparr> = p\<lparr>killed := True\<rparr>" for p :: proc by simp
  show ?thesis unfolding if_P [OF ex]
    using i by (auto simp: kill_def Some pupd_def Let_def st intro!: exI [where x = i])
qed

text \<open>C34: \<open>kill\<close> with a pid that only unused slots carry, such as 0, succeeds, and the mark it
  leaves is not cleared when the slot is next allocated: the new process is born killed.\<close>

theorem kill_unused_poisons:
  assumes "kmem_inv s (k # ps)" "i < length (ptable s)" "state (ptable s ! i) = UNUSED" "pid (ptable s ! i) = pd"
    "\<forall>j < i. state (ptable s ! j) \<noteq> UNUSED \<and> pid (ptable s ! j) \<noteq> pd"
  shows "\<exists>s1 s2. kill pd s = Ok 0 s1 \<and> allocproc s1 = Ok (Some (Slot i)) s2 \<and>
     pid (ptable s2 ! i) = nextpid s \<and> killed (ptable s2 ! i)"
proof -
  let ?s1 = "s\<lparr>ptable := (ptable s)[i := (ptable s ! i)\<lparr>killed := True\<rparr>]\<rparr>"
  have "find_idx (\<lambda>p. pid p = pd) (ptable s) 0 = Some i" using assms by (intro find_idx_first) auto
  then have kill: "kill pd s = Ok 0 ?s1" using assms(2,3) by (simp add: kill_def pupd_def Let_def)
  have f: "find_idx (\<lambda>p. state p = UNUSED) (ptable ?s1) 0 = Some i"
    using assms by (intro find_idx_first) auto
  have "kmem_inv ?s1 (k # ps)" using assms(1) by (simp add: kmem_inv_def kpage_def)
  from allocproc_some [OF f this] show ?thesis using kill assms(2) by auto
qed

section \<open>Witnesses\<close>

text \<open>
  A machine with one free page and two runnable processes, pids 1 and 2, in slots 0 and 1;
  the other slots are unused.
\<close>

definition ex_proc :: proc where
  "ex_proc = \<lparr>pid = 0, pass = 0, runtime = 0, sz = 0, pgdir = 0, kstack = 0, state = UNUSED, pparent = None,
     tf = 0, pcontext = 0, pchan = None, killed = False, ofile = replicate NOFILE None, cwd = None,
     name = replicate 16 0, tickets = 0, stride = 0, remain = 0, last_scheduled = 0, last_interrupted = 0\<rparr>"

definition ex_run :: "cint \<Rightarrow> proc" where
  "ex_run n = ex_proc\<lparr>pid := n, state := RUNNABLE, kstack := 0x80300000, pgdir := 0x80301000\<rparr>"

definition ex_procs :: proc_st where
  "ex_procs = \<lparr>mem = (\<lambda>_. 0), freelist = 0x80200000, use_lock = True, kend = 0x80100000,
     kpgdir = 0x803FF000, kdata = 0x80108000, cr3 = 0, esp0 = 0,
     ptable = [ex_run 1, ex_run 2] @ replicate 62 ex_proc, nextpid = 3, initproc = Some (Slot 0), cproc = None,
     sheap = \<lparr>arr = replicate NPROC ex_proc, hsize = 0\<rparr>, stride_scheduler = True, ticks = 0,
     cpu0 = \<lparr>ncli = 0, intena = True, ifl = True\<rparr>, ptlock = initlock, a_trapret = 0x80105000, a_forkret = 0x80103000\<rparr>"

lemma ex_ptable: "ptable ex_procs = ex_run 1 # ex_run 2 # replicate 62 ex_proc"
  by (simp add: ex_procs_def)

lemma ex_procs_simps [simp]: "length (ptable ex_procs) = NPROC" "nextpid ex_procs = 3" "ticks ex_procs = 0"
  by (simp_all add: ex_procs_def)

lemma ex_run_simps [simp]:
  "state (ex_run n) = RUNNABLE" "pid (ex_run n) = n" "state ex_proc = UNUSED" "pid ex_proc = 0"
  by (simp_all add: ex_run_def ex_proc_def)

lemma ex_procs_ready: "sched_ready ex_procs"
  by (simp add: sched_ready_def ex_procs_def ex_run_def ex_proc_def initlock_def)

lemma ex_procs_kmem: "kmem_inv ex_procs [0x80200000]"
  by (simp add: kmem_inv_def ex_procs_def load32_def le32_def le16_def kpage_def page_aligned_def V2P_def)

lemma ex_procs_least: "least_runnable (ptable ex_procs) (ex_run 1)"
  by (simp add: least_runnable_def sched_key_def ex_run_def ex_proc_def ex_ptable)

theorem stride_pick_least_witness:
  "\<exists>r s'. stride_pick ex_procs = Ok (Some r) s' \<and> pid (pget s' r) = 1"
proof -
  have "\<exists>p \<in> set (ptable ex_procs). state p = RUNNABLE" by (simp add: ex_ptable)
  then show ?thesis
    using stride_pick_least [OF ex_procs_ready] least_runnable_pid [OF ex_procs_least]
    by (fastforce split: option.splits)
qed

lemma keeps_table_preempted: "keeps_table (run_preempted dt ctx)"
  unfolding keeps_table_def
proof (intro allI impI)
  fix s t :: "'z proc_st_scheme"
  assume c: "cproc s = Some (HeapCopy 0)" and r: "run_preempted dt ctx (HeapCopy 0) s = Ok () t"
  show "ptable t = ptable s \<and> length (arr (sheap t)) = length (arr (sheap s)) \<and> pid (pget t (HeapCopy 0)) = pid (pget s (HeapCopy 0))"
    using r c by (cases "arr (sheap s)") (auto simp: run_preempted_def yield_def sched_def holding_ptable_def release_ptable_def
        acquire_ptable_def pupd_def dest!: lock_op_fields split: res.splits if_splits)
qed

theorem stride_starvation_witness:
  "\<exists>t u. sched_stride_iter (run_preempted 5 0x80300F00) ex_procs = Ok (Some (HeapCopy 0)) t \<and>
     runtime (pget t (HeapCopy 0)) = 5 \<and> pcontext (pget t (HeapCopy 0)) = 0x80300F00 \<and>
     stride_pick t = Ok (Some (HeapCopy 0)) u \<and> pid (pget u (HeapCopy 0)) = 1 \<and> runtime (pget u (HeapCopy 0)) = 0 \<and>
     stride_turns (run_preempted 5 0x80300F00) 1 ex_procs = Ok [1] t"
proof -
  have o: "\<forall>q \<in> set (ptable ex_procs). state q = RUNNABLE \<longrightarrow> pid q = pid (ex_run 1) \<longrightarrow> q = ex_run 1"
    by (auto simp: ex_ptable ex_run_simps)
  note st = stride_starvation [OF ex_procs_ready ex_procs_least o, of 5 "0x80300F00"]
  from st obtain t u where t: "sched_stride_iter (run_preempted 5 0x80300F00) ex_procs = Ok (Some (HeapCopy 0)) t"
    "pcontext (pget t (HeapCopy 0)) = 0x80300F00" "runtime (pget t (HeapCopy 0)) = runtime (ex_run 1) + 5"
    "stride_pick t = Ok (Some (HeapCopy 0)) u" "pget u (HeapCopy 0) = (ex_run 1)\<lparr>state := RUNNING, last_scheduled := ticks ex_procs + 5\<rparr>"
    by blast
  moreover have e: "stride_turns (run_preempted 5 0x80300F00) 1 ex_procs = Ok [pid (pget t (HeapCopy 0))] t" using t(1) by simp
  moreover from st keeps_table_preempted e have "[pid (pget t (HeapCopy 0))] = replicate 1 (pid (ex_run 1))" by blast
  moreover have "runtime (ex_run 1) = 0" by (simp add: ex_run_def ex_proc_def)
  ultimately show ?thesis by (auto simp: ex_run_simps)
qed

lemma ex_first_unused:
  "i < NPROC \<Longrightarrow> state (ptable ex_procs ! i) = UNUSED \<Longrightarrow>
     \<forall>j < i. state (ptable ex_procs ! j) \<noteq> UNUSED \<Longrightarrow> i = 2"
proof -
  assume a: "i < NPROC" "state (ptable ex_procs ! i) = UNUSED" "\<forall>j < i. state (ptable ex_procs ! j) \<noteq> UNUSED"
  have "i \<noteq> 0" "i \<noteq> 1" using a(2) by (metis ex_ptable ex_run_simps(1) nth_Cons_0 procstate.distinct(5)
      One_nat_def nth_Cons_Suc)+
  moreover have "\<not> 2 < i" using a(3) by (auto simp: ex_ptable numeral_2_eq_2)
  ultimately show "i = 2" by linarith
qed

theorem allocproc_correct_witness:
  "\<exists>s'. allocproc ex_procs = Ok (Some (Slot 2)) s' \<and> pid (ptable s' ! 2) = 3 \<and> kstack (ptable s' ! 2) = 0x80200000"
proof -
  have "\<exists>p \<in> set (ptable ex_procs). state p = UNUSED" by (simp add: ex_ptable)
  then show ?thesis using allocproc_correct [OF ex_procs_kmem] ex_first_unused
    by (fastforce split: option.splits)
qed

lemma ex_runnable: "filter (\<lambda>i. state (ptable ex_procs ! i) = RUNNABLE) [0..<NPROC] = [0, 1]"
proof -
  have "[0..<NPROC] = 0 # 1 # [2..<NPROC]" by (simp add: upt_conv_Cons del: upt_rec_numeral)
  moreover have "filter (\<lambda>i. state (ptable ex_procs ! i) = RUNNABLE) [2..<NPROC] = []"
    by (auto simp: filter_empty_conv ex_ptable nth_Cons split: nat.splits)
  ultimately show ?thesis by (simp add: ex_ptable)
qed

definition keeps_runnable :: "proc list \<Rightarrow> proc list \<Rightarrow> bool" where
  "keeps_runnable ps qs \<longleftrightarrow> length qs = length ps \<and>
     (\<forall>j < length ps. state (ps ! j) = RUNNABLE \<longrightarrow> state (qs ! j) = RUNNABLE)"

lemma keeps_runnable_pupd:
  "keeps_runnable ps (ptable s) \<Longrightarrow> (\<And>p. state p = RUNNABLE \<Longrightarrow> state (f p) = RUNNABLE) \<Longrightarrow>
     keeps_runnable ps (ptable (pupd r f s))"
proof (cases r)
  case (Slot i)
  assume a: "keeps_runnable ps (ptable s)" "\<And>p. state p = RUNNABLE \<Longrightarrow> state (f p) = RUNNABLE"
  then have "state ((ptable s)[i := f (ptable s ! i)] ! j) = RUNNABLE" if "j < length ps" "state (ps ! j) = RUNNABLE" for j
    using that by (cases "i = j") (auto simp: keeps_runnable_def)
  with a(1) Slot show ?thesis by (simp add: keeps_runnable_def pupd_def)
qed (simp add: keeps_runnable_def pupd_def)

lemma lock_op_ptable: "lock_op f s = Ok x s' \<Longrightarrow> ptable s' = ptable s"
  by (auto simp: lock_op_def split: res.splits prod.splits)

lemma sched_keeps: "sched ctx s = Ok b s' \<Longrightarrow> keeps_runnable ps (ptable s) \<Longrightarrow> keeps_runnable ps (ptable s')"
  by (auto simp: sched_def holding_ptable_def split: option.splits res.splits if_splits
      intro!: keeps_runnable_pupd)

lemma yield_keeps: "yield ctx s = Ok b s' \<Longrightarrow> keeps_runnable ps (ptable s) \<Longrightarrow> keeps_runnable ps (ptable s')"
  by (auto simp: yield_def acquire_ptable_def split: option.splits dest!: lock_op_ptable
      elim!: sched_keeps intro!: keeps_runnable_pupd)

lemma keeps_others_preempted: "keeps_others (run_preempted dt ctx)"
proof -
  have "keeps_runnable (ptable s) (ptable s')" if r: "run_preempted dt ctx r s = Ok a s'" for r s a s'
  proof -
    from r obtain u b where u: "ptable u = ptable s" "yield ctx (u\<lparr>ticks := ticks u + dt\<rparr>) = Ok b s'"
      by (auto simp: run_preempted_def release_ptable_def dest!: lock_op_ptable)
    have "keeps_runnable (ptable s) (ptable (u\<lparr>ticks := ticks u + dt\<rparr>))" by (simp add: keeps_runnable_def u(1))
    with u(2) show ?thesis by (rule yield_keeps)
  qed
  then show ?thesis unfolding keeps_others_def keeps_runnable_def by blast
qed

theorem rr_no_starvation_witness:
  "\<exists>tr s'. sched_RR_iter (run_preempted 1 0) ex_procs = Ok tr s' \<and> 0 \<in> set tr \<and> 1 \<in> set tr"
proof -
  obtain tr s' where t: "sched_RR_iter (run_preempted 1 0) ex_procs = Ok tr s'"
    using rr_pass [OF ex_procs_ready] by blast
  from rr_no_starvation [OF keeps_others_preempted t] t show ?thesis by (auto simp: ex_ptable)
qed

theorem kill_unused_poisons_witness:
  "\<exists>s1 s2. kill 0 ex_procs = Ok 0 s1 \<and> allocproc s1 = Ok (Some (Slot 2)) s2 \<and> killed (ptable s2 ! 2)"
  using kill_unused_poisons [OF ex_procs_kmem, of 2 0]
  by (auto simp: ex_ptable less_Suc_eq numeral_2_eq_2)

end
