(* ===== verification/Sleeplock.thy ===== *)
theory Sleeplock
  imports Proc
begin

text \<open>
  Sleeping locks, sleeplock.c. A process that finds the lock taken goes to sleep on the
  lock's address; the holder is identified by its pid.
\<close>

record sleeplock =
  slocked :: bool
  spid :: cint

definition initsleeplock :: sleeplock where
  "initsleeplock = \<lparr>slocked = False, spid = 0\<rparr>"

text \<open>\<open>myproc()->pid\<close>; with no current process the load through the null pointer faults.\<close>

definition myproc_pid :: "'z proc_st_scheme \<Rightarrow> cint option" where
  "myproc_pid s = map_option (\<lambda>r. pid (pget s r)) (cproc s)"

text \<open>The channel is the address of the lock. The new value of the lock is returned.\<close>

definition acquiresleep :: "chan \<Rightarrow> sleeplock \<Rightarrow> 'z proc_st_scheme \<Rightarrow> (sleeplock, 'z proc_st_scheme) res" where
  "acquiresleep ch lk s =
     (if slocked lk then sleep ch s
      else case myproc_pid s of
        None \<Rightarrow> Panic ''trap''
      | Some pd \<Rightarrow> Ok \<lparr>slocked = True, spid = pd\<rparr> s)"

definition releasesleep :: "chan \<Rightarrow> sleeplock \<Rightarrow> 'z proc_st_scheme \<Rightarrow> (sleeplock, 'z proc_st_scheme) res" where
  "releasesleep ch lk s = Ok \<lparr>slocked = False, spid = 0\<rparr> (wakeup ch s)"

definition holdingsleep :: "sleeplock \<Rightarrow> 'z proc_st_scheme \<Rightarrow> (bool, 'z proc_st_scheme) res" where
  "holdingsleep lk s =
     (if slocked lk
      then case myproc_pid s of None \<Rightarrow> Panic ''trap'' | Some pd \<Rightarrow> Ok (spid lk = pd) s
      else Ok False s)"

section \<open>Waking does not change who runs\<close>

lemma wakeup_simps [simp]:
  "cproc (wakeup ch s) = cproc s" "sheap (wakeup ch s) = sheap s" "length (ptable (wakeup ch s)) = length (ptable s)"
  by (simp_all add: wakeup_def wakeup1_def)

lemma pid_pget_wakeup: "pvalid s r \<Longrightarrow> pid (pget (wakeup ch s) r) = pid (pget s r)"
  by (cases r) (simp_all add: wakeup_def wakeup1_def)

text \<open>The current process pointer, where there is one, is in range.\<close>

definition running :: "'z proc_st_scheme \<Rightarrow> cint \<Rightarrow> bool" where
  "running s pd \<longleftrightarrow> (\<exists>r. cproc s = Some r \<and> pvalid s r \<and> pid (pget s r) = pd)"

lemma running_pid: "running s pd \<Longrightarrow> myproc_pid s = Some pd"
  by (auto simp: running_def myproc_pid_def)

lemma running_wakeup [simp]: "running s pd \<Longrightarrow> running (wakeup ch s) pd"
  by (auto simp: running_def pid_pget_wakeup) (metis pid_pget_wakeup pvalid.simps procref.exhaust wakeup_simps(2,3))

lemma running_cong:
  "cproc t = cproc s \<Longrightarrow> ptable t = ptable s \<Longrightarrow> sheap t = sheap s \<Longrightarrow> running t pd = running s pd"
proof -
  assume a: "cproc t = cproc s" "ptable t = ptable s" "sheap t = sheap s"
  have "pvalid t r = pvalid s r" "pget t r = pget s r" for r by (cases r; simp add: a)+
  with a show ?thesis by (simp add: running_def)
qed

text \<open>What wakeups can do to the table: some sleeping processes have become runnable.\<close>

definition woken :: "proc list \<Rightarrow> proc list \<Rightarrow> bool" where
  "woken ps qs \<longleftrightarrow> list_all2 (\<lambda>p q. q = p \<or> state p = SLEEPING \<and> q = p\<lparr>state := RUNNABLE\<rparr>) ps qs"

lemma woken_refl [simp]: "woken ps ps"
  by (simp add: woken_def list_all2_same)

lemma woken_trans [trans]: "woken ps qs \<Longrightarrow> woken qs rs \<Longrightarrow> woken ps rs"
  by (fastforce simp: woken_def list_all2_conv_all_nth)

lemma woken_wakeup: "woken (ptable s) (ptable (wakeup ch s))"
  by (auto simp: woken_def wakeup_def wakeup1_def list_all2_conv_all_nth)

lemma running_woken:
  assumes "running s pd" "woken (ptable s) (ptable t)" "cproc t = cproc s" "sheap t = sheap s"
  shows "running t pd"
proof -
  have l: "length (ptable t) = length (ptable s)"
    "\<And>i. i < length (ptable s) \<Longrightarrow> pid (ptable t ! i) = pid (ptable s ! i)"
    using assms(2) by (fastforce simp: woken_def list_all2_conv_all_nth)+
  from assms(1) obtain r where "cproc s = Some r" "pvalid s r" "pid (pget s r) = pd" by (auto simp: running_def)
  then show ?thesis using l assms(3,4) by (cases r) (auto simp: running_def)
qed

section \<open>Properties\<close>

text \<open>C35: Taking a free sleep lock and releasing it: the taker, and no process with another
  pid, holds it in between; a second attempt to take it sleeps on the lock's address; the
  release leaves the lock free and makes every process that slept on it runnable.\<close>

theorem sleeplock_correct:
  assumes "running s pd" "\<not> slocked lk"
  shows "\<exists>lk' lk''. acquiresleep ch lk s = Ok lk' s \<and> holdingsleep lk' s = Ok True s \<and>
     (\<forall>t. running t pd' \<and> pd' \<noteq> pd \<longrightarrow> holdingsleep lk' t = Ok False t \<and>
        (\<exists>u. acquiresleep ch lk' t = (Sleep ch u :: (sleeplock, 'a proc_st_scheme) res))) \<and>
     releasesleep ch lk' s = Ok lk'' (wakeup ch s) \<and> \<not> slocked lk'' \<and>
     (\<forall>i < length (ptable s). state (ptable s ! i) = SLEEPING \<and> pchan (ptable s ! i) = Some ch \<longrightarrow>
        state (ptable (wakeup ch s) ! i) = RUNNABLE)"
proof -

  have "\<exists>u. acquiresleep ch \<lparr>slocked = True, spid = pd\<rparr> t = Sleep ch u"
    if "running t pd'" for t :: "'a proc_st_scheme" and pd'
    using that by (auto simp: acquiresleep_def sleep_def running_def)
  then show ?thesis using assms
    by (intro exI [where x = "\<lparr>slocked = True, spid = pd\<rparr>"] exI [where x = "\<lparr>slocked = False, spid = 0\<rparr>"])
      (auto simp: running_pid acquiresleep_def holdingsleep_def releasesleep_def wakeup_def wakeup1_def)
qed

lemma ex_running: "running (ex_procs\<lparr>cproc := Some (Slot 1)\<rparr>) 2"
  by (simp add: running_def ex_ptable)

theorem sleeplock_correct_witness:
  "\<exists>lk'. acquiresleep (ChBufLock 0) initsleeplock (ex_procs\<lparr>cproc := Some (Slot 1)\<rparr>) =
           Ok lk' (ex_procs\<lparr>cproc := Some (Slot 1)\<rparr>) \<and> slocked lk'"
proof -
  have "\<not> slocked initsleeplock" by (simp add: initsleeplock_def)
  from sleeplock_correct [OF ex_running this, of "ChBufLock 0" 1] show ?thesis
    by (auto simp: holdingsleep_def split: if_splits)
qed

end
