(* ===== verification/Ide.thy ===== *)
theory Ide
  imports Sleeplock
begin

text \<open>
  Block buffers (buf.h) and the two disk drivers the kernel can be linked with: the IDE
  driver with its queue of requests, ide.c, and the memory disk, memide.c. The drive is
  represented by the blocks it held at power-on and the sequence of writes it has performed
  since, so that its content after a crash at any point can be described, and by the command
  it is working on: it interrupts when that command is done, and not without one.
\<close>

section \<open>State\<close>

abbreviation (input) BSIZE :: nat where "BSIZE \<equiv> 512"

text \<open>\<open>struct buf\<close>; the flags B_VALID and B_DIRTY are two fields.\<close>

record buf =
  bvalid :: bool
  bdirty :: bool
  bdev :: uint
  blockno :: uint
  blklock :: sleeplock
  refcnt :: uint
  bprev :: nat
  bnext :: nat
  qnext :: "nat option"
  data :: "uchar list"

type_synonym block = "uchar list"
type_synonym drives = "nat \<Rightarrow> nat \<Rightarrow> block"

text \<open>
  \<open>bufs\<close> is the array \<open>bcache.buf\<close>; index NBUF is the list head \<open>bcache.head\<close>. \<open>ide_fault\<close> says
  that the drive reports an error on reads, \<open>disksize\<close> is the size of the memory disk. \<open>ide_cmd\<close> is
  the command that the IDE drive has been given and has not yet signalled: whether it is a
  write, the drive and the sector. \<open>ide_reg\<close> is what the data register gives when no read is
  outstanding.
\<close>

record ide_st = proc_st +
  bufs :: "nat \<Rightarrow> buf"
  idequeue :: "nat option"
  havedisk1 :: bool
  ide_fault :: bool
  ide_cmd :: "(bool \<times> nat \<times> nat) option"
  ide_reg :: block
  disksize :: cint
  disk0 :: drives
  dhist :: "(nat \<times> nat \<times> block) list"

definition write_to :: "nat \<times> nat \<times> block \<Rightarrow> drives \<Rightarrow> drives" where
  "write_to w D = (case w of (d, n, x) \<Rightarrow> D(d := (D d)(n := x)))"

definition disk :: "'z ide_st_scheme \<Rightarrow> drives" where
  "disk s = fold write_to (dhist s) (disk0 s)"

definition bupd :: "nat \<Rightarrow> (buf \<Rightarrow> buf) \<Rightarrow> 'z ide_st_scheme \<Rightarrow> 'z ide_st_scheme" where
  "bupd b f s = s\<lparr>bufs := (bufs s)(b := f (bufs s b))\<rparr>"

text \<open>The drive and sector a buffer's request addresses.\<close>

definition drive_of :: "buf \<Rightarrow> nat" where "drive_of b = unat (bdev b AND 1)"
definition sector_of :: "buf \<Rightarrow> nat" where "sector_of b = unat (blockno b)"

section \<open>The IDE driver\<close>

text \<open>The command for a buffer, and the write that it makes the drive perform.\<close>

definition ide_command :: "buf \<Rightarrow> bool \<times> nat \<times> nat" where
  "ide_command x = (bdirty x, drive_of x, sector_of x)"

definition req_write :: "buf \<Rightarrow> (nat \<times> nat \<times> block) list" where
  "req_write x = (if bdirty x then [(drive_of x, sector_of x, data x)] else [])"

text \<open>
  The ports are written: the drive has a command, and a write transfers the data at once.
  Waiting for the drive to be ready always ends.
\<close>

definition idestart :: "nat option \<Rightarrow> 'z ide_st_scheme \<Rightarrow> (unit, 'z ide_st_scheme) res" where
  "idestart bo s =
     (case bo of
        None \<Rightarrow> Panic ''idestart''
      | Some b \<Rightarrow>
          if unat (blockno (bufs s b)) \<ge> FSSIZE then Panic ''incorrect blockno''
          else Ok () (s\<lparr>dhist := dhist s @ req_write (bufs s b), ide_cmd := Some (ide_command (bufs s b))\<rparr>))"

text \<open>\<open>insl\<close> from the data port: the sector that the drive was told to read.\<close>

definition ide_insl :: "'z ide_st_scheme \<Rightarrow> block" where
  "ide_insl s = (case ide_cmd s of Some (False, d, n) \<Rightarrow> disk s d n | _ \<Rightarrow> ide_reg s)"

text \<open>The interrupt handler. The interrupt ends the drive's command.\<close>

definition ideintr :: "'z ide_st_scheme \<Rightarrow> (unit, 'z ide_st_scheme) res" where
  "ideintr s =
     (case idequeue s of
        None \<Rightarrow> Ok () (s\<lparr>ide_cmd := None\<rparr>)
      | Some b \<Rightarrow>
          let s = s\<lparr>idequeue := qnext (bufs s b)\<rparr>;
              s = (if \<not> bdirty (bufs s b) \<and> \<not> ide_fault s
                   then bupd b (\<lambda>x. x\<lparr>data := ide_insl s\<rparr>) s else s);
              s = s\<lparr>ide_cmd := None\<rparr>;
              s = bupd b (\<lambda>x. x\<lparr>bvalid := True, bdirty := False\<rparr>) s;
              s = wakeup (ChBuf b) s
          in if idequeue s \<noteq> None then idestart (idequeue s) s else Ok () s)"

text \<open>
  The walk to the end of the queue. A queue of distinct buffers has at most NBUF of them,
  so more steps than that are an endless walk.
\<close>

fun queue_last :: "nat \<Rightarrow> (nat \<Rightarrow> buf) \<Rightarrow> nat \<Rightarrow> nat option" where
  "queue_last 0 bf i = None"
| "queue_last (Suc n) bf i = (case qnext (bf i) of None \<Rightarrow> Some i | Some j \<Rightarrow> queue_last n bf j)"

text \<open>\<open>iderw\<close> up to the wait: the request is queued, and started if the queue was empty.\<close>

definition iderw_enqueue :: "nat \<Rightarrow> 'z ide_st_scheme \<Rightarrow> (unit, 'z ide_st_scheme) res" where
  "iderw_enqueue b s =
     rbind (holdingsleep (blklock (bufs s b)) s) (\<lambda>h s.
       if \<not> h then Panic ''iderw: buf not locked''
       else if bvalid (bufs s b) \<and> \<not> bdirty (bufs s b) then Panic ''iderw: nothing to do''
       else if bdev (bufs s b) \<noteq> 0 \<and> \<not> havedisk1 s then Panic ''iderw: ide disk 1 not present''
       else let s = bupd b (\<lambda>x. x\<lparr>qnext := None\<rparr>) s
       in rbind (case idequeue s of
             None \<Rightarrow> Ok () (s\<lparr>idequeue := Some b\<rparr>)
           | Some i \<Rightarrow> (case queue_last NBUF (bufs s) i of
                 None \<Rightarrow> Spin
               | Some j \<Rightarrow> Ok () (bupd j (\<lambda>x. x\<lparr>qnext := Some b\<rparr>) s))) (\<lambda>_ s.
          if idequeue s = Some b then idestart (Some b) s else Ok () s))"

text \<open>
  The wait. The process sleeps until a disk interrupt has served its request; each turn of
  the loop is one interrupt, which comes only if the drive has been given a command. Without one
  the process stays asleep. Between going to sleep and running again nothing of the process's
  own state changes, so the turn is the effect of the interrupt handler.
\<close>

fun iderw_wait :: "nat \<Rightarrow> nat \<Rightarrow> 'z ide_st_scheme \<Rightarrow> (unit, 'z ide_st_scheme) res" where
  "iderw_wait 0 b s = (if bvalid (bufs s b) \<and> \<not> bdirty (bufs s b) then Ok () s else Spin)"
| "iderw_wait (Suc n) b s =
     (if bvalid (bufs s b) \<and> \<not> bdirty (bufs s b) then Ok () s
      else if cproc s = None then Panic ''sleep''
      else if ide_cmd s = None then sleep (ChBuf b) s
      else rbind (ideintr s) (\<lambda>_ s. iderw_wait n b s))"

definition iderw :: "nat \<Rightarrow> 'z ide_st_scheme \<Rightarrow> (unit, 'z ide_st_scheme) res" where
  "iderw b s = rbind (iderw_enqueue b s) (\<lambda>_ s. iderw_wait NBUF b s)"

section \<open>The memory disk\<close>

definition memide_rw :: "nat \<Rightarrow> 'z ide_st_scheme \<Rightarrow> (unit, 'z ide_st_scheme) res" where
  "memide_rw b s =
     rbind (holdingsleep (blklock (bufs s b)) s) (\<lambda>h s.
       if \<not> h then Panic ''iderw: buf not locked''
       else if bvalid (bufs s b) \<and> \<not> bdirty (bufs s b) then Panic ''iderw: nothing to do''
       else if bdev (bufs s b) \<noteq> 1 then Panic ''iderw: request not for disk 1''
       else if blockno (bufs s b) \<ge> disksize s then Panic ''iderw: block out of range''
       else if bdirty (bufs s b)
       then Ok () (bupd b (\<lambda>x. x\<lparr>bvalid := True\<rparr>)
              ((bupd b (\<lambda>x. x\<lparr>bdirty := False\<rparr>) s)\<lparr>dhist := dhist s @ [(1, sector_of (bufs s b), data (bufs s b))]\<rparr>))
       else Ok () (bupd b (\<lambda>x. x\<lparr>data := disk s 1 (sector_of x), bvalid := True\<rparr>) s))"

section \<open>What a driver promises\<close>

text \<open>
  The state after a buffer has been synchronised with its block: a dirty buffer's data is
  the drive's next write, any other buffer is filled from the drive. Processes that slept on
  the buffer may have been woken, which only touches \<open>ptable\<close>.
\<close>

definition same_buf :: "buf \<Rightarrow> buf \<Rightarrow> bool" where
  "same_buf x y \<longleftrightarrow> bdev y = bdev x \<and> blockno y = blockno x \<and> blklock y = blklock x \<and> refcnt y = refcnt x \<and>
     bprev y = bprev x \<and> bnext y = bnext x"

definition synced :: "nat \<Rightarrow> 'z ide_st_scheme \<Rightarrow> 'z ide_st_scheme \<Rightarrow> bool" where
  "synced b s t \<longleftrightarrow>
     (\<exists>p y. t = s\<lparr>ptable := p, bufs := (bufs s)(b := y),
        dhist := dhist s @ (if bdirty (bufs s b)
                   then [(drive_of (bufs s b), sector_of (bufs s b), data (bufs s b))] else [])\<rparr> \<and>
      same_buf (bufs s b) y \<and> bvalid y \<and> \<not> bdirty y \<and>
      data y = (if bdirty (bufs s b) then data (bufs s b)
                else disk s (drive_of (bufs s b)) (sector_of (bufs s b))) \<and>
      (p = ptable s \<or> p = ptable (wakeup (ChBuf b) s)))"

text \<open>The requests a driver has to serve: a locked buffer that is not clean, for a block of the file system.\<close>

abbreviation (input) ide_idle :: "'z ide_st_scheme \<Rightarrow> bool" where
  "ide_idle s \<equiv> idequeue s = None \<and> ide_cmd s = None"

definition ide_request :: "nat \<Rightarrow> 'z ide_st_scheme \<Rightarrow> bool" where
  "ide_request b s \<longleftrightarrow>
     (\<exists>pd. running s pd \<and> blklock (bufs s b) = \<lparr>slocked = True, spid = pd\<rparr>) \<and>
     \<not> (bvalid (bufs s b) \<and> \<not> bdirty (bufs s b)) \<and>
     bdev (bufs s b) = 1 \<and> havedisk1 s \<and> sector_of (bufs s b) < FSSIZE \<and>
     ide_idle s \<and> \<not> ide_fault s"

definition request_ok :: "nat \<Rightarrow> 'z ide_st_scheme \<Rightarrow> bool" where
  "request_ok b s \<longleftrightarrow> ide_request b s \<and> disksize s = 1000"

locale disk_driver =
  fixes rw :: "nat \<Rightarrow> 'z ide_st_scheme \<Rightarrow> (unit, 'z ide_st_scheme) res"
  assumes rw_synced: "request_ok b s \<Longrightarrow> \<exists>t. rw b s = Ok () t \<and> synced b s t"
begin

text \<open>A block that was written is what the next read of it returns.\<close>

lemma write_read_other:
  assumes "request_ok b s" "bdirty (bufs s b)" "rw b s = Ok () t"
    "request_ok c u" "\<not> bdirty (bufs u c)" "disk u = disk t"
    "drive_of (bufs u c) = drive_of (bufs s b)" "sector_of (bufs u c) = sector_of (bufs s b)"
  shows "\<exists>v. rw c u = Ok () v \<and> data (bufs v c) = data (bufs s b)"
proof -
  have "disk t (drive_of (bufs s b)) (sector_of (bufs s b)) = data (bufs s b)"
    using rw_synced [OF assms(1)] assms(2,3) by (auto simp: synced_def disk_def write_to_def)
  moreover obtain v where "rw c u = Ok () v" "synced c u v" using rw_synced [OF assms(4)] by blast
  ultimately show ?thesis using assms(5-8) by (auto simp: synced_def)
qed

lemma write_read:
  assumes "request_ok b s" "bdirty (bufs s b)"
  shows "\<exists>t v. rw b s = Ok () t \<and> rw b (bupd b (\<lambda>x. x\<lparr>bvalid := False, data := junk\<rparr>) t) = Ok () v \<and>
     data (bufs v b) = data (bufs s b)"
proof -
  obtain t where t: "rw b s = Ok () t" "synced b s t" using rw_synced [OF assms(1)] by blast
  let ?u = "bupd b (\<lambda>x. x\<lparr>bvalid := False, data := junk\<rparr>) t"
  obtain p y where y: "t = s\<lparr>ptable := p, bufs := (bufs s)(b := y),
      dhist := dhist s @ [(drive_of (bufs s b), sector_of (bufs s b), data (bufs s b))]\<rparr>"
    "same_buf (bufs s b) y" "\<not> bdirty y" "p = ptable s \<or> p = ptable (wakeup (ChBuf b) s)"
    using t(2) assms(2) by (auto simp: synced_def)
  have "running (s\<lparr>ptable := p\<rparr>) pd" if "running s pd" for pd
    using y(4) running_wakeup [OF that, of "ChBuf b"] that by (auto simp: wakeup_def wakeup1_def)
  then have "running ?u pd" if "running s pd" for pd
    using that y(1) running_cong [of ?u "s\<lparr>ptable := p\<rparr>" pd] by (simp add: bupd_def)
  then have "request_ok b ?u" using assms(1) y
    by (auto simp: request_ok_def ide_request_def same_buf_def bupd_def sector_of_def)
  moreover have "disk ?u = disk t" by (simp add: disk_def bupd_def)
  ultimately show ?thesis
    using write_read_other [OF assms t(1), of b ?u] t(1) y by (auto simp: bupd_def same_buf_def drive_of_def sector_of_def)
qed

end

lemma request_holding: "ide_request b s \<Longrightarrow> holdingsleep (blklock (bufs s b)) s = Ok True s"
  by (auto simp: request_ok_def ide_request_def holdingsleep_def running_pid)

lemma memide_synced:
  assumes "request_ok b s"
  shows "\<exists>t. memide_rw b s = Ok () t \<and> synced b s t"
proof -
  have "\<not> blockno (bufs s b) \<ge> disksize s"
    using assms by (auto simp: request_ok_def ide_request_def sector_of_def word_le_nat_alt)
  moreover have "drive_of (bufs s b) = 1" using assms by (simp add: request_ok_def ide_request_def drive_of_def)
  moreover have "\<not> (bvalid (bufs s b) \<and> \<not> bdirty (bufs s b))" "bdev (bufs s b) = 1"
    using assms by (auto simp: request_ok_def ide_request_def)
  moreover define y where "y = (if bdirty (bufs s b) then (bufs s b)\<lparr>bdirty := False, bvalid := True\<rparr>
      else (bufs s b)\<lparr>data := disk s 1 (sector_of (bufs s b)), bvalid := True\<rparr>)"
  ultimately have "memide_rw b s = Ok () (s\<lparr>ptable := ptable s, bufs := (bufs s)(b := y),
        dhist := dhist s @ (if bdirty (bufs s b)
                   then [(drive_of (bufs s b), sector_of (bufs s b), data (bufs s b))] else [])\<rparr>)"
    using request_holding [of b s] assms by (simp add: memide_rw_def bupd_def request_ok_def)
  moreover have "same_buf (bufs s b) y" "bvalid y" "\<not> bdirty y"
    "data y = (if bdirty (bufs s b) then data (bufs s b) else disk s (drive_of (bufs s b)) (sector_of (bufs s b)))"
    using \<open>drive_of (bufs s b) = 1\<close> by (simp_all add: y_def same_buf_def)
  ultimately show ?thesis unfolding synced_def by blast
qed

lemma iderw_synced:
  assumes "ide_request b s"
  shows "\<exists>t. iderw b s = Ok () t \<and> synced b s t \<and> ptable t = ptable (wakeup (ChBuf b) s)"
proof -
  have c: "cproc s \<noteq> None" "idequeue s = None" "ide_cmd s = None" "\<not> ide_fault s"
    using assms by (auto simp: ide_request_def running_def)
  let ?x = "bufs s b"
  let ?s1 = "s\<lparr>bufs := (bufs s)(b := ?x\<lparr>qnext := None\<rparr>), idequeue := Some b, dhist := dhist s @ req_write ?x,
    ide_cmd := Some (ide_command ?x)\<rparr>"
  define y where "y = (if bdirty ?x then ?x\<lparr>qnext := None, bvalid := True, bdirty := False\<rparr>
      else ?x\<lparr>qnext := None, data := disk s (drive_of ?x) (sector_of ?x), bvalid := True, bdirty := False\<rparr>)"
  let ?t = "s\<lparr>ptable := ptable (wakeup (ChBuf b) s), bufs := (bufs s)(b := y), dhist := dhist s @ req_write ?x\<rparr>"
  have "iderw_enqueue b s = Ok () ?s1" using assms c
    by (simp add: iderw_enqueue_def request_holding bupd_def ide_request_def idestart_def sector_of_def drive_of_def
        ide_command_def req_write_def)
  moreover have "\<not> (bvalid (bufs ?s1 b) \<and> \<not> bdirty (bufs ?s1 b))" using assms by (simp add: ide_request_def)
  moreover have e: "(s\<lparr>ide_cmd := None\<rparr> :: 'a ide_st_scheme) = s" using c(3) by simp
  have "ideintr ?s1 = Ok () ?t"
    using c e by (cases "bdirty ?x")
      (simp_all add: ideintr_def ide_insl_def ide_command_def req_write_def bupd_def wakeup_def wakeup1_def disk_def
        drive_of_def sector_of_def Let_def y_def)
  moreover have y: "same_buf ?x y" "bvalid y" "\<not> bdirty y"
    "data y = (if bdirty ?x then data ?x else disk s (drive_of ?x) (sector_of ?x))"
    by (simp_all add: y_def same_buf_def)
  ultimately have "iderw b s = Ok () ?t" using c(1) by (auto simp: iderw_def numeral_eq_Suc)
  moreover have "synced b s ?t" unfolding synced_def req_write_def using y by blast
  ultimately show ?thesis by simp
qed

interpretation ide: disk_driver "iderw :: nat \<Rightarrow> 'z ide_st_scheme \<Rightarrow> _"
  by unfold_locales (use iderw_synced in \<open>auto simp: request_ok_def\<close>)

interpretation memide: disk_driver "memide_rw :: nat \<Rightarrow> 'z ide_st_scheme \<Rightarrow> _"
  by unfold_locales (rule memide_synced)

section \<open>The request queue\<close>



text \<open>The writes that the requests of a list of buffers make, in order.\<close>

definition req_writes :: "(nat \<Rightarrow> buf) \<Rightarrow> nat list \<Rightarrow> (nat \<times> nat \<times> block) list" where
  "req_writes bf bs = concat (map (\<lambda>c. req_write (bf c)) bs)"

lemma req_writes_simps [simp]: "req_writes bf [] = []" "req_writes bf (c # bs) = req_write (bf c) @ req_writes bf bs"
  by (simp_all add: req_writes_def)











section \<open>Properties\<close>


text \<open>C22: The two drivers are interchangeable: on a request both accept, the IDE driver and the
  memory disk return with the same writes performed and the same data, flags, owner and
  links in every buffer.\<close>

theorem ide_memide_equiv:
  assumes "request_ok b s"
  shows "\<exists>t u. iderw b s = Ok () t \<and> memide_rw b s = Ok () u \<and> dhist t = dhist u \<and> disk t = disk u \<and>
     (\<forall>c. same_buf (bufs t c) (bufs u c) \<and> data (bufs t c) = data (bufs u c) \<and>
        bvalid (bufs t c) = bvalid (bufs u c) \<and> bdirty (bufs t c) = bdirty (bufs u c))"
proof -
  obtain t u where t: "iderw b s = Ok () t" "synced b s t" and u: "memide_rw b s = Ok () u" "synced b s u"
    using iderw_synced [of b s] memide_synced [OF assms] assms unfolding request_ok_def by blast
  obtain p y where y: "t = s\<lparr>ptable := p, bufs := (bufs s)(b := y), dhist := dhist s @ req_write (bufs s b)\<rparr>" "same_buf (bufs s b) y"
    "bvalid y" "\<not> bdirty y" "data y = (if bdirty (bufs s b) then data (bufs s b) else disk s (drive_of (bufs s b)) (sector_of (bufs s b)))"
    using t(2) unfolding synced_def req_write_def by blast
  obtain p' z where z: "u = s\<lparr>ptable := p', bufs := (bufs s)(b := z), dhist := dhist s @ req_write (bufs s b)\<rparr>" "same_buf (bufs s b) z"
    "bvalid z" "\<not> bdirty z" "data z = (if bdirty (bufs s b) then data (bufs s b) else disk s (drive_of (bufs s b)) (sector_of (bufs s b)))"
    using u(2) unfolding synced_def req_write_def by blast
  have "dhist t = dhist u" "disk t = disk u" by (simp_all add: y(1) z(1) disk_def)
  moreover have "same_buf (bufs t c) (bufs u c) \<and> data (bufs t c) = data (bufs u c) \<and>
        bvalid (bufs t c) = bvalid (bufs u c) \<and> bdirty (bufs t c) = bdirty (bufs u c)" for c
    unfolding y(1) z(1) using y(2-) z(2-) by (simp add: same_buf_def)
  ultimately show ?thesis using t(1) u(1) by blast
qed

text \<open>A block survives the disk: after a dirty buffer has been written, throwing its data
  away and reading the block again gives the data that was written, with either driver.\<close>

lemma disk_write_read:
  assumes "request_ok b s" "bdirty (bufs s b)"
  shows "(\<exists>t v. iderw b s = Ok () t \<and> iderw b (bupd b (\<lambda>x. x\<lparr>bvalid := False, data := junk\<rparr>) t) = Ok () v \<and>
       data (bufs v b) = data (bufs s b)) \<and>
     (\<exists>t v. memide_rw b s = Ok () t \<and> memide_rw b (bupd b (\<lambda>x. x\<lparr>bvalid := False, data := junk\<rparr>) t) = Ok () v \<and>
       data (bufs v b) = data (bufs s b))"
  using ide.write_read [OF assms] memide.write_read [OF assms] by blast

section \<open>Witnesses\<close>

definition ex_buf :: buf where
  "ex_buf = \<lparr>bvalid = False, bdirty = False, bdev = 1, blockno = 7, blklock = initsleeplock, refcnt = 0,
     bprev = 0, bnext = 0, qnext = None, data = replicate BSIZE 0\<rparr>"

text \<open>Process 2 holds buffer 0, modified, for block 7; buffer 1 is waiting to be read.\<close>

definition ex_ide :: ide_st where
  "ex_ide = proc_st.extend (ex_procs\<lparr>cproc := Some (Slot 1)\<rparr>) (ide_st.fields
     ((\<lambda>_. ex_buf)(0 := ex_buf\<lparr>blklock := \<lparr>slocked = True, spid = 2\<rparr>, bdirty := True, data := replicate BSIZE 5\<rparr>))
     None True False None (replicate BSIZE 0) 1000 (\<lambda>_ _. replicate BSIZE 9) [])"

lemma ex_ide_request: "request_ok 0 ex_ide" "bdirty (bufs ex_ide 0)"
  by (simp_all add: request_ok_def ide_request_def ex_ide_def proc_st.defs ide_st.defs ex_buf_def sector_of_def running_def ex_ptable)




theorem ide_memide_equiv_witness:
  "\<exists>t u. iderw 0 ex_ide = Ok () t \<and> memide_rw 0 ex_ide = Ok () u \<and> dhist t = dhist u"
  using ide_memide_equiv [OF ex_ide_request(1)] by auto

end
