(* ===== verification/Bio.thy ===== *)
theory Bio
  imports Ide
begin

text \<open>
  The buffer cache, bio.c. The list of buffers is kept as the code keeps it, by \<open>prev\<close> and
  \<open>next\<close> links through the buffers and the head; \<open>lru\<close> relates the links to the list of
  buffers from most to least recently used.
\<close>

section \<open>Operations\<close>

abbreviation (input) HEAD :: nat where "HEAD \<equiv> 30"

text \<open>Putting a buffer at the front of the list, as both \<open>binit\<close> and \<open>brelse\<close> do.\<close>

definition link_front :: "nat \<Rightarrow> (nat \<Rightarrow> buf) \<Rightarrow> nat \<Rightarrow> buf" where
  "link_front b bf =
     (let bf = bf(b := (bf b)\<lparr>bnext := bnext (bf HEAD), bprev := HEAD\<rparr>);
          n = bnext (bf HEAD);
          bf = bf(n := (bf n)\<lparr>bprev := b\<rparr>)
      in bf(HEAD := (bf HEAD)\<lparr>bnext := b\<rparr>))"

definition unlink_buf :: "nat \<Rightarrow> (nat \<Rightarrow> buf) \<Rightarrow> nat \<Rightarrow> buf" where
  "unlink_buf b bf =
     (let n = bnext (bf b); bf = bf(n := (bf n)\<lparr>bprev := bprev (bf b)\<rparr>);
          p = bprev (bf b)
      in bf(p := (bf p)\<lparr>bnext := bnext (bf b)\<rparr>))"

definition binit_buf :: "nat \<Rightarrow> (nat \<Rightarrow> buf) \<Rightarrow> nat \<Rightarrow> buf" where
  "binit_buf b bf = link_front b (bf(b := (bf b)\<lparr>blklock := initsleeplock\<rparr>))"

definition binit :: "'z ide_st_scheme \<Rightarrow> 'z ide_st_scheme" where
  "binit s =
     s\<lparr>bufs := fold binit_buf [0..<NBUF]
                 ((bufs s)(HEAD := (bufs s HEAD)\<lparr>bprev := HEAD, bnext := HEAD\<rparr>))\<rparr>"

text \<open>
  The scans of the list. Every buffer is on it once, so NBUF + 1 steps reach the head again;
  \<open>None\<close> is a walk that does not.
\<close>

fun bscan :: "nat \<Rightarrow> (buf \<Rightarrow> bool) \<Rightarrow> (buf \<Rightarrow> nat) \<Rightarrow> (nat \<Rightarrow> buf) \<Rightarrow> nat \<Rightarrow> nat option option" where
  "bscan 0 P dir bf b = None"
| "bscan (Suc k) P dir bf b =
     (if b = HEAD then Some None
      else if P (bf b) then Some (Some b)
      else bscan k P dir bf (dir (bf b)))"

definition lock_buf :: "nat \<Rightarrow> 'z ide_st_scheme \<Rightarrow> (nat, 'z ide_st_scheme) res" where
  "lock_buf b s =
     rbind (acquiresleep (ChBufLock b) (blklock (bufs s b)) s) (\<lambda>lk s. Ok b (bupd b (\<lambda>x. x\<lparr>blklock := lk\<rparr>) s))"

definition bget :: "uint \<Rightarrow> uint \<Rightarrow> 'z ide_st_scheme \<Rightarrow> (nat, 'z ide_st_scheme) res" where
  "bget dev bno s =
     (case bscan (NBUF + 1) (\<lambda>x. bdev x = dev \<and> blockno x = bno) bnext (bufs s) (bnext (bufs s HEAD)) of
        None \<Rightarrow> Spin
      | Some (Some b) \<Rightarrow> lock_buf b (bupd b (\<lambda>x. x\<lparr>refcnt := refcnt x + 1\<rparr>) s)
      | Some None \<Rightarrow>
          (case bscan (NBUF + 1) (\<lambda>x. refcnt x = 0 \<and> \<not> bdirty x) bprev (bufs s) (bprev (bufs s HEAD)) of
             None \<Rightarrow> Spin
           | Some (Some b) \<Rightarrow>
               lock_buf b (bupd b (\<lambda>x. x\<lparr>bdev := dev, blockno := bno, bvalid := False, bdirty := False, refcnt := 1\<rparr>) s)
           | Some None \<Rightarrow> Panic ''bget: no buffers''))"

definition bread :: "uint \<Rightarrow> uint \<Rightarrow> 'z ide_st_scheme \<Rightarrow> (nat, 'z ide_st_scheme) res" where
  "bread dev bno s =
     rbind (bget dev bno s) (\<lambda>b s.
       if \<not> bvalid (bufs s b) then rbind (iderw b s) (\<lambda>_ s. Ok b s) else Ok b s)"

definition bwrite :: "nat \<Rightarrow> 'z ide_st_scheme \<Rightarrow> (unit, 'z ide_st_scheme) res" where
  "bwrite b s =
     rbind (holdingsleep (blklock (bufs s b)) s) (\<lambda>h s.
       if \<not> h then Panic ''bwrite'' else iderw b (bupd b (\<lambda>x. x\<lparr>bdirty := True\<rparr>) s))"

definition brelse :: "nat \<Rightarrow> 'z ide_st_scheme \<Rightarrow> (unit, 'z ide_st_scheme) res" where
  "brelse b s =
     rbind (holdingsleep (blklock (bufs s b)) s) (\<lambda>h s.
       if \<not> h then Panic ''brelse''
       else rbind (releasesleep (ChBufLock b) (blklock (bufs s b)) s) (\<lambda>lk s.
         let s = bupd b (\<lambda>x. x\<lparr>blklock := lk\<rparr>) s;
             s = bupd b (\<lambda>x. x\<lparr>refcnt := refcnt x - 1\<rparr>) s
         in Ok () (if refcnt (bufs s b) = 0
                   then s\<lparr>bufs := link_front b (unlink_buf b (bufs s))\<rparr> else s)))"

section \<open>The list of buffers\<close>

fun chain :: "(nat \<Rightarrow> buf) \<Rightarrow> nat list \<Rightarrow> bool" where
  "chain bf (a # b # xs) \<longleftrightarrow> bnext (bf a) = b \<and> bprev (bf b) = a \<and> chain bf (b # xs)"
| "chain bf xs \<longleftrightarrow> True"

definition lru :: "(nat \<Rightarrow> buf) \<Rightarrow> nat list \<Rightarrow> bool" where
  "lru bf l \<longleftrightarrow> distinct l \<and> set l = {..<NBUF} \<and> chain bf (HEAD # l @ [HEAD])"

lemma chain_append: "chain bf (xs @ a # ys) \<longleftrightarrow> chain bf (xs @ [a]) \<and> chain bf (a # ys)"
proof (induction xs)
  case (Cons x xs)
  then show ?case by (cases xs) auto
qed (cases ys; simp)

lemma chain_frame:
  "\<forall>x \<in> set (butlast xs). bnext (bf' x) = bnext (bf x) \<Longrightarrow> \<forall>x \<in> set (tl xs). bprev (bf' x) = bprev (bf x) \<Longrightarrow>
     chain bf' xs = chain bf xs"
  by (induction bf xs rule: chain.induct) auto

lemma chain_join:
  "us \<noteq> [] \<Longrightarrow> vs \<noteq> [] \<Longrightarrow> chain bf (us @ vs) \<longleftrightarrow>
     chain bf us \<and> bnext (bf (last us)) = hd vs \<and> bprev (bf (hd vs)) = last us \<and> chain bf vs"
proof (induction us)
  case (Cons u us)
  then show ?case by (cases us; cases vs) auto
qed simp

lemma link_front_chain:
  assumes "chain bf (h # m @ [h])" "distinct (h # m)" "b \<notin> set (h # m)" "h = HEAD"
  shows "chain (link_front b bf) (h # b # m @ [h])"
proof -
  let ?bf = "link_front b bf" and ?n = "hd (m @ [h])"
  have c: "bnext (bf h) = ?n" "chain bf (m @ [h])" using assms(1) chain_join [of "[h]" "m @ [h]" bf] by auto
  have n: "?n \<noteq> b" using assms(3) by (cases m) auto
  have new: "bnext (?bf h) = b" "bprev (?bf b) = h" "bnext (?bf b) = ?n" "bprev (?bf ?n) = b"
    "\<And>x. x \<noteq> h \<Longrightarrow> x \<noteq> b \<Longrightarrow> bnext (?bf x) = bnext (bf x)"
    "\<And>x. x \<noteq> ?n \<Longrightarrow> x \<noteq> b \<Longrightarrow> bprev (?bf x) = bprev (bf x)"
    using assms(3,4) c(1) n by (auto simp: link_front_def Let_def)
  have "chain ?bf (m @ [h])"
  proof (rule chain_frame [THEN iffD2, OF _ _ c(2)])
    show "\<forall>x \<in> set (butlast (m @ [h])). bnext (?bf x) = bnext (bf x)"
    proof
      fix x assume "x \<in> set (butlast (m @ [h]))"
      then have "x \<noteq> h" "x \<noteq> b" using assms(2,3) by auto
      then show "bnext (?bf x) = bnext (bf x)" by (rule new(5))
    qed
    show "\<forall>x \<in> set (tl (m @ [h])). bprev (?bf x) = bprev (bf x)"
    proof
      fix x assume "x \<in> set (tl (m @ [h]))"
      then have "x \<noteq> ?n" "x \<noteq> b" using assms(2,3) by (cases m; auto)+
      then show "bprev (?bf x) = bprev (bf x)" by (rule new(6))
    qed
  qed
  then show ?thesis using new(1-4) chain_join [of "[h, b]" "m @ [h]" ?bf] by simp
qed

lemma unlink_links:
  assumes "bnext (bf b) = n" "bprev (bf b) = p" "n \<noteq> b" "p \<noteq> b"
  shows "bnext (unlink_buf b bf x) = (if x = p then n else bnext (bf x))"
    "bprev (unlink_buf b bf x) = (if x = n then p else bprev (bf x))"
  using assms by (auto simp: unlink_buf_def Let_def)

lemma unlink_chain:
  assumes "chain bf (h # l1 @ b # l2 @ [h])" "distinct (h # l1 @ b # l2)"
  shows "chain (unlink_buf b bf) (h # l1 @ l2 @ [h])"
proof -
  let ?bf = "unlink_buf b bf" and ?p = "last (h # l1)" and ?n = "hd (l2 @ [h])"
  have c: "chain bf (h # l1)" "bprev (bf b) = ?p" "bnext (bf b) = ?n" "chain bf (l2 @ [h])"
    using assms(1) chain_join [of "h # l1" "b # l2 @ [h]" bf] chain_join [of "[b]" "l2 @ [h]" bf] by auto
  have "?n \<noteq> b" "?p \<noteq> b" using assms(2) by (cases l2; auto)+
  note u = unlink_links [of bf b, OF c(3,2) this]
  have new: "bnext (?bf ?p) = ?n" "bprev (?bf ?n) = ?p"
    "\<And>x. x \<noteq> ?p \<Longrightarrow> bnext (?bf x) = bnext (bf x)" "\<And>x. x \<noteq> ?n \<Longrightarrow> bprev (?bf x) = bprev (bf x)"
    by (simp_all only: u if_True if_False simp_thms)
  have p: "?p \<in> set (h # l1)" using last_in_set by blast
  have "chain ?bf (h # l1)"
  proof (rule chain_frame [THEN iffD2, OF _ _ c(1)])
    have "?p \<notin> set (butlast (h # l1))"
      using assms(2) by (metis append_butlast_last_id distinct_append distinct.simps(2) list.distinct(1) not_distinct_conv_prefix append_Cons)
    then show "\<forall>x \<in> set (butlast (h # l1)). bnext (?bf x) = bnext (bf x)" using new(3) by metis
    have "?n \<notin> set l1" using assms(2) by (cases l2) auto
    then show "\<forall>x \<in> set (tl (h # l1)). bprev (?bf x) = bprev (bf x)" using new(4) by (metis list.sel(3))
  qed
  moreover have "chain ?bf (l2 @ [h])"
  proof (rule chain_frame [THEN iffD2, OF _ _ c(4)])
    have "?p \<notin> set l2" using p assms(2) by auto
    then show "\<forall>x \<in> set (butlast (l2 @ [h])). bnext (?bf x) = bnext (bf x)" using new(3) by (metis butlast_snoc)
    have "?n \<notin> set (tl (l2 @ [h]))" using assms(2) by (cases l2) auto
    then show "\<forall>x \<in> set (tl (l2 @ [h])). bprev (?bf x) = bprev (bf x)" using new(4) by metis
  qed
  ultimately show ?thesis using new(1,2) chain_join [of "h # l1" "l2 @ [h]" ?bf] by simp
qed

lemma lru_move_front:
  assumes "lru bf (l1 @ b # l2)"
  shows "lru (link_front b (unlink_buf b bf)) (b # l1 @ l2)"
proof -
  have h: "HEAD \<notin> set (l1 @ b # l2)" using assms by (simp add: lru_def)
  have d: "distinct (HEAD # l1 @ b # l2)" using assms h by (simp add: lru_def)
  have "chain bf (HEAD # l1 @ b # l2 @ [HEAD])" using assms by (simp add: lru_def)
  from unlink_chain [OF this d] have "chain (unlink_buf b bf) (HEAD # (l1 @ l2) @ [HEAD])" by simp
  from link_front_chain [OF this] d have "chain (link_front b (unlink_buf b bf)) (HEAD # b # (l1 @ l2) @ [HEAD])" by simp
  then show ?thesis using assms by (auto simp: lru_def)
qed

text \<open>Scanning forwards follows the list, scanning backwards its reverse.\<close>

lemma bscan_next:
  "chain bf (a # l @ [HEAD]) \<Longrightarrow> HEAD \<notin> set l \<Longrightarrow> length l < k \<Longrightarrow>
     bscan k P bnext bf (bnext (bf a)) = Some (find (\<lambda>b. P (bf b)) l)"
proof (induction l arbitrary: a k)
  case Nil
  then show ?case by (cases k) auto
next
  case (Cons b l)
  then obtain j where "k = Suc j" by (cases k) auto
  with Cons show ?case by simp
qed

lemma chain_rev_last: "chain bf (HEAD # l @ [b, a]) \<Longrightarrow> bprev (bf a) = b"
  using chain_join [of "HEAD # l @ [b]" "[a]" bf] by simp

lemma bscan_prev:
  "chain bf (HEAD # l @ [a]) \<Longrightarrow> HEAD \<notin> set l \<Longrightarrow> length l < k \<Longrightarrow>
     bscan k P bprev bf (bprev (bf a)) = Some (find (\<lambda>b. P (bf b)) (rev l))"
proof (induction l arbitrary: a k rule: rev_induct)
  case Nil
  then show ?case by (cases k) auto
next
  case (snoc b l)
  then obtain j where "k = Suc j" by (cases k) auto
  moreover have "bprev (bf a) = b" using snoc.prems(1) chain_rev_last [of bf l b a] by simp
  moreover have "chain bf (HEAD # l @ [b])"
    using snoc.prems(1) chain_join [of "HEAD # l @ [b]" "[a]" bf] by simp
  ultimately show ?case using snoc by simp
qed

section \<open>The cache invariant\<close>

text \<open>
  The state between two steps of a process with pid \<open>pd\<close> that holds the buffers \<open>H\<close> while
  no other process uses the cache: the held buffers, and only they, are referenced and
  locked; no block of the file-system device is cached twice; and a buffer that is neither
  held nor dirty has the content the disk has.
\<close>

definition buf_ok :: "cint \<Rightarrow> nat set \<Rightarrow> (nat \<Rightarrow> block) \<Rightarrow> nat \<Rightarrow> buf \<Rightarrow> bool" where
  "buf_ok pd H D b x \<longleftrightarrow>
     refcnt x = (if b \<in> H then 1 else 0) \<and> (slocked (blklock x) \<longleftrightarrow> b \<in> H) \<and>
     (b \<in> H \<longrightarrow> blklock x = \<lparr>slocked = True, spid = pd\<rparr> \<and> bdev x = 1) \<and> (bdirty x \<longrightarrow> bdev x = 1) \<and>
     (bdev x = 1 \<longrightarrow> bvalid x \<and> length (data x) = BSIZE \<and> sector_of x < FSSIZE \<and>
        (b \<notin> H \<longrightarrow> \<not> bdirty x \<longrightarrow> data x = D (sector_of x)))"

definition uniq :: "(nat \<Rightarrow> buf) \<Rightarrow> bool" where
  "uniq bf \<longleftrightarrow> (\<forall>b < NBUF. \<forall>c < NBUF. bdev (bf b) = 1 \<longrightarrow> bdev (bf c) = 1 \<longrightarrow> blockno (bf b) = blockno (bf c) \<longrightarrow> b = c)"

definition cache_ok :: "cint \<Rightarrow> nat set \<Rightarrow> (nat \<Rightarrow> buf) \<Rightarrow> (nat \<Rightarrow> block) \<Rightarrow> bool" where
  "cache_ok pd H bf D \<longleftrightarrow>
     H \<subseteq> {..<NBUF} \<and> (\<exists>l. lru bf l) \<and> (\<forall>b < NBUF. buf_ok pd H D b (bf b)) \<and> uniq bf"

text \<open>The content of a block as the kernel sees it: from the cache, or else from the disk.\<close>

definition view :: "(nat \<Rightarrow> buf) \<Rightarrow> (nat \<Rightarrow> block) \<Rightarrow> nat \<Rightarrow> block" where
  "view bf D n =
     (case find (\<lambda>b. bdev (bf b) = 1 \<and> sector_of (bf b) = n) [0..<NBUF] of
        Some b \<Rightarrow> data (bf b) | None \<Rightarrow> D n)"

lemma sector_inj: "sector_of x = sector_of y \<longleftrightarrow> blockno x = blockno y"
  by (auto simp: sector_of_def word_unat_eq_iff)

lemma view_cached: "uniq bf \<Longrightarrow> b < NBUF \<Longrightarrow> bdev (bf b) = 1 \<Longrightarrow> view bf D (sector_of (bf b)) = data (bf b)"
proof -
  assume a: "uniq bf" "b < NBUF" "bdev (bf b) = 1"
  then obtain c where c: "find (\<lambda>c. bdev (bf c) = 1 \<and> sector_of (bf c) = sector_of (bf b)) [0..<NBUF] = Some c"
    using find_None_iff [of "\<lambda>c. bdev (bf c) = 1 \<and> sector_of (bf c) = sector_of (bf b)" "[0..<NBUF]"]
    by (cases "find (\<lambda>c. bdev (bf c) = 1 \<and> sector_of (bf c) = sector_of (bf b)) [0..<NBUF]")
      (auto simp del: upt_rec_numeral)
  then have "c < NBUF" "bdev (bf c) = 1" "blockno (bf c) = blockno (bf b)"
    by (auto simp: find_Some_iff sector_inj simp del: upt_rec_numeral)
  then have "c = b" using a unfolding uniq_def by blast
  with c show ?thesis by (simp add: view_def del: upt_rec_numeral)
qed

lemma view_uncached: "\<forall>b < NBUF. bdev (bf b) = 1 \<longrightarrow> sector_of (bf b) \<noteq> n \<Longrightarrow> view bf D n = D n"
proof -
  assume "\<forall>b < NBUF. bdev (bf b) = 1 \<longrightarrow> sector_of (bf b) \<noteq> n"
  then have "find (\<lambda>b. bdev (bf b) = 1 \<and> sector_of (bf b) = n) [0..<NBUF] = None"
    by (auto simp: find_None_iff simp del: upt_rec_numeral)
  then show ?thesis by (simp add: view_def del: upt_rec_numeral)
qed

lemma view_cong:
  assumes "\<And>c. (bdev (bf' c) = 1 \<and> sector_of (bf' c) = n) = (bdev (bf c) = 1 \<and> sector_of (bf c) = n)"
    "\<And>c. bdev (bf c) = 1 \<Longrightarrow> sector_of (bf c) = n \<Longrightarrow> data (bf' c) = data (bf c)"
  shows "view bf' D n = view bf D n"
proof -
  have "(\<lambda>c. bdev (bf' c) = 1 \<and> sector_of (bf' c) = n) = (\<lambda>c. bdev (bf c) = 1 \<and> sector_of (bf c) = n)"
    using assms(1) by blast
  then have f: "find (\<lambda>c. bdev (bf' c) = 1 \<and> sector_of (bf' c) = n) [0..<NBUF] = find (\<lambda>c. bdev (bf c) = 1 \<and> sector_of (bf c) = n) [0..<NBUF]"
    by (simp only:)
  show ?thesis
  proof (cases "find (\<lambda>c. bdev (bf c) = 1 \<and> sector_of (bf c) = n) [0..<NBUF]")
    case (Some c)
    then have "data (bf' c) = data (bf c)" using assms(2) by (auto simp: find_Some_iff simp del: upt_rec_numeral)
    then show ?thesis by (simp only: view_def f Some option.case)
  qed (simp only: view_def f option.case)
qed

text \<open>\<open>view\<close>, \<open>uniq\<close> and \<open>buf_ok\<close> do not depend on the links.\<close>

definition content :: "buf \<Rightarrow> bool \<times> bool \<times> uint \<times> uint \<times> sleeplock \<times> uint \<times> block" where
  "content x = (bvalid x, bdirty x, bdev x, blockno x, blklock x, refcnt x, data x)"

lemma content_link [simp]:
  "content (link_front b bf x) = content (bf x)" "content (unlink_buf b bf x) = content (bf x)"
  by (simp_all add: content_def link_front_def unlink_buf_def Let_def)

lemma uniq_content: "\<forall>b. content (bf b) = content (bf' b) \<Longrightarrow> uniq bf = uniq bf'"
  by (simp add: uniq_def content_def)

lemma buf_ok_content: "content x = content y \<Longrightarrow> buf_ok pd H D b x = buf_ok pd H D b y"
  by (simp add: buf_ok_def content_def sector_of_def)

lemma view_content: "\<forall>b. content (bf b) = content (bf' b) \<Longrightarrow> view bf D n = view bf' D n"
  by (rule view_cong) (simp_all add: content_def sector_of_def)

lemma lru_links: "\<forall>x. bnext (bf' x) = bnext (bf x) \<and> bprev (bf' x) = bprev (bf x) \<Longrightarrow> lru bf' l = lru bf l"
  using chain_frame [of "HEAD # l @ [HEAD]" bf' bf] by (simp add: lru_def)

text \<open>Changing one buffer.\<close>

lemma cache_ok_upd:
  assumes "cache_ok pd H bf D" "b < NBUF" "bnext y = bnext (bf b)" "bprev y = bprev (bf b)"
    "buf_ok pd H' D b y" "H' - {b} = H - {b}"
    "\<forall>c < NBUF. c \<noteq> b \<longrightarrow> bdev (bf c) = 1 \<longrightarrow> bdev y = 1 \<longrightarrow> blockno (bf c) \<noteq> blockno y"
  shows "cache_ok pd H' (bf(b := y)) D"
proof -
  have "H' \<subseteq> {..<NBUF}" using assms(1,2,6) by (auto simp: cache_ok_def)
  moreover have "\<exists>l. lru (bf(b := y)) l"
    using assms(1,3,4) lru_links [of "bf(b := y)" bf] by (auto simp: cache_ok_def)
  moreover have "buf_ok pd H' D c (bf c)" if "c < NBUF" "c \<noteq> b" for c
  proof -
    have "c \<in> H' \<longleftrightarrow> c \<in> H" using assms(6) that(2) by blast
    moreover have "buf_ok pd H D c (bf c)" using assms(1) that(1) by (simp add: cache_ok_def)
    ultimately show ?thesis by (simp add: buf_ok_def)
  qed
  moreover have "uniq (bf(b := y))"
    using assms(1,7) unfolding cache_ok_def uniq_def by (metis fun_upd_apply)
  ultimately show ?thesis using assms(5) by (simp add: cache_ok_def)
qed

lemma view_upd_same:
  assumes "uniq bf" "b < NBUF" "bdev (bf b) = 1" "bdev y = 1" "blockno y = blockno (bf b)" "data y = data (bf b)"
  shows "view (bf(b := y)) D = view bf D"
proof
  show "view (bf(b := y)) D n = view bf D n" for n
    using assms by (intro view_cong) (auto simp: sector_of_def)
qed

lemma view_upd_data:
  assumes "uniq bf" "b < NBUF" "bdev (bf b) = 1" "bdev y = 1" "blockno y = blockno (bf b)"
  shows "view (bf(b := y)) D = (view bf D)(sector_of (bf b) := data y)"
proof
  fix n
  have u: "uniq (bf(b := y))" using assms unfolding uniq_def by (metis fun_upd_apply)
  have s: "sector_of y = sector_of (bf b)" using assms by (simp add: sector_of_def)
  show "view (bf(b := y)) D n = ((view bf D)(sector_of (bf b) := data y)) n"
  proof (cases "n = sector_of (bf b)")
    case True
    then show ?thesis using view_cached [OF u assms(2), of D] assms(4) s by simp
  next
    case False
    then have "view (bf(b := y)) D n = view bf D n" using s by (intro view_cong) auto
    with False show ?thesis by simp
  qed
qed

lemma view_recycle:
  assumes "uniq bf" "b < NBUF" "bdev (bf b) = 1 \<Longrightarrow> data (bf b) = D (sector_of (bf b))" "bdev y = 1"
    "\<forall>c < NBUF. bdev (bf c) = 1 \<longrightarrow> blockno (bf c) \<noteq> blockno y" "data y = D (sector_of y)"
  shows "view (bf(b := y)) D = view bf D"
proof
  fix n
  have u: "uniq (bf(b := y))" using assms(1,5) unfolding uniq_def by (metis fun_upd_apply)
  consider "n = sector_of y" | "n \<noteq> sector_of y" "bdev (bf b) = 1" "n = sector_of (bf b)"
    | "n \<noteq> sector_of y" "\<not> (bdev (bf b) = 1 \<and> n = sector_of (bf b))" by blast
  then show "view (bf(b := y)) D n = view bf D n"
  proof cases
    case 1
    have "view bf D n = D n" using assms(5) 1 by (intro view_uncached) (auto simp: sector_inj)
    moreover have "view (bf(b := y)) D n = data y" using view_cached [OF u assms(2), of D] assms(4) 1 by simp
    ultimately show ?thesis using assms(6) 1 by simp
  next
    case 2
    have "view bf D n = D n" using view_cached [OF assms(1,2), of D] assms(3) 2 by simp
    moreover have "view (bf(b := y)) D n = D n"
      using assms(1,2) 2 by (intro view_uncached) (auto simp: uniq_def sector_inj)
    ultimately show ?thesis by simp
  next
    case 3
    then show ?thesis by (intro view_cong) auto
  qed
qed

section \<open>The operations on a good state\<close>

definition binv :: "cint \<Rightarrow> nat set \<Rightarrow> 'z ide_st_scheme \<Rightarrow> bool" where
  "binv pd H s \<longleftrightarrow>
     running s pd \<and> havedisk1 s \<and> ide_idle s \<and> \<not> ide_fault s \<and>
     (\<forall>n < FSSIZE. length (disk s 1 n) = BSIZE) \<and> cache_ok pd H (bufs s) (disk s 1)"

definition bview :: "'z ide_st_scheme \<Rightarrow> nat \<Rightarrow> block" where
  "bview s = view (bufs s) (disk s 1)"

text \<open>What an operation of the cache may change of the state.\<close>

definition bstep :: "'z ide_st_scheme \<Rightarrow> 'z ide_st_scheme \<Rightarrow> bool" where
  "bstep s t \<longleftrightarrow> t = s\<lparr>ptable := ptable t, bufs := bufs t, dhist := dhist t\<rparr> \<and> woken (ptable s) (ptable t)"

lemma bstep_refl [simp]: "bstep s s"
  by (simp add: bstep_def)

lemma bstep_trans [trans]: "bstep s t \<Longrightarrow> bstep t u \<Longrightarrow> bstep s u"
  unfolding bstep_def
proof (elim conjE, intro conjI)
  assume a: "t = s\<lparr>ptable := ptable t, bufs := bufs t, dhist := dhist t\<rparr>"
    "u = t\<lparr>ptable := ptable u, bufs := bufs u, dhist := dhist u\<rparr>"
  obtain p b d where "t = s\<lparr>ptable := p, bufs := b, dhist := d\<rparr>" using a(1) by blast
  with a(2) show "u = s\<lparr>ptable := ptable u, bufs := bufs u, dhist := dhist u\<rparr>" by simp
qed (rule woken_trans)

lemma bstepI: "woken (ptable s) p \<Longrightarrow> bstep s (s\<lparr>ptable := p, bufs := bf, dhist := d\<rparr>)"
  by (simp add: bstep_def)

lemma bstep_bufs: "bstep s (s\<lparr>bufs := bf\<rparr>)"
  by (simp add: bstep_def)

lemma bstepE:
  assumes "bstep s t"
  obtains p bf d where "t = s\<lparr>ptable := p, bufs := bf, dhist := d\<rparr>" "woken (ptable s) p"
  using assms unfolding bstep_def by blast

lemma bstep_fields:
  assumes "bstep s t"
  shows "cproc t = cproc s" "sheap t = sheap s" "havedisk1 t = havedisk1 s" "idequeue t = idequeue s"
    "ide_fault t = ide_fault s" "disk0 t = disk0 s" "ide_st.more t = ide_st.more s" "woken (ptable s) (ptable t)"
    "ide_cmd t = ide_cmd s"
  using assms by (auto elim!: bstepE)

lemma bstep_running: "bstep s t \<Longrightarrow> running s pd \<Longrightarrow> running t pd"
  using running_woken [of s pd t] bstep_fields [of s t] by blast

lemma binv_bstep:
  assumes "binv pd H s" "bstep s t" "dhist t = dhist s" "cache_ok pd H' (bufs t) (disk s 1)"
  shows "binv pd H' t"
proof -
  have "disk t = disk s" using assms(3) bstep_fields(6) [OF assms(2)] by (simp add: disk_def)
  then show ?thesis
    using assms(1,4) bstep_running [OF assms(2)] bstep_fields [OF assms(2)] by (auto simp: binv_def)
qed

lemma lock_buf_free:
  assumes "running s pd" "\<not> slocked (blklock (bufs s b))"
  shows "lock_buf b s = Ok b (s\<lparr>bufs := (bufs s)(b := (bufs s b)\<lparr>blklock := \<lparr>slocked = True, spid = pd\<rparr>\<rparr>)\<rparr>)"
  using assms by (simp add: lock_buf_def acquiresleep_def running_pid bupd_def)

lemma running_bufs [simp]: "running (s\<lparr>bufs := bf\<rparr>) pd = running s pd"
  by (rule running_cong) simp_all

lemma lru_scan:
  assumes "lru bf l"
  shows "bscan (NBUF + 1) P bnext bf (bnext (bf HEAD)) = Some (find (\<lambda>b. P (bf b)) l)"
    "bscan (NBUF + 1) P bprev bf (bprev (bf HEAD)) = Some (find (\<lambda>b. P (bf b)) (rev l))"
proof -
  have "length l = NBUF" using assms distinct_card [of l] by (simp add: lru_def)
  moreover have "HEAD \<notin> set l" "chain bf (HEAD # l @ [HEAD])" using assms by (simp_all add: lru_def)
  ultimately show "bscan (NBUF + 1) P bnext bf (bnext (bf HEAD)) = Some (find (\<lambda>b. P (bf b)) l)"
    "bscan (NBUF + 1) P bprev bf (bprev (bf HEAD)) = Some (find (\<lambda>b. P (bf b)) (rev l))"
    using bscan_next [of bf HEAD l "NBUF + 1" P] bscan_prev [of bf l HEAD "NBUF + 1" P] by simp_all
qed

lemma find_in: "find P xs = Some b \<Longrightarrow> b \<in> set xs \<and> P b"
  by (auto simp: find_Some_iff)

lemma bget_cached:
  assumes "binv pd H s" "b < NBUF" "b \<notin> H" "bdev (bufs s b) = 1" "blockno (bufs s b) = n"
  shows "bget 1 n s = Ok b (s\<lparr>bufs := (bufs s)(b := (bufs s b)\<lparr>refcnt := 1, blklock := \<lparr>slocked = True, spid = pd\<rparr>\<rparr>)\<rparr>)"
proof -
  from assms(1) obtain l where l: "lru (bufs s) l" "uniq (bufs s)" "buf_ok pd H (disk s 1) b (bufs s b)"
    "running s pd" using assms(2) by (auto simp: binv_def cache_ok_def)
  have bs: "b \<in> set l" "set l = {..<NBUF}" using l(1) assms(2) by (simp_all add: lru_def)
  obtain c where c: "find (\<lambda>b. bdev (bufs s b) = 1 \<and> blockno (bufs s b) = n) l = Some c"
    using bs assms(4,5) by (cases "find (\<lambda>b. bdev (bufs s b) = 1 \<and> blockno (bufs s b) = n) l") (auto simp: find_None_iff)
  from find_in [OF c] have "c = b" using l(2) bs assms(2,4,5) by (auto simp: uniq_def)
  with c lru_scan(1) [OF l(1), of "\<lambda>x. bdev x = 1 \<and> blockno x = n"]
  have "bget 1 n s = lock_buf b (bupd b (\<lambda>x. x\<lparr>refcnt := refcnt x + 1\<rparr>) s)" by (simp add: bget_def)
  moreover have "refcnt (bufs s b) = 0" "\<not> slocked (blklock (bufs s b))" using l(3) assms(3) by (simp_all add: buf_ok_def)
  ultimately show ?thesis using l(4) by (simp add: lock_buf_free bupd_def)
qed

lemma bget_recycle:
  assumes "binv pd H s" "\<forall>b < NBUF. bdev (bufs s b) = 1 \<longrightarrow> blockno (bufs s b) \<noteq> n"
    "c < NBUF" "c \<notin> H" "\<not> bdirty (bufs s c)"
  obtains b where "b < NBUF" "b \<notin> H" "\<not> bdirty (bufs s b)"
    "bget 1 n s = Ok b (s\<lparr>bufs := (bufs s)(b := (bufs s b)\<lparr>bdev := 1, blockno := n, bvalid := False, bdirty := False,
       refcnt := 1, blklock := \<lparr>slocked = True, spid = pd\<rparr>\<rparr>)\<rparr>)"
proof -
  from assms(1) obtain l where l: "lru (bufs s) l" "running s pd"
    "\<And>b. b < NBUF \<Longrightarrow> buf_ok pd H (disk s 1) b (bufs s b)" by (auto simp: binv_def cache_ok_def)
  have sl: "set l = {..<NBUF}" using l(1) by (simp add: lru_def)
  have f: "find (\<lambda>b. bdev (bufs s b) = 1 \<and> blockno (bufs s b) = n) l = None"
    using assms(2) sl by (auto simp: find_None_iff)
  have "refcnt (bufs s c) = 0" using l(3) [OF assms(3)] assms(4) by (simp add: buf_ok_def)
  then obtain b where b: "find (\<lambda>b. refcnt (bufs s b) = 0 \<and> \<not> bdirty (bufs s b)) (rev l) = Some b"
    using assms(3,5) sl
    by (cases "find (\<lambda>b. refcnt (bufs s b) = 0 \<and> \<not> bdirty (bufs s b)) (rev l)") (auto simp: find_None_iff)
  from find_in [OF b] have b1: "b < NBUF" "refcnt (bufs s b) = 0" "\<not> bdirty (bufs s b)" using sl by auto
  then have b2: "b \<notin> H" "\<not> slocked (blklock (bufs s b))" using l(3) [OF b1(1)] by (auto simp: buf_ok_def split: if_splits)
  have "bget 1 n s = lock_buf b (bupd b (\<lambda>x. x\<lparr>bdev := 1, blockno := n, bvalid := False, bdirty := False, refcnt := 1\<rparr>) s)"
    using f b lru_scan [OF l(1)] by (simp add: bget_def)
  then have "bget 1 n s = Ok b (s\<lparr>bufs := (bufs s)(b := (bufs s b)\<lparr>bdev := 1, blockno := n, bvalid := False, bdirty := False,
       refcnt := 1, blklock := \<lparr>slocked = True, spid = pd\<rparr>\<rparr>)\<rparr>)"
    using l(2) b2 by (simp add: lock_buf_free bupd_def)
  with b1 b2 show thesis by (intro that)
qed

definition dirty :: "(nat \<Rightarrow> buf) \<Rightarrow> nat set" where
  "dirty bf = {sector_of (bf b) |b. b < NBUF \<and> bdirty (bf b)}"

text \<open>What a held buffer's owner knows of it after a step on other buffers.\<close>

definition keeps_held :: "nat set \<Rightarrow> (nat \<Rightarrow> buf) \<Rightarrow> (nat \<Rightarrow> buf) \<Rightarrow> bool" where
  "keeps_held H bf bf' \<longleftrightarrow> (\<forall>c \<in> H. content (bf' c) = content (bf c))"

lemma bread_cached:
  assumes "binv pd H s" "b < NBUF" "b \<notin> H" "bdev (bufs s b) = 1" "blockno (bufs s b) = n"
  shows "bread 1 n s = Ok b (s\<lparr>bufs := (bufs s)(b := (bufs s b)\<lparr>refcnt := 1, blklock := \<lparr>slocked = True, spid = pd\<rparr>\<rparr>)\<rparr>)"
proof -
  have "bvalid (bufs s b)" using assms by (auto simp: binv_def cache_ok_def buf_ok_def)
  then show ?thesis by (simp add: bread_def bget_cached [OF assms])
qed

lemma bread_uncached:
  assumes "binv pd H s" "\<forall>b < NBUF. bdev (bufs s b) = 1 \<longrightarrow> blockno (bufs s b) \<noteq> n" "unat n < FSSIZE"
    "c < NBUF" "c \<notin> H" "\<not> bdirty (bufs s c)"
  obtains b p y where "b < NBUF" "b \<notin> H" "\<not> bdirty (bufs s b)"
    "bread 1 n s = Ok b (s\<lparr>ptable := p, bufs := (bufs s)(b := y)\<rparr>)" "woken (ptable s) p"
    "bdev y = 1" "blockno y = n" "blklock y = \<lparr>slocked = True, spid = pd\<rparr>" "refcnt y = 1" "bvalid y" "\<not> bdirty y"
    "bnext y = bnext (bufs s b)" "bprev y = bprev (bufs s b)" "data y = disk s 1 (unat n)"
proof -
  from bget_recycle [OF assms(1,2,4-6)] obtain b where b: "b < NBUF" "b \<notin> H" "\<not> bdirty (bufs s b)"
    "bget 1 n s = Ok b (s\<lparr>bufs := (bufs s)(b := (bufs s b)\<lparr>bdev := 1, blockno := n, bvalid := False, bdirty := False,
       refcnt := 1, blklock := \<lparr>slocked = True, spid = pd\<rparr>\<rparr>)\<rparr>)" (is "_ = Ok b ?u") by blast
  have req: "ide_request b ?u"
    using assms(1,3) by (auto simp: ide_request_def binv_def sector_of_def)
  obtain t where t: "iderw b ?u = Ok () t" "synced b ?u t" using iderw_synced [OF req] by blast
  then obtain p y where y: "t = ?u\<lparr>ptable := p, bufs := (bufs ?u)(b := y), dhist := dhist s\<rparr>"
    "same_buf (bufs ?u b) y" "bvalid y" "\<not> bdirty y" "data y = disk ?u (drive_of (bufs ?u b)) (sector_of (bufs ?u b))"
    "p = ptable s \<or> p = ptable (wakeup (ChBuf b) ?u)"
    by (auto simp: synced_def)
  have "woken (ptable s) p" using y(6) woken_wakeup [of ?u "ChBuf b"] by auto
  moreover have "bread 1 n s = Ok b (s\<lparr>ptable := p, bufs := (bufs s)(b := y)\<rparr>)"
    using t(1) y(1) by (simp add: bread_def b(4))
  moreover have "disk ?u = disk s" by (simp add: disk_def)
  ultimately show thesis using b y(2-5)
    by (intro that [where b = b and p = p and y = y]) (auto simp: same_buf_def drive_of_def sector_of_def)
qed

lemma buf_ok_held:
  "bdev y = 1 \<Longrightarrow> blklock y = \<lparr>slocked = True, spid = pd\<rparr> \<Longrightarrow> refcnt y = 1 \<Longrightarrow> bvalid y \<Longrightarrow>
     length (data y) = BSIZE \<Longrightarrow> sector_of y < FSSIZE \<Longrightarrow> b \<in> H \<Longrightarrow> buf_ok pd H D b y"
  by (simp add: buf_ok_def)

lemma bread_ok:
  assumes "binv pd H s" "unat n < FSSIZE" "\<forall>b \<in> H. blockno (bufs s b) \<noteq> n"
    "unat n \<in> dirty (bufs s) \<or> (\<exists>c < NBUF. c \<notin> H \<and> \<not> bdirty (bufs s c))"
  obtains b t where "bread 1 n s = Ok b t" "b < NBUF" "b \<notin> H" "binv pd (insert b H) t" "bstep s t" "dhist t = dhist s"
    "bview t = bview s" "blockno (bufs t b) = n" "data (bufs t b) = bview s (unat n)"
    "keeps_held H (bufs s) (bufs t)" "dirty (bufs t) = dirty (bufs s)"
    "bdirty (bufs t b) \<longleftrightarrow> unat n \<in> dirty (bufs s)"
proof -
  have inv: "cache_ok pd H (bufs s) (disk s 1)" "uniq (bufs s)" "H \<subseteq> {..<NBUF}"
    "\<And>b. b < NBUF \<Longrightarrow> buf_ok pd H (disk s 1) b (bufs s b)"
    using assms(1) by (auto simp: binv_def cache_ok_def)
  show thesis
  proof (cases "\<exists>b < NBUF. bdev (bufs s b) = 1 \<and> blockno (bufs s b) = n")
    case True
    then obtain b where b: "b < NBUF" "bdev (bufs s b) = 1" "blockno (bufs s b) = n" by blast
    then have nH: "b \<notin> H" using assms(3) by blast
    let ?y = "(bufs s b)\<lparr>refcnt := 1, blklock := \<lparr>slocked = True, spid = pd\<rparr>\<rparr>"
    let ?t = "s\<lparr>bufs := (bufs s)(b := ?y)\<rparr>"
    have step: "bstep s ?t" by (rule bstep_bufs)
    have y: "buf_ok pd (insert b H) (disk s 1) b ?y"
      using inv(4) [OF b(1)] b(2) by (auto simp: buf_ok_def sector_of_def)
    have "cache_ok pd (insert b H) (bufs ?t) (disk s 1)"
      using cache_ok_upd [OF inv(1) b(1) _ _ y] inv(2) b nH by (auto simp: uniq_def)
    then have "binv pd (insert b H) ?t" using binv_bstep [OF assms(1) step] by simp
    moreover have "view ((bufs s)(b := ?y)) (disk s 1) = view (bufs s) (disk s 1)"
      using view_upd_same [OF inv(2) b(1,2), of ?y "disk s 1"] b(2,3) by simp
    then have "bview ?t = bview s" by (simp add: bview_def disk_def)
    moreover have "data (bufs ?t b) = bview s (unat n)"
      using view_cached [OF inv(2) b(1,2), of "disk s 1"] b(3) by (simp add: bview_def sector_of_def)
    moreover have "keeps_held H (bufs s) (bufs ?t)" using nH by (auto simp: keeps_held_def)
    moreover have "dirty (bufs ?t) = dirty (bufs s)" by (auto simp: dirty_def sector_of_def)
    moreover have "bdirty (bufs ?t b) \<longleftrightarrow> unat n \<in> dirty (bufs s)"
    proof -
      have "c = b" if "c < NBUF" "bdirty (bufs s c)" "sector_of (bufs s c) = unat n" for c
        using that inv(2,4) b by (auto simp: uniq_def buf_ok_def sector_of_def word_unat_eq_iff [symmetric])
      then show ?thesis using b by (auto simp: dirty_def sector_of_def)
    qed
    ultimately show thesis using bread_cached [OF assms(1) b(1) nH b(2,3)] b nH step
      by (intro that [of b ?t]) simp_all
  next
    case False
    then have F: "\<forall>b < NBUF. bdev (bufs s b) = 1 \<longrightarrow> blockno (bufs s b) \<noteq> n" by blast
    have nd: "unat n \<notin> dirty (bufs s)"
      using F inv(4) by (auto simp: dirty_def buf_ok_def sector_of_def word_unat_eq_iff [symmetric])
    then obtain c where "c < NBUF" "c \<notin> H" "\<not> bdirty (bufs s c)" using assms(4) by blast
    from bread_uncached [OF assms(1) F assms(2) this] obtain b p y where
      y: "b < NBUF" "b \<notin> H" "\<not> bdirty (bufs s b)"
        "bread 1 n s = Ok b (s\<lparr>ptable := p, bufs := (bufs s)(b := y)\<rparr>)" "woken (ptable s) p"
        "bdev y = 1" "blockno y = n" "blklock y = \<lparr>slocked = True, spid = pd\<rparr>" "refcnt y = 1" "bvalid y" "\<not> bdirty y"
        "bnext y = bnext (bufs s b)" "bprev y = bprev (bufs s b)" "data y = disk s 1 (unat n)" by metis
    let ?t = "s\<lparr>ptable := p, bufs := (bufs s)(b := y)\<rparr>"
    have step: "bstep s ?t" using bstepI [OF y(5), where bf = "(bufs s)(b := y)" and d = "dhist s"] by simp
    have len: "length (disk s 1 (unat n)) = BSIZE" using assms(1,2) by (simp add: binv_def)
    have yok: "buf_ok pd (insert b H) (disk s 1) b y"
      using y len assms(2) by (intro buf_ok_held) (simp_all add: sector_of_def)
    have "cache_ok pd (insert b H) (bufs ?t) (disk s 1)"
      using cache_ok_upd [OF inv(1) y(1,12,13) yok] F y(2,7) by auto
    then have "binv pd (insert b H) ?t" using binv_bstep [OF assms(1) step] by simp
    moreover have "view ((bufs s)(b := y)) (disk s 1) = view (bufs s) (disk s 1)"
      using inv(4) [OF y(1)] y F by (intro view_recycle [OF inv(2) y(1)]) (auto simp: buf_ok_def sector_of_def)
    then have "bview ?t = bview s" by (simp add: bview_def disk_def)
    moreover have "data (bufs ?t b) = bview s (unat n)"
      using view_uncached [of "bufs s" "unat n" "disk s 1"] F y(14)
      by (auto simp: bview_def sector_of_def word_unat_eq_iff [symmetric])
    moreover have "keeps_held H (bufs s) (bufs ?t)" using y(2) by (auto simp: keeps_held_def)
    moreover have "dirty (bufs ?t) = dirty (bufs s)" using y(3,11) by (auto simp: dirty_def)
    ultimately show thesis using y nd step by (intro that [of b ?t]) simp_all
  qed
qed

lemma binv_held:
  assumes "binv pd H s" "b \<in> H"
  shows "b < NBUF" "bdev (bufs s b) = 1" "bvalid (bufs s b)" "blklock (bufs s b) = \<lparr>slocked = True, spid = pd\<rparr>"
    "refcnt (bufs s b) = 1" "length (data (bufs s b)) = BSIZE" "sector_of (bufs s b) < FSSIZE"
    "holdingsleep (blklock (bufs s b)) s = Ok True s" "bview s (sector_of (bufs s b)) = data (bufs s b)"
proof -
  have c: "cache_ok pd H (bufs s) (disk s 1)" "running s pd" using assms(1) by (auto simp: binv_def)
  show 1: "b < NBUF" using c(1) assms(2) by (auto simp: cache_ok_def)
  then have "buf_ok pd H (disk s 1) b (bufs s b)" using c(1) by (simp add: cache_ok_def)
  with assms(2) show 2: "bdev (bufs s b) = 1" "bvalid (bufs s b)" "blklock (bufs s b) = \<lparr>slocked = True, spid = pd\<rparr>"
    "refcnt (bufs s b) = 1" "length (data (bufs s b)) = BSIZE" "sector_of (bufs s b) < FSSIZE"
    by (auto simp: buf_ok_def)
  show "holdingsleep (blklock (bufs s b)) s = Ok True s" using 2(3) c(2) by (simp add: holdingsleep_def running_pid)
  show "bview s (sector_of (bufs s b)) = data (bufs s b)"
    using view_cached [of "bufs s" b "disk s 1"] 1 2(1) c(1) by (simp add: bview_def cache_ok_def)
qed

lemma binv_uniq: "binv pd H s \<Longrightarrow> uniq (bufs s)"
  by (simp add: binv_def cache_ok_def)

text \<open>Changing the data of a held buffer, and marking it dirty, as \<open>log_write\<close> does.\<close>

lemma binv_bupd:
  assumes "binv pd H s" "b \<in> H" "same_buf (bufs s b) (f (bufs s b))" "bvalid (f (bufs s b))"
    "length (data (f (bufs s b))) = BSIZE"
  shows "binv pd H (bupd b f s)" "bstep s (bupd b f s)"
    "bview (bupd b f s) = (bview s)(sector_of (bufs s b) := data (f (bufs s b)))"
proof -
  note h = binv_held [OF assms(1,2)]
  let ?y = "f (bufs s b)"
  show step: "bstep s (bupd b f s)" unfolding bupd_def by (rule bstep_bufs)
  have "buf_ok pd H (disk s 1) b ?y"
    using h assms(2-5) by (intro buf_ok_held) (auto simp: same_buf_def sector_of_def)
  moreover have "cache_ok pd H (bufs s) (disk s 1)" using assms(1) by (simp add: binv_def)
  ultimately have "cache_ok pd H ((bufs s)(b := ?y)) (disk s 1)"
    using h(1,2) assms(3) binv_uniq [OF assms(1)]
    by (intro cache_ok_upd) (auto simp: same_buf_def uniq_def)
  then show "binv pd H (bupd b f s)" using binv_bstep [OF assms(1) step] by (simp add: bupd_def)
  have "view ((bufs s)(b := ?y)) (disk s 1) = (view (bufs s) (disk s 1))(sector_of (bufs s b) := data ?y)"
    using h(1,2) assms(3) by (intro view_upd_data [OF binv_uniq [OF assms(1)]]) (auto simp: same_buf_def)
  then show "bview (bupd b f s) = (bview s)(sector_of (bufs s b) := data ?y)"
    by (simp add: bview_def bupd_def disk_def)
qed

lemma bwrite_ok:
  assumes "binv pd H s" "b \<in> H"
  obtains t where "bwrite b s = Ok () t" "binv pd H t" "bstep s t" "bview t = bview s"
    "dhist t = dhist s @ [(1, sector_of (bufs s b), data (bufs s b))]"
    "content (bufs t b) = content ((bufs s b)\<lparr>bdirty := False\<rparr>)" "\<And>c. c \<noteq> b \<Longrightarrow> content (bufs t c) = content (bufs s c)"
proof -
  note h = binv_held [OF assms]
  let ?u = "bupd b (\<lambda>x. x\<lparr>bdirty := True\<rparr>) s" and ?n = "sector_of (bufs s b)" and ?d = "data (bufs s b)"
  have c: "cache_ok pd H (bufs s) (disk s 1)" using assms(1) by (simp add: binv_def)
  have req: "ide_request b ?u" using assms(1) h
    by (auto simp: ide_request_def binv_def bupd_def sector_of_def)
  obtain t where t: "iderw b ?u = Ok () t" "synced b ?u t" using iderw_synced [OF req] by blast
  then obtain p y where y: "t = s\<lparr>ptable := p, bufs := (bufs s)(b := y), dhist := dhist s @ [(1, ?n, ?d)]\<rparr>"
    "same_buf (bufs s b) y" "bvalid y" "\<not> bdirty y" "data y = ?d" "p = ptable s \<or> p = ptable (wakeup (ChBuf b) ?u)"
    using h(2) by (auto simp: synced_def bupd_def same_buf_def drive_of_def sector_of_def)
  have "woken (ptable s) p" using y(6) woken_wakeup [of ?u "ChBuf b"] by (auto simp: bupd_def)
  then have step: "bstep s t" unfolding y(1) by (rule bstepI)
  have D: "disk t 1 = (disk s 1)(?n := ?d)" by (simp add: y(1) disk_def write_to_def)
  have "cache_ok pd H (bufs t) (disk t 1)" unfolding cache_ok_def
  proof (intro conjI allI impI)
    show "H \<subseteq> {..<NBUF}" using c by (simp add: cache_ok_def)
    show "\<exists>l. lru (bufs t) l"
      using c y(2) lru_links [of "bufs t" "bufs s"] by (auto simp: cache_ok_def y(1) same_buf_def)
    show "uniq (bufs t)" using binv_uniq [OF assms(1)] y(2) unfolding uniq_def y(1) same_buf_def
      by (auto split: if_splits)
    fix x assume x: "x < NBUF"
    show "buf_ok pd H (disk t 1) x (bufs t x)"
    proof (cases "x = b")
      case True
      have "buf_ok pd H (disk t 1) b y"
        using h assms(2) y by (intro buf_ok_held) (auto simp: same_buf_def sector_of_def)
      then show ?thesis using True by (simp add: y(1))
    next
      case False
      have "buf_ok pd H (disk s 1) x (bufs s x)" using c x by (simp add: cache_ok_def)
      moreover have "sector_of (bufs s x) \<noteq> ?n" if "bdev (bufs s x) = 1"
        using binv_uniq [OF assms(1)] x h(1,2) False that by (auto simp: uniq_def sector_inj)
      ultimately show ?thesis using False unfolding D by (auto simp: buf_ok_def y(1))
    qed
  qed
  moreover have "length (disk t 1 m) = BSIZE" if "m < FSSIZE" for m
    using assms(1) h(6) that unfolding D by (simp add: binv_def)
  ultimately have "binv pd H t"
    using assms(1) bstep_running [OF step] bstep_fields [OF step] by (auto simp: binv_def)
  moreover have "bview t = bview s"
  proof
    fix m
    show "bview t m = bview s m"
    proof (cases "m = ?n")
      case True
      have "view (bufs t) (disk t 1) (sector_of (bufs t b)) = data (bufs t b)"
        using h(1,2) y(2) \<open>cache_ok pd H (bufs t) (disk t 1)\<close>
        by (intro view_cached) (auto simp: cache_ok_def y(1) same_buf_def)
      then show ?thesis using True h(9) y(2,5) by (simp add: bview_def y(1) same_buf_def sector_of_def)
    next
      case False
      have "view (bufs t) (disk t 1) m = view (bufs t) (disk s 1) m"
        using False unfolding view_def D by (simp split: option.splits)
      also have "\<dots> = view (bufs s) (disk s 1) m"
        using y(2,5) h(2) by (intro view_cong) (auto simp: y(1) same_buf_def sector_of_def)
      finally show ?thesis by (simp add: bview_def)
    qed
  qed
  moreover have "bwrite b s = Ok () t" using t(1) by (simp add: bwrite_def h(8))
  ultimately show thesis using step y h(3) by (intro that [of t]) (auto simp: content_def same_buf_def)
qed

lemma brelse_ok:
  assumes "binv pd H s" "b \<in> H" "bdirty (bufs s b) \<or> data (bufs s b) = disk s 1 (sector_of (bufs s b))" "lru (bufs s) (l1 @ b # l2)"
  obtains t where "brelse b s = Ok () t" "binv pd (H - {b}) t" "bstep s t" "bview t = bview s" "dhist t = dhist s"
    "\<And>c. c \<noteq> b \<Longrightarrow> content (bufs t c) = content (bufs s c)" "dirty (bufs t) = dirty (bufs s)"
    "bdirty (bufs t b) = bdirty (bufs s b)" "blockno (bufs t b) = blockno (bufs s b)" "bdev (bufs t b) = 1"
    "lru (bufs t) (b # l1 @ l2)"
proof -
  note h = binv_held [OF assms(1,2)]
  have c: "cache_ok pd H (bufs s) (disk s 1)" using assms(1) by (simp add: binv_def)
  let ?y = "(bufs s b)\<lparr>blklock := \<lparr>slocked = False, spid = 0\<rparr>, refcnt := 0\<rparr>"
  let ?bf = "(bufs s)(b := ?y)"
  define bf where "bf = link_front b (unlink_buf b ?bf)"
  define t where "t = s\<lparr>ptable := ptable (wakeup (ChBufLock b) s), bufs := bf\<rparr>"
  have "bufs (wakeup (ChBufLock b) s) = bufs s" by (simp add: wakeup_def wakeup1_def)
  then have rel: "brelse b s = Ok () t"
    using h(5) by (simp add: brelse_def h(8) releasesleep_def bupd_def Let_def t_def bf_def)
      (simp add: wakeup_def wakeup1_def)
  have step: "bstep s t" unfolding t_def by (simp add: bstep_def woken_wakeup)
  have ct: "content (bf x) = content (?bf x)" for x by (simp add: bf_def)
  then have ct': "content (bf x) = content (bufs s x)" if "x \<noteq> b" for x using that by simp
  have l0: "lru ?bf (l1 @ b # l2)" using assms(4) lru_links [of ?bf "bufs s"] by auto
  have lru: "lru bf (b # l1 @ l2)" unfolding bf_def by (rule lru_move_front [OF l0])
  have y: "buf_ok pd (H - {b}) (disk s 1) b ?y" using h assms(3) by (auto simp: buf_ok_def sector_of_def)
  have "cache_ok pd (H - {b}) ?bf (disk s 1)"
    using cache_ok_upd [OF c h(1) _ _ y] h(1,2) binv_uniq [OF assms(1)] by (auto simp: uniq_def)
  then have "cache_ok pd (H - {b}) bf (disk s 1)"
    using lru ct uniq_content [of bf ?bf] buf_ok_content unfolding cache_ok_def by blast
  then have binv: "binv pd (H - {b}) t" using binv_bstep [OF assms(1) step] by (simp add: t_def)
  have "view bf (disk s 1) = view (bufs s) (disk s 1)"
  proof
    fix n
    show "view bf (disk s 1) n = view (bufs s) (disk s 1) n"
      using view_content [of bf ?bf "disk s 1" n] ct view_upd_same [OF binv_uniq [OF assms(1)] h(1,2), of ?y "disk s 1"] h(2)
      by simp
  qed
  then have view: "bview t = bview s" by (simp add: bview_def t_def disk_def)
  have b: "bdirty (bf b) = bdirty (bufs s b)" "blockno (bf b) = blockno (bufs s b)" "bdev (bf b) = 1"
    using ct [of b] h(2) by (simp_all add: content_def)
  have "dirty bf = dirty (bufs s)"
  proof -
    have "bdirty (bf x) = bdirty (bufs s x) \<and> sector_of (bf x) = sector_of (bufs s x)" for x
      using ct [of x] b by (cases "x = b") (auto simp: content_def sector_of_def)
    then show ?thesis by (simp add: dirty_def)
  qed
  with rel binv step view b ct' lru show thesis by (intro that [of t]) (simp_all add: t_def)
qed

text \<open>\<open>binit\<close> starts the cache: over buffers that are zero, as they are in the kernel's bss.\<close>

lemma content_lock: "content x = content y \<Longrightarrow> content (x\<lparr>blklock := k\<rparr>) = content (y\<lparr>blklock := k\<rparr>)"
  by (simp add: content_def)

lemma binit_chain:
  assumes "chain bf (HEAD # l @ [HEAD])" "distinct (l @ bs)" "HEAD \<notin> set (l @ bs)"
  shows "chain (fold binit_buf bs bf) (HEAD # rev bs @ l @ [HEAD]) \<and>
     (\<forall>x. content (fold binit_buf bs bf x) = content (if x \<in> set bs then (bf x)\<lparr>blklock := initsleeplock\<rparr> else bf x))"
  using assms
proof (induction bs arbitrary: l bf)
  case (Cons b bs)
  let ?g = "bf(b := (bf b)\<lparr>blklock := initsleeplock\<rparr>)"
  have "chain ?g (HEAD # l @ [HEAD])" using Cons.prems(1) chain_frame [of "HEAD # l @ [HEAD]" ?g bf] by simp
  then have c: "chain (binit_buf b bf) (HEAD # (b # l) @ [HEAD])"
    using link_front_chain [of ?g HEAD l b] Cons.prems by (simp add: binit_buf_def)
  have d: "distinct ((b # l) @ bs)" "HEAD \<notin> set ((b # l) @ bs)" using Cons.prems by auto
  have g: "content (binit_buf b bf x) = content (?g x)" for x by (simp add: binit_buf_def)
  note ih = Cons.IH [OF c d]
  have "content (fold binit_buf bs (binit_buf b bf) x) =
      content (if x \<in> set (b # bs) then (bf x)\<lparr>blklock := initsleeplock\<rparr> else bf x)" for x
    using ih [THEN conjunct2, rule_format, of x] content_lock [OF g [of x], of initsleeplock] g [of x]
    by (auto split: if_splits)
  then show ?case using ih by simp
qed simp

lemma binit_ok:
  assumes "running s pd" "havedisk1 s" "ide_idle s" "\<not> ide_fault s" "\<forall>n < FSSIZE. length (disk s 1 n) = BSIZE"
    "\<forall>b < NBUF. refcnt (bufs s b) = 0 \<and> bdev (bufs s b) = 0 \<and> \<not> bdirty (bufs s b)"
  shows "binv pd {} (binit s)" "bview (binit s) = disk s 1" "lru (bufs (binit s)) (rev [0..<NBUF])"
    "\<forall>b < NBUF. bdev (bufs (binit s) b) = 0 \<and> \<not> bdirty (bufs (binit s) b)"
proof -
  let ?bf = "(bufs s)(HEAD := (bufs s HEAD)\<lparr>bprev := HEAD, bnext := HEAD\<rparr>)"
  define bf where "bf = bufs (binit s)"
  have c: "chain bf (HEAD # rev [0..<NBUF] @ [HEAD])"
    "\<forall>x. content (bf x) = content (if x \<in> set [0..<NBUF] then (?bf x)\<lparr>blklock := initsleeplock\<rparr> else ?bf x)"
    using binit_chain [of ?bf "[]" "[0..<NBUF]"] by (simp_all add: Let_def bf_def binit_def del: upt_rec_numeral)
  have x: "refcnt (bf b) = 0" "bdev (bf b) = 0" "\<not> bdirty (bf b)" "blklock (bf b) = initsleeplock" if "b < NBUF" for b
    using c(2) [rule_format, of b] assms(6) that by (simp_all add: content_def del: upt_rec_numeral)
  show l: "lru (bufs (binit s)) (rev [0..<NBUF])"
    using c(1) by (auto simp: lru_def bf_def [symmetric] simp del: upt_rec_numeral)
  show "\<forall>b < NBUF. bdev (bufs (binit s) b) = 0 \<and> \<not> bdirty (bufs (binit s) b)" using x by (simp add: bf_def)
  have k: "cache_ok pd {} bf (disk s 1)" unfolding cache_ok_def
    using x l by (auto simp: buf_ok_def uniq_def bf_def [symmetric] initsleeplock_def)
  have e: "binit s = s\<lparr>bufs := bf\<rparr>" by (simp add: bf_def binit_def)
  then show "binv pd {} (binit s)" using assms(1-5) k by (simp add: binv_def disk_def)
  have "view bf (disk s 1) n = disk s 1 n" for n by (rule view_uncached) (simp add: x)
  then have "view bf (disk s 1) = disk s 1" by blast
  then show "bview (binit s) = disk s 1" by (simp add: bview_def e disk_def)
qed

section \<open>Properties\<close>

text \<open>C19: \<open>bread\<close> on a good cache with a buffer to spare returns a buffer that the caller holds
  alone and whose data is the content of the block: the cached one if it is cached, the
  disk's otherwise. The content of no block changes, no block is cached twice, and the disk
  is not written.\<close>

theorem bread_correct:
  assumes "binv pd H s" "unat n < FSSIZE" "\<forall>b \<in> H. blockno (bufs s b) \<noteq> n" "\<exists>c < NBUF. c \<notin> H \<and> \<not> bdirty (bufs s c)"
  shows "\<exists>b t. bread 1 n s = Ok b t \<and> b \<notin> H \<and> binv pd (insert b H) t \<and> data (bufs t b) = bview s (unat n) \<and>
     blockno (bufs t b) = n \<and> bview t = bview s \<and> dhist t = dhist s \<and> keeps_held H (bufs s) (bufs t)"
proof -
  have "unat n \<in> dirty (bufs s) \<or> (\<exists>c < NBUF. c \<notin> H \<and> \<not> bdirty (bufs s c))" using assms(4) by simp
  from bread_ok [OF assms(1-3) this] show ?thesis by metis
qed

text \<open>C20: \<open>brelse\<close> of a held buffer that is clean or logged gives it up, keeps the content of
  every block and writes nothing, and makes the buffer the most recently used one, the
  others keeping their order.\<close>

theorem brelse_correct:
  assumes "binv pd H s" "b \<in> H" "bdirty (bufs s b) \<or> data (bufs s b) = disk s 1 (sector_of (bufs s b))"
    "lru (bufs s) (l1 @ b # l2)"
  shows "\<exists>t. brelse b s = Ok () t \<and> binv pd (H - {b}) t \<and> bview t = bview s \<and> dhist t = dhist s \<and>
     lru (bufs t) (b # l1 @ l2)"
  using brelse_ok [OF assms] by metis

section \<open>Witnesses\<close>

definition ex_bio :: ide_st where
  "ex_bio = binit (ex_ide\<lparr>bufs := \<lambda>_. ex_buf\<lparr>bdev := 0\<rparr>\<rparr>)"

lemma ex_bio_disk: "disk (ex_ide\<lparr>bufs := bf\<rparr>) 1 = (\<lambda>_. replicate BSIZE 9)"
  by (simp add: disk_def ex_ide_def proc_st.defs ide_st.defs)

lemma ex_bio_ok: "binv 2 {} ex_bio" "bview ex_bio = (\<lambda>_. replicate BSIZE 9)" "lru (bufs ex_bio) (rev [0..<NBUF])"
    "\<forall>b < NBUF. bdev (bufs ex_bio b) = 0 \<and> \<not> bdirty (bufs ex_bio b)"
proof -
  let ?s = "ex_ide\<lparr>bufs := \<lambda>_. ex_buf\<lparr>bdev := 0\<rparr>\<rparr>"
  have "running ?s 2" "havedisk1 ?s" "ide_idle ?s" "\<not> ide_fault ?s"
    "\<forall>b < NBUF. refcnt (bufs ?s b) = 0 \<and> bdev (bufs ?s b) = 0 \<and> \<not> bdirty (bufs ?s b)"
    by (simp_all add: ex_ide_def proc_st.defs ide_st.defs ex_buf_def running_def ex_ptable)
  note binit_ok [OF this(1-4) _ this(5), unfolded ex_bio_disk]
  then show "binv 2 {} ex_bio" "bview ex_bio = (\<lambda>_. replicate BSIZE 9)" "lru (bufs ex_bio) (rev [0..<NBUF])"
    "\<forall>b < NBUF. bdev (bufs ex_bio b) = 0 \<and> \<not> bdirty (bufs ex_bio b)"
    by (simp_all add: ex_bio_def del: upt_rec_numeral)
qed

theorem bread_correct_witness:
  "\<exists>b t. bread 1 5 ex_bio = Ok b t \<and> data (bufs t b) = replicate BSIZE 9"
proof -
  have "\<exists>c < NBUF. c \<notin> {} \<and> \<not> bdirty (bufs ex_bio c)" using ex_bio_ok(4) by (intro exI [of _ 0]) simp
  from bread_correct [OF ex_bio_ok(1) _ _ this, of 5] show ?thesis by (auto simp: ex_bio_ok(2))
qed

lemma lru_upd: "lru bf l \<Longrightarrow> bnext y = bnext (bf b) \<Longrightarrow> bprev y = bprev (bf b) \<Longrightarrow> lru (bf(b := y)) l"
  using lru_links [of "bf(b := y)" bf l] by simp

lemma ex_bio_held:
  obtains b t l1 l2 where "bread 1 5 ex_bio = Ok b t" "binv 2 {b} t" "data (bufs t b) = disk t 1 (sector_of (bufs t b))"
    "lru (bufs t) (l1 @ b # l2)"
proof -
  have u: "\<forall>b < NBUF. bdev (bufs ex_bio b) = 1 \<longrightarrow> blockno (bufs ex_bio b) \<noteq> 5" "\<not> bdirty (bufs ex_bio 0)"
    using ex_bio_ok(4) by auto
  obtain b p y where b: "b < NBUF" "bread 1 5 ex_bio = Ok b (ex_bio\<lparr>ptable := p, bufs := (bufs ex_bio)(b := y)\<rparr>)"
    "blockno y = 5" "bnext y = bnext (bufs ex_bio b)" "bprev y = bprev (bufs ex_bio b)" "data y = disk ex_bio 1 5"
  proof (rule bread_uncached [OF ex_bio_ok(1) u(1), of 0])
    show "unat (5 :: uint) < FSSIZE" by simp
  qed (use u(2) in simp_all)
  let ?t = "ex_bio\<lparr>ptable := p, bufs := (bufs ex_bio)(b := y)\<rparr>"
  obtain c t where t: "bread 1 5 ex_bio = Ok c t" "binv 2 (insert c {}) t"
  proof (rule bread_ok [OF ex_bio_ok(1), of 5])
    show "unat 5 \<in> dirty (bufs ex_bio) \<or> (\<exists>c < NBUF. c \<notin> {} \<and> \<not> bdirty (bufs ex_bio c))"
      using u(2) by (intro disjI2 exI [of _ 0]) simp
  qed simp_all
  have "lru (bufs ?t) (rev [0..<NBUF])" using lru_upd [OF ex_bio_ok(3) b(4,5)] by (simp del: upt_rec_numeral)
  moreover have "b \<in> set (rev [0..<NBUF])" using b(1) by (simp del: upt_rec_numeral)
  ultimately obtain l1 l2 where "lru (bufs ?t) (l1 @ b # l2)" by (metis split_list)
  moreover have "c = b \<and> t = ?t" using t(1) unfolding b(2) by blast
  ultimately show thesis using t(2) b by (intro that [of b ?t l1 l2]) (simp_all add: disk_def sector_of_def)
qed

theorem brelse_correct_witness:
  "\<exists>b t u l. bread 1 5 ex_bio = Ok b t \<and> brelse b t = Ok () u \<and> lru (bufs u) (b # l)"
proof -
  obtain b t l1 l2 where t: "bread 1 5 ex_bio = Ok b t" "binv 2 {b} t" "data (bufs t b) = disk t 1 (sector_of (bufs t b))"
    "lru (bufs t) (l1 @ b # l2)" by (rule ex_bio_held)
  with brelse_correct [OF t(2) _ _ t(4)] show ?thesis by auto
qed

end
