(* ===== verification/KString.thy ===== *)
theory KString
  imports PhysMem
begin

text \<open>
  String and memory functions of the kernel, string.c, and of the user library, ulib.c.
  The memory functions work on raw memory. A C string argument of the others is the list of
  its bytes; reading past the end of the list reads the terminating NUL.
\<close>

section \<open>Memory (string.c)\<close>

text \<open>The string instructions \<open>stosb\<close> and \<open>stosl\<close> of x86.h.\<close>

fun stosb :: "nat \<Rightarrow> memory \<Rightarrow> uint \<Rightarrow> uchar \<Rightarrow> memory" where
  "stosb 0 m d c = m"
| "stosb (Suc k) m d c = stosb k (m(d := c)) (d + 1) c"

fun stosl :: "nat \<Rightarrow> memory \<Rightarrow> uint \<Rightarrow> uint \<Rightarrow> memory" where
  "stosl 0 m d w = m"
| "stosl (Suc k) m d w = stosl k (store32 m d w) (d + 4) w"

definition memset :: "memory \<Rightarrow> uint \<Rightarrow> cint \<Rightarrow> uint \<Rightarrow> memory" where
  "memset m dst c n =
     (if dst mod 4 = 0 \<and> n mod 4 = 0
      then let c = c AND 0xFF
           in stosl (unat (n div 4)) m dst (push_bit 24 c OR push_bit 16 c OR push_bit 8 c OR c)
      else stosb (unat n) m dst (ucast c))"

fun memcmp :: "nat \<Rightarrow> memory \<Rightarrow> uint \<Rightarrow> uint \<Rightarrow> int" where
  "memcmp 0 m s1 s2 = 0"
| "memcmp (Suc n) m s1 s2 =
     (if m s1 \<noteq> m s2 then uint (m s1) - uint (m s2) else memcmp n m (s1 + 1) (s2 + 1))"

fun copy_up :: "nat \<Rightarrow> memory \<Rightarrow> uint \<Rightarrow> uint \<Rightarrow> memory" where
  "copy_up 0 m d s = m"
| "copy_up (Suc n) m d s = copy_up n (m(d := m s)) (d + 1) (s + 1)"

fun copy_down :: "nat \<Rightarrow> memory \<Rightarrow> uint \<Rightarrow> uint \<Rightarrow> memory" where
  "copy_down 0 m d s = m"
| "copy_down (Suc n) m d s = copy_down n (m(d - 1 := m (s - 1))) (d - 1) (s - 1)"

definition memmove :: "memory \<Rightarrow> uint \<Rightarrow> uint \<Rightarrow> uint \<Rightarrow> memory" where
  "memmove m dst src n =
     (if src < dst \<and> src + n > dst then copy_down (unat n) m (dst + n) (src + n)
      else copy_up (unat n) m dst src)"

section \<open>Strings (string.c, ulib.c)\<close>

definition chd :: "uchar list \<Rightarrow> uchar" where
  "chd s = (case s of [] \<Rightarrow> 0 | c # _ \<Rightarrow> c)"

fun strncmp :: "uchar list \<Rightarrow> uchar list \<Rightarrow> nat \<Rightarrow> int" where
  "strncmp p q 0 = 0"
| "strncmp p q (Suc n) =
     (if chd p \<noteq> 0 \<and> chd p = chd q then strncmp (tl p) (tl q) n
      else uint (chd p) - uint (chd q))"

text \<open>The bytes that \<open>strncpy\<close> writes to its destination.\<close>

fun strncpy :: "uchar list \<Rightarrow> nat \<Rightarrow> uchar list" where
  "strncpy t 0 = []"
| "strncpy t (Suc n) = chd t # (if chd t \<noteq> 0 then strncpy (tl t) n else replicate n 0)"

text \<open>
  The bytes that \<open>safestrcpy\<close> writes when \<open>n\<close> is positive: when it stops at the end of
  \<open>t\<close> it writes a second NUL after the one it copied.
\<close>

fun safestr_bytes :: "uchar list \<Rightarrow> nat \<Rightarrow> uchar list" where
  "safestr_bytes t 0 = []"
| "safestr_bytes t (Suc 0) = [0]"
| "safestr_bytes t (Suc (Suc n)) = chd t # (if chd t \<noteq> 0 then safestr_bytes (tl t) (Suc n) else [0])"

definition safestrcpy :: "uchar list \<Rightarrow> uchar list \<Rightarrow> nat \<Rightarrow> uchar list" where
  "safestrcpy s t n = (let w = safestr_bytes t n in w @ drop (length w) s)"

fun strlen :: "uchar list \<Rightarrow> nat" where
  "strlen [] = 0"
| "strlen (c # s) = (if c = 0 then 0 else Suc (strlen s))"

text \<open>The string a NUL-terminated buffer holds; \<open>strcpy\<close> copies it with its terminator.\<close>

definition cstr :: "uchar list \<Rightarrow> uchar list" where
  "cstr s = takeWhile (\<lambda>c. c \<noteq> 0) s"

fun strcpy :: "uchar list \<Rightarrow> uchar list" where
  "strcpy [] = [0]"
| "strcpy (c # t) = (if c = 0 then [0] else c # strcpy t)"

function strcmp :: "uchar list \<Rightarrow> uchar list \<Rightarrow> int" where
  "strcmp p q =
     (if chd p \<noteq> 0 \<and> chd p = chd q then strcmp (tl p) (tl q) else uint (chd p) - uint (chd q))"
  by pat_completeness auto
termination
  by (relation "measure (\<lambda>(p, q). length p)") (auto simp: chd_def split: list.splits)

declare strcmp.simps [simp del]

fun strchr :: "uchar list \<Rightarrow> uchar \<Rightarrow> uchar list option" where
  "strchr [] c = None"
| "strchr (x # s) c = (if x = 0 then None else if x = c then Some (x # s) else strchr s c)"

text \<open>\<open>atoi\<close> with its running value; the arithmetic is that of a 32-bit int.\<close>

fun atoi_from :: "cint \<Rightarrow> uchar list \<Rightarrow> cint" where
  "atoi_from n [] = n"
| "atoi_from n (c # s) = (if 48 \<le> c \<and> c \<le> 57 then atoi_from (n * 10 + ucast c - 48) s else n)"

definition atoi :: "uchar list \<Rightarrow> cint" where
  "atoi s = atoi_from 0 s"

text \<open>
  \<open>gets\<close> with the standard input as the list of the bytes that \<open>read\<close> will return; an empty
  list is the end of the file. It returns the line it stored and the input that is left.
\<close>

fun gets :: "nat \<Rightarrow> uchar list \<Rightarrow> uchar list \<times> uchar list" where
  "gets 0 inp = ([0], inp)"
| "gets (Suc 0) inp = ([0], inp)"
| "gets (Suc (Suc k)) inp =
     (case inp of
        [] \<Rightarrow> ([0], [])
      | c # rest \<Rightarrow>
          if c = 10 \<or> c = 13 then ([c, 0], rest)
          else case gets (Suc k) rest of (l, r) \<Rightarrow> (c # l, r))"

section \<open>Number output (printf.c, console.c)\<close>

definition digits :: "uchar list" where
  "digits = [48, 49, 50, 51, 52, 53, 54, 55, 56, 57, 97, 98, 99, 100, 101, 102]"

definition upper_digits :: "uchar list" where
  "upper_digits = [48, 49, 50, 51, 52, 53, 54, 55, 56, 57, 65, 66, 67, 68, 69, 70]"

text \<open>
  The loop that fills \<open>buf\<close> with the digits, last digit first. \<open>None\<close> is a write past the
  end of the 16-byte buffer.
\<close>

fun digit_loop :: "uchar list \<Rightarrow> nat \<Rightarrow> uint \<Rightarrow> uint \<Rightarrow> uchar list option" where
  "digit_loop ds 0 x base = None"
| "digit_loop ds (Suc k) x base =
     (let d = ds ! unat (x mod base)
      in if x div base = 0 then Some [d] else map_option (Cons d) (digit_loop ds k (x div base) base))"

text \<open>What \<open>printint\<close> prints; the minus sign also goes through \<open>buf\<close>.\<close>

definition printint :: "uchar list \<Rightarrow> cint \<Rightarrow> uint \<Rightarrow> bool \<Rightarrow> uchar list option" where
  "printint ds xx base sg =
     (let neg = (sg \<and> xx <s 0);
          x = (if neg then - xx else xx)
      in case digit_loop ds 16 x base of
           None \<Rightarrow> None
         | Some b \<Rightarrow> if neg then (if length b < 16 then Some (45 # rev b) else None) else Some (rev b))"

section \<open>Lemmas: memory\<close>

lemma offset_Suc: "x \<noteq> d \<Longrightarrow> unat (x - d) = Suc (unat (x - d - 1))" for x d :: uint
  using unat_minus_one [of "x - d"] unat_gt_0 [of "x - d"] by simp

lemma stosb_apply: "stosb k m d c x = (if unat (x - d) < k then c else m x)" if "k < 2 ^ 32"
  using that
proof (induction k arbitrary: m d)
  case (Suc k)
  have IH: "stosb k (m(d := c)) (d + 1) c x = (if unat (x - (d + 1)) < k then c else (m(d := c)) x)"
    using Suc by simp
  show ?case
  proof (cases "x = d")
    case False
    from offset_Suc [OF this] IH False show ?thesis by (simp add: diff_diff_eq)
  qed (use IH in simp)
qed simp

lemma stosl_stosb:
  "stosl k m d w = stosb (4 * k) m d c" if "\<And>i. i < 4 \<Longrightarrow> byte_of w i = c"
proof (induction k arbitrary: m d)
  case (Suc k)
  have b: "byte_of w 0 = c" "byte_of w (Suc 0) = c" "byte_of w 2 = c" "byte_of w 3 = c"
    using that [of 0] that [of "Suc 0"] that [of 2] that [of 3] by simp_all
  have "stosl (Suc k) m d w = stosb (4 * k) (store32 m d w) (d + 4) c" using Suc.IH by simp
  also have "store32 m d w = m(d := c, d + 1 := c, d + 2 := c, d + 3 := c)" by (simp add: store32_def b)
  also have "stosb (4 * k) (m(d := c, d + 1 := c, d + 2 := c, d + 3 := c)) (d + 4) c = stosb (Suc (Suc (Suc (Suc (4 * k))))) m d c"
    by (simp add: add.commute)
  also have "Suc (Suc (Suc (Suc (4 * k)))) = 4 * Suc k" by simp
  finally show ?case .
qed simp

lemma byte_of_repeat:
  "i < 4 \<Longrightarrow> byte_of (push_bit 24 (c AND 0xFF) OR push_bit 16 (c AND 0xFF) OR push_bit 8 (c AND 0xFF) OR (c AND 0xFF) :: uint) i = ucast c"
proof -
  have m: "c AND 0xFF = take_bit 8 c" for c :: uint by (simp add: take_bit_eq_mask mask_eq_exp_minus_1)
  assume "i < 4"
  then consider "i = 0" | "i = 1" | "i = 2" | "i = 3" by linarith
  then show ?thesis unfolding m
    by cases (rule bit_word_eqI, auto simp: byte_of_def bit_simps)+
qed

lemma copy_up_apply:
  "(\<And>k. 0 < k \<Longrightarrow> k < n \<Longrightarrow> s + of_nat k \<noteq> d) \<Longrightarrow> n < 2 ^ 32 \<Longrightarrow>
     copy_up n m d s x = (if unat (x - d) < n then m (s + (x - d)) else m x)"
proof (induction n arbitrary: m d s)
  case (Suc n)
  define m1 where "m1 = m(d := m s)"
  have m1: "m1 d = m s" "y \<noteq> d \<Longrightarrow> m1 y = m y" for y by (simp_all add: m1_def)
  have ne: "s + 1 + of_nat k \<noteq> d + 1" if "0 < k" "k < n" for k
    using Suc.prems(1) [of k] that by (simp add: add.commute add.left_commute)
  have IH: "copy_up n m1 (d + 1) (s + 1) x = (if unat (x - (d + 1)) < n then m1 (s + 1 + (x - (d + 1))) else m1 x)"
    by (rule Suc.IH) (use ne Suc.prems(2) in auto)
  have step: "copy_up (Suc n) m d s x = copy_up n m1 (d + 1) (s + 1) x" by (simp add: m1_def)
  show ?case
  proof (cases "x = d")
    case True
    have "unat (- 1 :: uint) = 2 ^ 32 - 1" by (simp add: unsigned_minus_1_eq_mask mask_eq_exp_minus_1)
    with IH step True Suc.prems(2) m1 show ?thesis by simp
  next
    case False
    have "s + (x - d) \<noteq> d" if "unat (x - d) < Suc n"
      using Suc.prems(1) [of "unat (x - d)"] that False by (simp add: unat_gt_0)
    moreover have "s + 1 + (x - (d + 1)) = s + (x - d)" by simp
    moreover have "x - (d + 1) = x - d - 1" by (rule diff_diff_eq [symmetric])
    ultimately show ?thesis unfolding step IH offset_Suc [OF False] Suc_less_eq using m1 False by metis
  qed
qed simp

lemma copy_down_apply:
  "(\<And>k. 0 < k \<Longrightarrow> k < n \<Longrightarrow> s \<noteq> d + of_nat k) \<Longrightarrow> n < 2 ^ 32 \<Longrightarrow>
     copy_down n m (d + of_nat n) (s + of_nat n) x = (if unat (x - d) < n then m (s + (x - d)) else m x)"
proof (induction n arbitrary: m)
  case (Suc n)
  define m1 where "m1 = m(d + of_nat n := m (s + of_nat n))"
  have m1: "m1 (d + of_nat n) = m (s + of_nat n)" "y \<noteq> d + of_nat n \<Longrightarrow> m1 y = m y" for y by (simp_all add: m1_def)
  have IH: "copy_down n m1 (d + of_nat n) (s + of_nat n) x = (if unat (x - d) < n then m1 (s + (x - d)) else m1 x)"
    by (rule Suc.IH) (use Suc.prems in auto)
  have step: "copy_down (Suc n) m (d + of_nat (Suc n)) (s + of_nat (Suc n)) x = copy_down n m1 (d + of_nat n) (s + of_nat n) x"
    by (simp add: m1_def)
  have u: "unat (of_nat n :: uint) = n" using Suc.prems(2) by (simp add: unat_of_nat32)
  have "s + (x - d) \<noteq> d + of_nat n" if "unat (x - d) < n"
  proof
    assume "s + (x - d) = d + of_nat n"
    then have e: "s = d + (of_nat n - (x - d))" by (simp add: algebra_simps)
    have "x - d \<le> of_nat n" using that u by (simp add: word_le_nat_alt)
    then have eq: "of_nat n - (x - d) = of_nat (n - unat (x - d))"
      using that u by (simp add: word_unat_eq_iff unat_sub unat_of_nat32)
    have "s \<noteq> d + of_nat (n - unat (x - d))" by (rule Suc.prems(1)) (use that in auto)
    with e show False unfolding eq by contradiction
  qed
  moreover have "x = d + of_nat n \<longleftrightarrow> unat (x - d) = n"
  proof
    show "x = d + of_nat n" if "unat (x - d) = n"
    proof -
      have "x - d = of_nat n" using that u by (simp add: word_unat_eq_iff)
      then show ?thesis by (simp add: algebra_simps)
    qed
  qed (simp add: u)
  ultimately show ?case unfolding step IH using m1 by (auto simp: less_Suc_eq)
qed simp

section \<open>Properties\<close>

text \<open>C36: \<open>memmove\<close> copies correctly whether or not the two areas overlap and in whichever
  direction: as long as neither area wraps around the end of the address space, the result is
  the memory in which the destination holds the bytes the source held before, and no other
  byte has changed.\<close>

theorem memmove_correct:
  assumes "unat src + unat n < 2 ^ 32" "unat dst + unat n < 2 ^ 32"
  shows "memmove m dst src n = mem_move m dst src n"
proof
  fix x
  have n: "unat n < 2 ^ 32" using assms(1) by simp
  have off: "unat (a + of_nat k) = unat a + k" if "unat a + unat n < 2 ^ 32" "k < unat n" for a :: uint and k
    using that by (simp add: unat_word_ariths unat_of_nat32)
  show "memmove m dst src n x = mem_move m dst src n x"
  proof (cases "src < dst \<and> src + n > dst")
    case True
    have "src \<noteq> dst + of_nat k" if "0 < k" "k < unat n" for k
      using off [OF assms(2) that(2)] True that by (metis word_less_nat_alt not_add_less1 less_not_refl)
    from copy_down_apply [OF this n, of m x] True show ?thesis
      by (simp add: memmove_def mem_move_def word_less_nat_alt)
  next
    case False
    have "src + of_nat k \<noteq> dst" if k: "0 < k" "k < unat n" for k
    proof
      assume e: "src + of_nat k = dst"
      have "unat (src + n) = unat src + unat n" using assms(1) by (simp add: unat_word_ariths)
      with off [OF assms(1) k(2)] e k have "unat src < unat dst" "unat dst < unat (src + n)" by simp_all
      with False show False by (simp add: word_less_nat_alt)
    qed
    from copy_up_apply [OF this n, of m x] False show ?thesis
      by (auto simp: memmove_def mem_move_def word_less_nat_alt)
  qed
qed

theorem memmove_correct_witness:
  "memmove (\<lambda>a. ucast a) 0x1001 0x1000 3 = mem_move (\<lambda>a. ucast a) 0x1001 0x1000 3"
  by (rule memmove_correct) simp_all

text \<open>\<open>memset\<close> stores the low byte of its argument in exactly the \<open>n\<close> bytes from its
  destination on, whichever of its two store instructions it uses.\<close>

lemma memset_correct: "memset m dst c n = mem_set m dst (ucast c) n"
proof
  fix x
  have n: "unat n < 2 ^ 32" using unat32_less [of n] by simp
  show "memset m dst c n x = mem_set m dst (ucast c) n x"
  proof (cases "dst mod 4 = 0 \<and> n mod 4 = 0")
    case True
    have "unat n mod 4 = unat (n mod 4)" by (simp add: unat_mod_distrib)
    with True have "unat n mod 4 = 0" by simp
    then have "4 * unat (n div 4) = unat n" using mult_div_mod_eq [of 4 "unat n"] by (simp add: unat_div_distrib)
    moreover have "memset m dst c n = stosb (4 * unat (n div 4)) m dst (ucast c)"
      unfolding memset_def Let_def if_P [OF True] by (rule stosl_stosb) (rule byte_of_repeat)
    ultimately show ?thesis using stosb_apply [OF n, of m dst "ucast c" x]
      by (simp add: mem_set_def word_less_nat_alt)
  next
    case False
    then show ?thesis using stosb_apply [OF n, of m dst "ucast c" x]
      by (auto simp: memset_def mem_set_def word_less_nat_alt)
  qed
qed

lemma strncmp_0_iff:
  "strncmp p q n = 0 \<longleftrightarrow> cstr (take n p) = cstr (take n q)"
proof (induction p q n rule: strncmp.induct)
  case (2 p q n)
  have z: "uint a = uint b \<longleftrightarrow> a = b" for a b :: uchar by (simp add: word_uint_eq_iff)
  from 2 z [of _ 0] z show ?case by (cases p; cases q) (auto simp: chd_def cstr_def)
qed simp

lemma length_strncpy [simp]: "length (strncpy t n) = n"
  by (induction t n rule: strncpy.induct) auto

lemma strncpy_cstr: "0 \<notin> set t \<Longrightarrow> strncpy t n = take n t @ replicate (n - length t) 0"
proof (induction t n rule: strncpy.induct)
  case (2 t n)
  then show ?case by (cases t) (auto simp: chd_def)
qed simp

lemma safestr_bytes_length: "length (safestr_bytes t n) \<le> n"
proof (induction t n rule: safestr_bytes.induct)
  case (3 t n)
  then show ?case by (cases t) (auto simp: chd_def)
qed auto

lemma safestr_bytes_prefix: "0 \<notin> set t \<Longrightarrow> 0 < n \<Longrightarrow> cstr (safestr_bytes t n) = take (n - 1) t \<and> 0 \<in> set (safestr_bytes t n)"
proof (induction t n rule: safestr_bytes.induct)
  case (3 t n)
  then show ?case by (cases t) (auto simp: chd_def cstr_def)
qed (auto simp: cstr_def)

text \<open>\<open>safestrcpy\<close> never writes past the \<open>n\<close> bytes of its destination, and what it leaves there
  is NUL-terminated and reads as the first \<open>n - 1\<close> characters of its source.\<close>

lemma safestrcpy_correct:
  assumes "length s = n" "0 < n" "0 \<notin> set t"
  shows "length (safestrcpy s t n) = n \<and> 0 \<in> set (safestrcpy s t n) \<and> cstr (safestrcpy s t n) = take (n - 1) t"
proof -
  have w: "cstr (safestr_bytes t n) = take (n - 1) t" "0 \<in> set (safestr_bytes t n)" "length (safestr_bytes t n) \<le> n"
    using safestr_bytes_prefix [OF assms(3,2)] safestr_bytes_length by auto
  then have "cstr (safestr_bytes t n @ ys) = take (n - 1) t" for ys
    unfolding cstr_def by (metis (mono_tags, lifting) takeWhile_append1)
  with w assms(1) show ?thesis by (simp add: safestrcpy_def Let_def)
qed

section \<open>Numbers\<close>

lemma digits_value: "i < 10 \<Longrightarrow> digits ! i = 48 + of_nat i \<and> upper_digits ! i = 48 + of_nat i"
proof -
  assume "i < 10"
  then have "i \<in> {0,1,2,3,4,5,6,7,8,9}" by auto
  then show ?thesis by (auto simp: digits_def upper_digits_def)
qed

text \<open>Reading back the decimal digits of a number gives the number.\<close>

fun dec_value :: "uchar list \<Rightarrow> nat" where
  "dec_value [] = 0"
| "dec_value (c # s) = (unat c - 48) + 10 * dec_value s"

lemma digit_loop_10:
  assumes "ds = digits \<or> ds = upper_digits"
  shows "unat x < 10 ^ k \<Longrightarrow> 0 < k \<Longrightarrow>
     \<exists>b. digit_loop ds k x 10 = Some b \<and> length b \<le> k \<and> b \<noteq> [] \<and> (\<forall>c \<in> set b. 48 \<le> c \<and> c \<le> 57) \<and> dec_value b = unat x"
proof (induction k arbitrary: x)
  case (Suc k)
  have m: "unat (x mod 10) = unat x mod 10" "unat (x div 10) = unat x div 10"
    by (simp_all add: unat_mod_distrib unat_div_distrib)
  define d where "d = ds ! unat (x mod 10)"
  have d: "d = 48 + of_nat (unat x mod 10)"
    using assms digits_value [of "unat x mod 10"] by (auto simp: d_def m)
  have u: "unat (of_nat (unat x mod 10) :: uchar) = unat x mod 10" by (simp add: unat_of_nat)
  then have dv: "unat d = 48 + unat x mod 10" "48 \<le> d" "d \<le> 57"
    by (simp_all add: d unat_word_ariths word_le_nat_alt)
  show ?case
  proof (cases "x div 10 = 0")
    case True
    then have "unat x div 10 = 0" using m(2) by simp
    then have "unat x < 10" by auto
    then show ?thesis using True dv by (simp add: d_def [symmetric])
  next
    case False
    then have "unat x div 10 \<noteq> 0" using m(2) by (metis unat_eq_zero)
    then have "10 \<le> unat x" by (metis div_less not_le)
    then have k: "0 < k" using Suc.prems(1) by (cases k) auto
    moreover have "unat (x div 10) < 10 ^ k" using Suc.prems(1) m(2) by (simp add: less_mult_imp_div_less)
    ultimately obtain b where b: "digit_loop ds k (x div 10) 10 = Some b" "length b \<le> k" "\<forall>c \<in> set b. 48 \<le> c \<and> c \<le> 57"
      "dec_value b = unat x div 10" using Suc.IH [of "x div 10"] m(2) by auto
    then show ?thesis using False dv by (simp add: d_def [symmetric])
  qed
qed simp

lemma atoi_from_append: "(\<forall>c \<in> set a. 48 \<le> c \<and> c \<le> 57) \<Longrightarrow> atoi_from n (a @ s) = atoi_from (atoi_from n a) s"
  by (induction a arbitrary: n) auto

lemma atoi_rev:
  "(\<forall>c \<in> set b. 48 \<le> c \<and> c \<le> 57) \<Longrightarrow> atoi_from 0 (rev b) = of_nat (dec_value b)"
proof (induction b)
  case (Cons c b)
  then have IH: "atoi_from 0 (rev b) = of_nat (dec_value b)" by simp
  have "48 \<le> unat c" using Cons.prems by (simp add: word_le_nat_alt)
  then have "(ucast c :: cint) - 48 = of_nat (unat c - 48)" by (simp add: of_nat_diff)
  then have "of_nat (dec_value b) * 10 + ucast c - 48 = (of_nat (dec_value (c # b)) :: cint)"
    by (simp add: algebra_simps)
  with IH Cons.prems show ?case by (simp add: atoi_from_append)
qed simp

text \<open>C37: Printing a number in decimal never overruns the digit buffer, and reading it back with
  \<open>atoi\<close> gives the number: unsigned for every 32-bit value, signed for every non-negative one,
  and a negative one prints as a minus sign followed by the digits of its absolute value, also
  for the least integer, whose absolute value no int can hold.\<close>

theorem printint_atoi:
  assumes "ds = digits \<or> ds = upper_digits"
  shows "\<exists>t. printint ds x 10 sg = Some t \<and> length t \<le> 16 \<and>
     (if sg \<and> x <s 0 then hd t = 45 \<and> atoi (tl t) = - x else atoi t = x)"
proof -
  let ?y = "if sg \<and> x <s 0 then - x else x"
  have "unat ?y < 10 ^ 10" using unat32_less [of ?y] by simp
  then obtain b where b: "digit_loop ds 10 ?y 10 = Some b" "length b \<le> 10" "\<forall>c \<in> set b. 48 \<le> c \<and> c \<le> 57"
    "dec_value b = unat ?y" using digit_loop_10 [OF assms, of ?y 10] by auto
  have mono: "digit_loop ds k z 10 = Some c \<Longrightarrow> digit_loop ds (k + j) z 10 = Some c" for k j z c
    by (induction k arbitrary: z c) (auto simp: Let_def split: if_splits)
  have "digit_loop ds 16 ?y 10 = Some b" using mono [OF b(1), of 6] by simp
  moreover have "atoi (rev b) = ?y" using atoi_rev [OF b(3)] b(4) by (simp add: atoi_def)
  ultimately show ?thesis using b(2) by (auto simp: printint_def Let_def)
qed

theorem printint_atoi_witness:
  "\<exists>t. printint digits 0x80000000 10 True = Some t \<and> hd t = 45 \<and> atoi (tl t) = 0x80000000"
  using printint_atoi [of digits "0x80000000" True] by (auto simp: word_sless_alt)

end
