(* ===== verification/Format.thy ===== *)
theory Format
  imports KString
begin

text \<open>
  Formatted output: the loop of the kernel's \<open>cprintf\<close> (console.c) and the state machine of
  the user library's \<open>printf\<close> (printf.c), each as the list of bytes it prints, and a proof
  that both implement one reference, up to the digits they use for hexadecimal numbers: those
  of \<open>printf\<close> are upper case, those of \<open>cprintf\<close> lower case.
\<close>

section \<open>Arguments\<close>

text \<open>
  An argument word is a number or a pointer to a string, \<open>None\<close> being the null pointer. A
  conversion without its argument, or with one of the other kind, reads memory that the
  call did not pass; the result \<open>None\<close> of the functions below stands for that.
\<close>

datatype carg = AInt uint | AStr "uchar list option"

definition bytes :: "string \<Rightarrow> uchar list" where
  "bytes cs = map (\<lambda>c. of_nat (of_char c)) cs"

definition fmt_str :: "uchar list option \<Rightarrow> uchar list" where
  "fmt_str p = (case p of None \<Rightarrow> bytes ''(null)'' | Some s \<Rightarrow> cstr s)"

definition arg_int :: "uchar list \<Rightarrow> uint \<Rightarrow> bool \<Rightarrow> carg list \<Rightarrow> (uchar list \<times> carg list) option" where
  "arg_int ds base sg args =
     (case args of AInt x # rest \<Rightarrow> map_option (\<lambda>w. (w, rest)) (printint ds x base sg) | _ \<Rightarrow> None)"

definition arg_str :: "carg list \<Rightarrow> (uchar list \<times> carg list) option" where
  "arg_str args = (case args of AStr p # rest \<Rightarrow> Some (fmt_str p, rest) | _ \<Rightarrow> None)"

definition arg_chr :: "carg list \<Rightarrow> (uchar list \<times> carg list) option" where
  "arg_chr args = (case args of AInt x # rest \<Rightarrow> Some ([ucast x], rest) | _ \<Rightarrow> None)"

section \<open>The kernel's cprintf\<close>

text \<open>The \<open>switch\<close>: what one conversion prints, and the arguments that are left.\<close>

definition cconv :: "uchar \<Rightarrow> carg list \<Rightarrow> (uchar list \<times> carg list) option" where
  "cconv c args =
     (if c = 100 then arg_int digits 10 True args
      else if c = 120 \<or> c = 112 then arg_int digits 16 False args
      else if c = 115 then arg_str args
      else if c = 37 then Some ([37], args)
      else Some ([37, c], args))"

fun cfmt :: "uchar list \<Rightarrow> carg list \<Rightarrow> uchar list option" where
  "cfmt [] args = Some []"
| "cfmt (c # f) args =
     (if c = 0 then Some []
      else if c \<noteq> 37 then map_option (Cons c) (cfmt f args)
      else (case f of
              [] \<Rightarrow> Some []
            | d # g \<Rightarrow>
                if d = 0 then Some []
                else (case cconv d args of
                        None \<Rightarrow> None
                      | Some (out, rest) \<Rightarrow> map_option (\<lambda>w. out @ w) (cfmt g rest))))"

section \<open>The user library's printf\<close>

definition pconv :: "uchar \<Rightarrow> carg list \<Rightarrow> (uchar list \<times> carg list) option" where
  "pconv c args =
     (if c = 100 then arg_int upper_digits 10 True args
      else if c = 120 \<or> c = 112 then arg_int upper_digits 16 False args
      else if c = 115 then arg_str args
      else if c = 99 then arg_chr args
      else if c = 37 then Some ([c], args)
      else Some ([37, c], args))"

text \<open>The loop with its variable \<open>state\<close>, which is 0 or the character \<open>%\<close>.\<close>

fun printf_loop :: "uchar \<Rightarrow> uchar list \<Rightarrow> carg list \<Rightarrow> uchar list option" where
  "printf_loop st [] args = Some []"
| "printf_loop st (c # f) args =
     (if c = 0 then Some []
      else if st = 0 then
        (if c = 37 then printf_loop 37 f args else map_option (Cons c) (printf_loop 0 f args))
      else if st = 37 then
        (case pconv c args of
           None \<Rightarrow> None
         | Some (out, rest) \<Rightarrow> map_option (\<lambda>w. out @ w) (printf_loop 0 f rest))
      else printf_loop st f args)"

definition printf :: "uchar list \<Rightarrow> carg list \<Rightarrow> uchar list option" where
  "printf f args = printf_loop 0 f args"

section \<open>Reference\<close>

text \<open>The digits of a number in base 16, most significant first.\<close>

fun hex_digits :: "uchar list \<Rightarrow> nat \<Rightarrow> uchar list" where
  "hex_digits ds n = (if n < 16 then [ds ! n] else hex_digits ds (n div 16) @ [ds ! (n mod 16)])"

declare hex_digits.simps [simp del]

text \<open>What a format asks for: text, and numbers to be printed in hexadecimal.\<close>

datatype piece = Lit "uchar list" | Hex uint

definition conv_piece :: "uchar \<Rightarrow> carg list \<Rightarrow> (piece \<times> carg list) option" where
  "conv_piece c args =
     (if c = 100 then map_option (apfst Lit) (arg_int digits 10 True args)
      else if c \<in> {120, 112} then (case args of AInt x # rest \<Rightarrow> Some (Hex x, rest) | _ \<Rightarrow> None)
      else if c = 115 then map_option (apfst Lit) (arg_str args)
      else Some (Lit (if c = 37 then [37] else [37, c]), args))"

fun pieces :: "uchar list \<Rightarrow> carg list \<Rightarrow> piece list option" where
  "pieces [] args = Some []"
| "pieces [c] args = Some (if c \<in> {0, 37} then [] else [Lit [c]])"
| "pieces (c # d # g) args =
     (if c = 0 then Some []
      else if c \<noteq> 37 then map_option (Cons (Lit [c])) (pieces (d # g) args)
      else if d = 0 then Some []
      else (case conv_piece d args of None \<Rightarrow> None | Some (x, rest) \<Rightarrow> map_option (Cons x) (pieces g rest)))"

primrec piece_text :: "uchar list \<Rightarrow> piece \<Rightarrow> uchar list" where
  "piece_text ds (Lit w) = w"
| "piece_text ds (Hex x) = hex_digits ds (unat x)"

definition render :: "uchar list \<Rightarrow> piece list \<Rightarrow> uchar list" where
  "render ds ps = concat (map (piece_text ds) ps)"

text \<open>Formats without \<open>%c\<close>, which only \<open>printf\<close> has; and formats without a hexadecimal conversion.\<close>

fun uses_conv :: "uchar set \<Rightarrow> uchar list \<Rightarrow> bool" where
  "uses_conv C (c # d # g) = (if c = 37 then d \<in> C \<or> uses_conv C g else uses_conv C (d # g))"
| "uses_conv C f = False"

section \<open>Agreement\<close>

lemma digit_loop_case: "digit_loop upper_digits k x 10 = digit_loop digits k x 10"
proof (induction k arbitrary: x)
  case (Suc k)
  have "x mod 10 < 10" by (simp add: word_mod_less_divisor)
  then have "unat (x mod 10) < 10" by (simp add: word_less_nat_alt)
  then have "upper_digits ! unat (x mod 10) = digits ! unat (x mod 10)"
    by (auto simp: upper_digits_def digits_def nth_Cons split: nat.splits)
  with Suc show ?case by (simp add: Let_def)
qed simp

lemma arg_int_10: "arg_int upper_digits 10 True args = arg_int digits 10 True args"
  by (simp add: arg_int_def printint_def digit_loop_case split: list.splits carg.splits)

text \<open>The digit loop in base 16 fits in \<open>buf\<close> and leaves the digits last digit first.\<close>

lemma digit_loop_16: "unat x < 16 ^ k \<Longrightarrow> 0 < k \<Longrightarrow> digit_loop ds k x 16 = Some (rev (hex_digits ds (unat x)))"
proof (induction k arbitrary: x)
  case (Suc k)
  have d: "unat (x div 16) = unat x div 16" "unat (x mod 16) = unat x mod 16" by (simp_all add: unat_div unat_mod)
  have z: "x div 16 = 0 \<longleftrightarrow> unat x < 16" using d(1) by (metis unat_eq_0 div_eq_0_iff zero_neq_numeral)
  show ?case
  proof (cases "unat x < 16")
    case True
    then show ?thesis by (simp add: z d Let_def hex_digits.simps [of ds "unat x"])
  next
    case False
    then have "0 < k" "unat (x div 16) < 16 ^ k" using Suc.prems(1) by (cases k; simp add: d less_mult_imp_div_less)+
    then show ?thesis using Suc.IH [of "x div 16"] False by (simp add: z d Let_def hex_digits.simps [of ds "unat x"])
  qed
qed simp

lemma printint_16: "printint ds x 16 False = Some (hex_digits ds (unat x))"
proof -
  have "unat x < 16 ^ 16" using unat32_less [of x] by simp
  then show ?thesis using digit_loop_16 [of x 16 ds] by (simp add: printint_def)
qed

lemma cconv_piece: "cconv c args = map_option (apfst (piece_text digits)) (conv_piece c args)"
  by (auto simp: cconv_def conv_piece_def arg_int_def arg_str_def printint_16 option.map_comp comp_def
      split: list.splits carg.splits)

lemma pconv_piece: "c \<noteq> 99 \<Longrightarrow> pconv c args = map_option (apfst (piece_text upper_digits)) (conv_piece c args)"
  unfolding pconv_def conv_piece_def arg_int_10
  by (auto simp: arg_int_def arg_str_def printint_16 option.map_comp comp_def split: list.splits carg.splits)

lemma render_piece:
  "map_option (render ds) (map_option ((#) x) p) = map_option ((@) (piece_text ds x)) (map_option (render ds) p)"
  by (cases p) (simp_all add: render_def)

lemma render_Nil [simp]: "render ds [] = []"
  by (simp add: render_def)

lemma append_one: "(@) [c] = (#) c"
  by (simp add: fun_eq_iff)

text \<open>The three functions step by step: the end of the string, a character, a conversion.\<close>

lemma pieces_steps:
  "pieces (0 # f) args = Some []" "pieces [37] args = Some []" "pieces (37 # 0 # g) args = Some []"
  "c \<noteq> 0 \<Longrightarrow> c \<noteq> 37 \<Longrightarrow> pieces (c # f) args = map_option ((#) (Lit [c])) (pieces f args)"
  "d \<noteq> 0 \<Longrightarrow> pieces (37 # d # g) args =
     (case conv_piece d args of None \<Rightarrow> None | Some (x, rest) \<Rightarrow> map_option ((#) x) (pieces g rest))"
  by (cases f; simp)+

lemma cfmt_steps:
  "cfmt (0 # f) args = Some []" "cfmt [37] args = Some []" "cfmt (37 # 0 # g) args = Some []"
  "c \<noteq> 0 \<Longrightarrow> c \<noteq> 37 \<Longrightarrow> cfmt (c # f) args = map_option ((#) c) (cfmt f args)"
  "d \<noteq> 0 \<Longrightarrow> cfmt (37 # d # g) args =
     (case cconv d args of None \<Rightarrow> None | Some (out, rest) \<Rightarrow> map_option ((@) out) (cfmt g rest))"
  by simp_all

lemma printf_loop_steps:
  "printf_loop 0 (0 # f) args = Some []" "printf_loop 0 [37] args = Some []" "printf_loop 0 (37 # 0 # g) args = Some []"
  "c \<noteq> 0 \<Longrightarrow> c \<noteq> 37 \<Longrightarrow> printf_loop 0 (c # f) args = map_option ((#) c) (printf_loop 0 f args)"
  "d \<noteq> 0 \<Longrightarrow> printf_loop 0 (37 # d # g) args =
     (case pconv d args of None \<Rightarrow> None | Some (out, rest) \<Rightarrow> map_option ((@) out) (printf_loop 0 g rest))"
  by simp_all

lemma uses_conv_steps:
  "c \<noteq> 37 \<Longrightarrow> uses_conv C (c # f) = uses_conv C f" "uses_conv C (37 # d # g) \<longleftrightarrow> d \<in> C \<or> uses_conv C g"
  by (cases f) simp_all

lemma format_induct [case_names empty nul last percent char conv]:
  assumes "\<And>args. P [] args" "\<And>f args. P (0 # f) args" "\<And>args. P [37] args" "\<And>g args. P (37 # 0 # g) args"
    "\<And>c f args. c \<noteq> 0 \<Longrightarrow> c \<noteq> 37 \<Longrightarrow> P f args \<Longrightarrow> P (c # f) args"
    "\<And>d g args. d \<noteq> 0 \<Longrightarrow> (\<And>args. P g args) \<Longrightarrow> P (37 # d # g) args"
  shows "P f args"
proof (induction "length f" arbitrary: f args rule: less_induct)
  case less
  show ?case
  proof (cases f)
    case (Cons c g)
    show ?thesis
    proof (cases "c = 37 \<and> g \<noteq> []")
      case True
      then obtain d h where g: "g = d # h" by (cases g) auto
      have "P h args" for args using less Cons g by simp
      then show ?thesis using assms(4) [of h] assms(6) [of d h] True Cons g by (cases "d = 0") auto
    next
      case False
      then show ?thesis using less [of g] Cons assms(2,3,5) by (cases "c = 0"; cases "c = 37") auto
    qed
  qed (use assms(1) in simp)
qed

lemma cfmt_pieces: "cfmt f args = map_option (render digits) (pieces f args)"
proof (induction f args rule: format_induct)
  case (char c f args)
  show ?case unfolding cfmt_steps(4) [OF char(1,2)] pieces_steps(4) [OF char(1,2)] render_piece piece_text.simps append_one char(3) ..
next
  case (conv d g args)
  show ?case unfolding cfmt_steps(5) [OF conv(1)] pieces_steps(5) [OF conv(1)] cconv_piece
    by (auto simp: conv(2) render_piece split: option.splits)
qed (simp_all only: cfmt_steps pieces_steps cfmt.simps(1) pieces.simps(1) option.map render_Nil)

lemma printf_loop_pieces:
  "\<not> uses_conv {99} f \<Longrightarrow> printf_loop 0 f args = map_option (render upper_digits) (pieces f args)"
proof (induction f args rule: format_induct)
  case (char c f args)
  have f: "\<not> uses_conv {99} f" using char(4) unfolding uses_conv_steps(1) [OF char(2)] .
  show ?case unfolding printf_loop_steps(4) [OF char(1,2)] pieces_steps(4) [OF char(1,2)] render_piece piece_text.simps append_one char(3) [OF f] ..
next
  case (conv d g args)
  then have d: "d \<noteq> 99" and g: "\<not> uses_conv {99} g" unfolding uses_conv_steps by auto
  show ?case unfolding printf_loop_steps(5) [OF conv(1)] pieces_steps(5) [OF conv(1)] pconv_piece [OF d]
    by (auto simp: conv(2) [OF g] render_piece split: option.splits)
qed (simp_all only: printf_loop_steps pieces_steps printf_loop.simps(1) pieces.simps(1) option.map render_Nil)

lemma conv_piece_Lit: "d \<notin> {120, 112} \<Longrightarrow> conv_piece d args = Some (x, rest) \<Longrightarrow> \<exists>w. x = Lit w"
  by (auto simp: conv_piece_def split: if_splits)

lemma pieces_no_hex:
  "\<not> uses_conv {120, 112} f \<Longrightarrow> map_option (render ds) (pieces f args) = map_option (render es) (pieces f args)"
proof (induction f args rule: format_induct)
  case (char c f args)
  have f: "\<not> uses_conv {120, 112} f" using char(4) unfolding uses_conv_steps(1) [OF char(2)] .
  show ?case unfolding pieces_steps(4) [OF char(1,2)] render_piece piece_text.simps char(3) [OF f] ..
next
  case (conv d g args)
  then have d: "d \<notin> {120, 112}" and g: "\<not> uses_conv {120, 112} g" unfolding uses_conv_steps by auto
  show ?case unfolding pieces_steps(5) [OF conv(1)]
    using conv(2) [OF g] conv_piece_Lit [OF d, of args] by (auto simp: render_piece split: option.splits)
qed (simp_all only: pieces_steps pieces.simps(1) option.map render_Nil)

text \<open>C38: The user library's \<open>printf\<close>, a state machine, and the kernel's \<open>cprintf\<close>, a loop with
  look-ahead, implement one reference on every format without \<open>%c\<close>, for all of \<open>%d\<close>, \<open>%x\<close>, \<open>%p\<close>, \<open>%s\<close>,
  \<open>%%\<close>, unknown conversions and a percent sign at the end. They differ in one thing: the digits
  of a hexadecimal number, which are the number's digits in base 16, are upper case in
  \<open>printf\<close> and lower case in \<open>cprintf\<close>. Without \<open>%x\<close> and \<open>%p\<close> they print the same bytes.\<close>

theorem printf_cprintf_equiv:
  assumes "\<not> uses_conv {99} f"
  shows "printf f args = map_option (render upper_digits) (pieces f args) \<and>
    cfmt f args = map_option (render digits) (pieces f args) \<and>
    (\<not> uses_conv {120, 112} f \<longrightarrow> printf f args = cfmt f args)"
  using printf_loop_pieces [OF assms, of args] cfmt_pieces [of f args] pieces_no_hex [of f upper_digits args digits]
  by (simp add: printf_def)

theorem printf_cprintf_equiv_witness:
  "printf (bytes ''%d %x%%%s%'') [AInt (- 12), AInt 0xBEEF, AStr None] = Some (bytes ''-12 BEEF%(null)'') \<and>
   cfmt (bytes ''%d %x%%%s%'') [AInt (- 12), AInt 0xBEEF, AStr None] = Some (bytes ''-12 beef%(null)'') \<and>
   printf (bytes ''%d %s%%%'') [AInt (- 12), AStr None] = Some (bytes ''-12 (null)%'')"
proof -
  have p: "pieces (bytes ''%d %x%%%s%'') [AInt (- 12), AInt 0xBEEF, AStr None] =
      Some [Lit (bytes ''-12''), Lit [32], Hex 0xBEEF, Lit [37], Lit (bytes ''(null)'')]" by code_simp
  have h: "hex_digits ds 0xBEEF = [ds ! 11, ds ! 14, ds ! 14, ds ! 15]" for ds
    by (simp add: hex_digits.simps [of ds "0xBEEF"] hex_digits.simps [of ds "0xBEE"] hex_digits.simps [of ds "0xBE"] hex_digits.simps [of ds "0xB"])
  have r: "render upper_digits [Lit (bytes ''-12''), Lit [32], Hex 0xBEEF, Lit [37], Lit (bytes ''(null)'')] = bytes ''-12 BEEF%(null)''"
    "render digits [Lit (bytes ''-12''), Lit [32], Hex 0xBEEF, Lit [37], Lit (bytes ''(null)'')] = bytes ''-12 beef%(null)''"
    by (simp_all add: render_def h upper_digits_def digits_def bytes_def)
  have c: "cfmt (bytes ''%d %s%%%'') [AInt (- 12), AStr None] = Some (bytes ''-12 (null)%'')" by code_simp
  have u: "\<not> uses_conv {99} (bytes ''%d %x%%%s%'')" "\<not> uses_conv {99} (bytes ''%d %s%%%'')" "\<not> uses_conv {120, 112} (bytes ''%d %s%%%'')"
    by (simp_all add: bytes_def)
  from printf_cprintf_equiv [OF u(1), of "[AInt (- 12), AInt 0xBEEF, AStr None]"]
    printf_cprintf_equiv [OF u(2), of "[AInt (- 12), AStr None]"] u(3)
  show ?thesis unfolding p option.map r c by blast
qed

end
