(* ===== verification/Ring.thy ===== *)
theory Ring
  imports Prelude
begin

text \<open>
  Circular buffers indexed by free-running 32-bit counters, as the console's input buffer
  (console.c) and pipes (pipe.c) are: the cell of counter \<open>i\<close> is \<open>i % N\<close>, and the counters
  wrap around at the word size. The locale holds what makes this sound, that the buffer
  size divides the range of the counters.
\<close>

definition ring_seq :: "uint \<Rightarrow> 'a list \<Rightarrow> uint \<Rightarrow> nat \<Rightarrow> 'a list" where
  "ring_seq N buf r n = map (\<lambda>i. buf ! unat ((r + of_nat i) mod N)) [0..<n]"

lemma length_ring_seq [simp]: "length (ring_seq N buf r n) = n"
  by (simp add: ring_seq_def)

lemma ring_seq_0 [simp]: "ring_seq N buf r 0 = []"
  by (simp add: ring_seq_def)

lemma ring_seq_pop: "ring_seq N buf r (Suc n) = buf ! unat (r mod N) # ring_seq N buf (r + 1) n"
  by (simp add: ring_seq_def upt_conv_Cons map_Suc_upt [symmetric] add.assoc del: upt_Suc)

lemma ring_seq_snoc: "ring_seq N buf r (Suc n) = ring_seq N buf r n @ [buf ! unat ((r + of_nat n) mod N)]"
  by (simp add: ring_seq_def)

lemma ring_seq_append: "ring_seq N buf r (m + n) = ring_seq N buf r m @ ring_seq N buf (r + of_nat m) n"
  by (induction n) (simp_all add: ring_seq_snoc add.assoc)

text \<open>The distance between two counters, when one is advanced.\<close>

lemma unat_diff_Suc: "unat (e - r) < 4294967295 \<Longrightarrow> unat (e + 1 - r) = Suc (unat (e - r))" for e r :: uint
proof -
  assume "unat (e - r) < 4294967295"
  moreover have "e + 1 - r = (e - r) + 1" by simp
  ultimately show ?thesis by (simp only: unat_word_ariths) simp
qed

lemma unat_diff_pred: "e \<noteq> r \<Longrightarrow> unat (e - r) = Suc (unat (e - 1 - r))" for e r :: uint
proof -
  assume "e \<noteq> r"
  then have h: "e - r \<noteq> 0" by simp
  then have "unat (e - r - 1) = unat (e - r) - 1" by (rule unat_minus_one)
  moreover have eq: "e - 1 - r = e - r - 1" by simp
  moreover have "0 < unat (e - r)" using h by (simp only: unat_gt_0) simp
  ultimately show ?thesis unfolding eq by linarith
qed

lemma unat_diff_0 [simp]: "unat (e - r) = 0 \<longleftrightarrow> e = r" for e r :: uint
  by (simp add: unat_eq_zero)

locale circular =
  fixes N :: uint
  assumes divides: "unat N dvd 4294967296"
begin

lemma N_pos: "0 < unat N"
  using divides by (metis dvd_0_left_iff gr0I zero_neq_numeral)

lemma cell: "unat ((r + of_nat i) mod N) = (unat r + i) mod unat N"
  using divides by (simp add: unat_mod unat_word_ariths unat_of_nat mod_mod_cancel mod_simps)

lemma cell_bound: "unat (i mod N) < unat N"
  using N_pos by (simp add: unat_mod)

lemma cell_distinct: "i < n \<Longrightarrow> n < unat N \<Longrightarrow> unat ((r + of_nat i) mod N) \<noteq> unat ((r + of_nat n) mod N)"
proof
  assume h: "i < n" "n < unat N" "unat ((r + of_nat i) mod N) = unat ((r + of_nat n) mod N)"
  then have "(unat r + i) mod unat N = (unat r + n) mod unat N" by (simp only: cell)
  then have "unat N dvd (unat r + n) - (unat r + i)" using h(1) by (metis add_le_cancel_left less_imp_le mod_eq_dvd_iff_nat)
  then have "unat N dvd n - i" by simp
  with h(1,2) show False by (auto dest: dvd_imp_le)
qed

text \<open>Storing at the end of the used part appends; the counter stays within the size.\<close>

lemma push:
  assumes "length buf = unat N" "n < unat N" "k = r + of_nat n"
  shows "ring_seq N (buf[unat (k mod N) := x]) r (Suc n) = ring_seq N buf r n @ [x]"
proof -
  have "ring_seq N (buf[unat (k mod N) := x]) r n = ring_seq N buf r n"
    using not_sym [OF cell_distinct [of _ n r]] assms(2,3) by (simp add: ring_seq_def)
  then show ?thesis using assms cell_bound by (simp add: ring_seq_snoc)
qed

end

end
