(* ===== verification/Console.thy ===== *)
theory Console
  imports Bio Format Ring
begin

text \<open>
  The console: output to the screen and the serial port, the line discipline that collects
  typed characters until a line is complete (console.c), the keyboard driver that turns
  scan codes into characters (kbd.c, kbd.h), the serial port (uart.c) and the process
  listing that ^P prints (procdump in proc.c). \<open>consoleread\<close> and \<open>consolewrite\<close> also unlock
  the console's inode and are completed in Fs.
\<close>

section \<open>State\<close>

text \<open>
  The cursor position is the value of the CRT controller's two cursor registers, \<open>crt\<close> the
  CGA memory by cell, \<open>uart_out\<close> the bytes sent on the serial port so far; \<open>uart_in\<close> and
  \<open>kbd_in\<close> are the bytes the serial port and the keyboard controller hold for the kernel.
  \<open>consdev\<close> says that \<open>devsw[CONSOLE]\<close> has been filled in.
\<close>

record con_st = ide_st +
  panicked :: bool
  cons_locking :: bool
  uart :: bool
  uart_out :: "uchar list"
  uart_in :: "uchar list"
  kbd_in :: "uchar list"
  kbshift :: uint
  crtpos :: ushort
  crt :: "nat \<Rightarrow> ushort"
  inbuf :: "uchar list"
  in_r :: uint
  in_w :: uint
  in_e :: uint
  consdev :: bool

abbreviation (input) BACKSPACE :: cint where "BACKSPACE \<equiv> 0x100"
abbreviation (input) INPUT_BUF :: uint where "INPUT_BUF \<equiv> 128"

section \<open>Output\<close>

text \<open>The serial port is ready at the latest after the bounded wait of \<open>uartputc\<close>.\<close>

definition uartputc :: "cint \<Rightarrow> 'z con_st_scheme \<Rightarrow> 'z con_st_scheme" where
  "uartputc c s = (if \<not> uart s then s else s\<lparr>uart_out := uart_out s @ [ucast c]\<rparr>)"

text \<open>
  The three steps of \<open>cgaputc\<close> on the cursor position and the screen: putting the character,
  scrolling (\<open>memmove\<close> of 23 rows and \<open>memset\<close> from the new position to the end of row 23),
  and storing the position back.
\<close>

definition cga_put :: "cint \<Rightarrow> nat \<times> (nat \<Rightarrow> ushort) \<Rightarrow> nat \<times> (nat \<Rightarrow> ushort)" where
  "cga_put c = (\<lambda>(pos, m).
     if c = 10 then (pos + (80 - pos mod 80), m)
     else if c = BACKSPACE then (if pos > 0 then pos - 1 else pos, m)
     else (pos + 1, m(pos := (ucast c AND 0xff) OR 0x0700)))"

definition cga_scroll :: "nat \<times> (nat \<Rightarrow> ushort) \<Rightarrow> nat \<times> (nat \<Rightarrow> ushort)" where
  "cga_scroll = (\<lambda>(pos, m).
     if pos div 80 \<ge> 24
     then let m = (\<lambda>i. if i < 23 * 80 then m (i + 80) else m i);
              pos = pos - 80
          in (pos, \<lambda>i. if pos \<le> i \<and> i < 24 * 80 then 0 else m i)
     else (pos, m))"

definition cgaputc :: "cint \<Rightarrow> 'z con_st_scheme \<Rightarrow> (unit, 'z con_st_scheme) res" where
  "cgaputc c s =
     (case cga_put c (unat (crtpos s), crt s) of (pos, m) \<Rightarrow>
        if pos > 25 * 80 then Panic ''pos under/overflow''
        else case cga_scroll (pos, m) of (pos, m) \<Rightarrow>
          Ok () (s\<lparr>crtpos := of_nat pos, crt := m(pos := 32 OR 0x0700)\<rparr>))"

definition consputc :: "cint \<Rightarrow> 'z con_st_scheme \<Rightarrow> (unit, 'z con_st_scheme) res" where
  "consputc c s =
     (if panicked s then Spin
      else cgaputc c (if c = BACKSPACE then uartputc 8 (uartputc 32 (uartputc 8 s)) else uartputc c s))"

fun consputs :: "uchar list \<Rightarrow> 'z con_st_scheme \<Rightarrow> (unit, 'z con_st_scheme) res" where
  "consputs [] s = Ok () s"
| "consputs (c # cs) s = rbind (consputc (ucast c) s) (\<lambda>_ s. consputs cs s)"

definition cprintf :: "uchar list \<Rightarrow> carg list \<Rightarrow> 'z con_st_scheme \<Rightarrow> (unit, 'z con_st_scheme) res" where
  "cprintf f args s = (case cfmt f args of None \<Rightarrow> Panic ''trap'' | Some out \<Rightarrow> consputs out s)"

section \<open>The process listing\<close>

fun callerpcs :: "nat \<Rightarrow> memory \<Rightarrow> uint \<Rightarrow> uint list" where
  "callerpcs 0 m ebp = []"
| "callerpcs (Suc k) m ebp =
     (if ebp = 0 \<or> ebp < KERNBASE \<or> ebp = 0xffffffff then replicate (Suc k) 0
      else load32 m (ebp + 4) # callerpcs k m (load32 m ebp))"

definition getcallerpcs :: "memory \<Rightarrow> uint \<Rightarrow> uint list" where
  "getcallerpcs m v = callerpcs 10 m (v - 8)"

fun state_name :: "procstate \<Rightarrow> uchar list" where
  "state_name UNUSED = bytes ''unused''"
| "state_name EMBRYO = bytes ''embryo''"
| "state_name SLEEPING = bytes ''sleep ''"
| "state_name RUNNABLE = bytes ''runble''"
| "state_name RUNNING = bytes ''run   ''"
| "state_name ZOMBIE = bytes ''zombie''"

fun print_pcs :: "uint list \<Rightarrow> 'z con_st_scheme \<Rightarrow> (unit, 'z con_st_scheme) res" where
  "print_pcs [] s = Ok () s"
| "print_pcs (a # pcs) s =
     (if a = 0 then Ok () s else rbind (cprintf (bytes '' %p'') [AInt a] s) (\<lambda>_ s. print_pcs pcs s))"

fun procdump_loop :: "proc list \<Rightarrow> 'z con_st_scheme \<Rightarrow> (unit, 'z con_st_scheme) res" where
  "procdump_loop [] s = Ok () s"
| "procdump_loop (p # ps) s =
     (if state p = UNUSED then procdump_loop ps s
      else rbind (cprintf (bytes ''%d %s %s'') [AInt (pid p), AStr (Some (state_name (state p))), AStr (Some (name p))] s) (\<lambda>_ s.
        rbind (if state p = SLEEPING
               then print_pcs (getcallerpcs (mem s) (load32 (mem s) (pcontext p + 12) + 8)) s
               else Ok () s) (\<lambda>_ s.
        rbind (cprintf [10] [] s) (\<lambda>_ s. procdump_loop ps s))))"

definition procdump :: "'z con_st_scheme \<Rightarrow> (unit, 'z con_st_scheme) res" where
  "procdump s = procdump_loop (ptable s) s"

section \<open>Input\<close>

text \<open>The character at an index of the circular buffer.\<close>

definition in_at :: "'z con_st_scheme \<Rightarrow> uint \<Rightarrow> uchar" where
  "in_at s i = inbuf s ! unat (i mod INPUT_BUF)"

text \<open>^U: the loop runs at most \<open>e - w\<close> times.\<close>

fun kill_line :: "nat \<Rightarrow> 'z con_st_scheme \<Rightarrow> (unit, 'z con_st_scheme) res" where
  "kill_line 0 s = Ok () s"
| "kill_line (Suc k) s =
     (if in_e s \<noteq> in_w s \<and> in_at s (in_e s - 1) \<noteq> 10
      then rbind (consputc BACKSPACE (s\<lparr>in_e := in_e s - 1\<rparr>)) (\<lambda>_ s. kill_line k s)
      else Ok () s)"

text \<open>The \<open>switch\<close> of \<open>consoleintr\<close>; the value is the new \<open>doprocdump\<close>.\<close>

definition cons_char :: "bool \<Rightarrow> cint \<Rightarrow> 'z con_st_scheme \<Rightarrow> (bool, 'z con_st_scheme) res" where
  "cons_char dump c s =
     (if c = 16 then Ok True s
      else if c = 21 then rbind (kill_line (unat (in_e s - in_w s)) s) (\<lambda>_ s. Ok dump s)
      else if c = 8 \<or> c = 0x7f then
        (if in_e s \<noteq> in_w s then rbind (consputc BACKSPACE (s\<lparr>in_e := in_e s - 1\<rparr>)) (\<lambda>_ s. Ok dump s)
         else Ok dump s)
      else if c \<noteq> 0 \<and> in_e s - in_r s < INPUT_BUF then
        (let c = (if c = 13 then 10 else c);
             s = s\<lparr>inbuf := (inbuf s)[unat (in_e s mod INPUT_BUF) := ucast c], in_e := in_e s + 1\<rparr>
         in rbind (consputc c s) (\<lambda>_ s.
              if c = 10 \<or> c = 4 \<or> in_e s = in_r s + INPUT_BUF
              then Ok dump (wakeup ChInput (s\<lparr>in_w := in_e s\<rparr>)) else Ok dump s))
      else Ok dump s)"

text \<open>The loop over \<open>getc\<close>, which ends when the device has no more input.\<close>

fun cons_loop :: "nat \<Rightarrow> ('z con_st_scheme \<Rightarrow> cint \<times> 'z con_st_scheme) \<Rightarrow> bool \<Rightarrow> 'z con_st_scheme \<Rightarrow> (bool, 'z con_st_scheme) res" where
  "cons_loop 0 getc dump s = Spin"
| "cons_loop (Suc k) getc dump s =
     (let (c, s) = getc s
      in if c <s 0 then Ok dump s
         else rbind (cons_char dump c s) (\<lambda>dump s. cons_loop k getc dump s))"

definition consoleintr :: "nat \<Rightarrow> ('z con_st_scheme \<Rightarrow> cint \<times> 'z con_st_scheme) \<Rightarrow> 'z con_st_scheme \<Rightarrow> (unit, 'z con_st_scheme) res" where
  "consoleintr fuel getc s =
     rbind (cons_loop fuel getc False s) (\<lambda>dump s. if dump then procdump s else Ok () s)"

text \<open>
  The body of \<open>consoleread\<close> between \<open>iunlock\<close> and \<open>ilock\<close>, with \<open>n\<close> bytes still wanted and
  \<open>out\<close> already copied. It sleeps when the buffer is empty; when it runs again, it goes on
  with the same \<open>n\<close> and \<open>out\<close>. The value \<open>None\<close> is the \<open>-1\<close> of a killed process.
\<close>

fun cons_read :: "nat \<Rightarrow> uchar list \<Rightarrow> 'z con_st_scheme \<Rightarrow> (uchar list option, 'z con_st_scheme) res" where
  "cons_read 0 out s = Ok (Some out) s"
| "cons_read (Suc n) out s =
     (if in_r s = in_w s then
        (if myproc_killed s then Ok None s else sleep ChInput s)
      else
        (let c = in_at s (in_r s); s = s\<lparr>in_r := in_r s + 1\<rparr>
         in if c = 4 then Ok (Some out) (if out \<noteq> [] then s\<lparr>in_r := in_r s - 1\<rparr> else s)
            else if c = 10 then Ok (Some (out @ [c])) s
            else cons_read n (out @ [c]) s))"

definition consoleinit :: "'z con_st_scheme \<Rightarrow> 'z con_st_scheme" where
  "consoleinit s = s\<lparr>consdev := True, cons_locking := True\<rparr>"

section \<open>The serial port\<close>

definition uartgetc :: "'z con_st_scheme \<Rightarrow> cint \<times> 'z con_st_scheme" where
  "uartgetc s =
     (if \<not> uart s then (- 1, s)
      else case uart_in s of [] \<Rightarrow> (- 1, s) | c # cs \<Rightarrow> (ucast c, s\<lparr>uart_in := cs\<rparr>))"

definition uartintr :: "'z con_st_scheme \<Rightarrow> (unit, 'z con_st_scheme) res" where
  "uartintr s = consoleintr (length (uart_in s) + 1) uartgetc s"

section \<open>The keyboard\<close>

text \<open>The tables of kbd.h: the first entries in order, then the designated ones, 0 elsewhere.\<close>

definition keytable :: "uchar list \<Rightarrow> (uchar \<times> uchar) list \<Rightarrow> uchar \<Rightarrow> uchar" where
  "keytable base desig d =
     (case map_of desig d of Some c \<Rightarrow> c | None \<Rightarrow> if unat d < length base then base ! unat d else 0)"

abbreviation (input) SHIFT :: uint where "SHIFT \<equiv> 1"
abbreviation (input) CTL :: uint where "CTL \<equiv> 2"
abbreviation (input) CAPSLOCK :: uint where "CAPSLOCK \<equiv> 8"
abbreviation (input) E0ESC :: uint where "E0ESC \<equiv> 64"

definition shiftcode :: "uchar \<Rightarrow> uchar" where
  "shiftcode = keytable [] [(0x1D, 2), (0x2A, 1), (0x36, 1), (0x38, 4), (0x9D, 2), (0xB8, 4)]"

definition togglecode :: "uchar \<Rightarrow> uchar" where
  "togglecode = keytable [] [(0x3A, 8), (0x45, 16), (0x46, 32)]"

definition normalmap :: "uchar \<Rightarrow> uchar" where
  "normalmap = keytable
     [0, 27, 49, 50, 51, 52, 53, 54, 55, 56, 57, 48, 45, 61, 8, 9,
      113, 119, 101, 114, 116, 121, 117, 105, 111, 112, 91, 93, 10, 0, 97, 115,
      100, 102, 103, 104, 106, 107, 108, 59, 39, 96, 0, 92, 122, 120, 99, 118,
      98, 110, 109, 44, 46, 47, 0, 42, 0, 32, 0, 0, 0, 0, 0, 0,
      0, 0, 0, 0, 0, 0, 0, 55, 56, 57, 45, 52, 53, 54, 43, 49,
      50, 51, 48, 46, 0, 0, 0, 0]
     [(0x9C, 10), (0xB5, 47), (0xC8, 0xE2), (0xD0, 0xE3), (0xC9, 0xE6), (0xD1, 0xE7),
      (0xCB, 0xE4), (0xCD, 0xE5), (0x97, 0xE0), (0xCF, 0xE1), (0xD2, 0xE8), (0xD3, 0xE9)]"

definition shiftmap :: "uchar \<Rightarrow> uchar" where
  "shiftmap = keytable
     [0, 27, 33, 64, 35, 36, 37, 94, 38, 42, 40, 41, 95, 43, 8, 9,
      81, 87, 69, 82, 84, 89, 85, 73, 79, 80, 123, 125, 10, 0, 65, 83,
      68, 70, 71, 72, 74, 75, 76, 58, 34, 126, 0, 124, 90, 88, 67, 86,
      66, 78, 77, 60, 62, 63, 0, 42, 0, 32, 0, 0, 0, 0, 0, 0,
      0, 0, 0, 0, 0, 0, 0, 55, 56, 57, 45, 52, 53, 54, 43, 49,
      50, 51, 48, 46, 0, 0, 0, 0]
     [(0x9C, 10), (0xB5, 47), (0xC8, 0xE2), (0xD0, 0xE3), (0xC9, 0xE6), (0xD1, 0xE7),
      (0xCB, 0xE4), (0xCD, 0xE5), (0x97, 0xE0), (0xCF, 0xE1), (0xD2, 0xE8), (0xD3, 0xE9)]"

definition ctlmap :: "uchar \<Rightarrow> uchar" where
  "ctlmap = keytable
     [0, 0, 0, 0, 0, 0, 0, 0, 0, 0, 0, 0, 0, 0, 0, 0,
      17, 23, 5, 18, 20, 25, 21, 9, 15, 16, 0, 0, 13, 0, 1, 19,
      4, 6, 7, 8, 10, 11, 12, 0, 0, 0, 0, 28, 26, 24, 3, 22,
      2, 14, 13, 0, 0, 239, 0, 0]
     [(0x9C, 13), (0xB5, 239), (0xC8, 0xE2), (0xD0, 0xE3), (0xC9, 0xE6), (0xD1, 0xE7),
      (0xCB, 0xE4), (0xCD, 0xE5), (0x97, 0xE0), (0xCF, 0xE1), (0xD2, 0xE8), (0xD3, 0xE9)]"

text \<open>\<open>charcode[shift & (CTL | SHIFT)]\<close>.\<close>

definition charcode :: "uint \<Rightarrow> uchar \<Rightarrow> uchar" where
  "charcode i = (if i = 0 then normalmap else if i = 1 then shiftmap else ctlmap)"

text \<open>What one scan code does to the shift state, and the character it gives.\<close>

definition kbd_decode :: "uint \<Rightarrow> uchar \<Rightarrow> cint \<times> uint" where
  "kbd_decode shift d =
     (if d = 0xE0 then (0, shift OR E0ESC)
      else if d AND 0x80 \<noteq> 0 then
        (let d = (if shift AND E0ESC \<noteq> 0 then d else d AND 0x7F)
         in (0, shift AND NOT (ucast (shiftcode d) OR E0ESC)))
      else
        (let (d, shift) = (if shift AND E0ESC \<noteq> 0 then (d OR 0x80, shift AND NOT E0ESC) else (d, shift));
             shift = shift OR ucast (shiftcode d);
             shift = shift XOR ucast (togglecode d);
             c = ucast (charcode (shift AND (CTL OR SHIFT)) d) :: uint;
             c = (if shift AND CAPSLOCK \<noteq> 0
                  then if 97 \<le> c \<and> c \<le> 122 then c + (65 - 97)
                       else if 65 \<le> c \<and> c \<le> 90 then c + (97 - 65) else c
                  else c)
         in (c, shift)))"

definition kbdgetc :: "'z con_st_scheme \<Rightarrow> cint \<times> 'z con_st_scheme" where
  "kbdgetc s =
     (case kbd_in s of
        [] \<Rightarrow> (- 1, s)
      | d # ds \<Rightarrow> let (c, shift) = kbd_decode (kbshift s) d in (c, s\<lparr>kbd_in := ds, kbshift := shift\<rparr>))"

definition kbdintr :: "'z con_st_scheme \<Rightarrow> (unit, 'z con_st_scheme) res" where
  "kbdintr s = consoleintr (length (kbd_in s) + 1) kbdgetc s"

section \<open>The screen\<close>

definition screen_ok :: "'z con_st_scheme \<Rightarrow> bool" where
  "screen_ok s \<longleftrightarrow> \<not> panicked s \<and> unat (crtpos s) < 1920"

text \<open>What writing to the screen leaves alone.\<close>

definition con_same :: "'z con_st_scheme \<Rightarrow> 'z con_st_scheme \<Rightarrow> bool" where
  "con_same s t \<longleftrightarrow> (\<exists>u p m. t = s\<lparr>uart_out := u, crtpos := p, crt := m\<rparr>)"

lemma con_same_refl [simp]: "con_same s s"
proof -
  have "s = s\<lparr>uart_out := uart_out s, crtpos := crtpos s, crt := crt s\<rparr>" by simp
  then show ?thesis unfolding con_same_def by blast
qed

lemma con_same_trans: "con_same s t \<Longrightarrow> con_same t u \<Longrightarrow> con_same s u"
  by (fastforce simp: con_same_def)

lemma con_same_crt: "con_same s (s\<lparr>crtpos := p, crt := m\<rparr>)"
proof -
  have "s\<lparr>crtpos := p, crt := m\<rparr> = s\<lparr>uart_out := uart_out s, crtpos := p, crt := m\<rparr>" by simp
  then show ?thesis unfolding con_same_def by blast
qed

lemma con_sameD:
  "con_same s t \<Longrightarrow> inbuf t = inbuf s \<and> in_r t = in_r s \<and> in_w t = in_w s \<and> in_e t = in_e s \<and> panicked t = panicked s \<and>
     uart t = uart s \<and> uart_in t = uart_in s \<and> kbd_in t = kbd_in s \<and> kbshift t = kbshift s \<and> cproc t = cproc s \<and> ptable t = ptable s"
  by (auto simp: con_same_def)

lemma uartputc_same: "con_same s (uartputc c s)"
proof (cases "uart s")
  case True
  then have "uartputc c s = s\<lparr>uart_out := uart_out s @ [ucast c], crtpos := crtpos s, crt := crt s\<rparr>"
    by (simp add: uartputc_def)
  then show ?thesis unfolding con_same_def by blast
qed (simp add: uartputc_def)

lemma unat_of_nat16: "n < 65536 \<Longrightarrow> unat (of_nat n :: ushort) = n"
  by (simp add: unat_of_nat)

lemma next_line: "p < 1920 \<Longrightarrow> p + (80 - p mod 80) \<le> 1920" for p :: nat
proof -
  assume "p < 1920"
  then have "p div 80 < 24" by (simp add: div_less_iff_less_mult)
  then have "(p div 80) * 80 + 80 \<le> 1920" by simp
  then show ?thesis using div_mult_mod_eq [of p 80] mod_less_divisor [of 80 p] by linarith
qed

lemma cga_put_ok: "p < 1920 \<Longrightarrow> cga_put c (p, m) = (q, m') \<Longrightarrow> q \<le> 1920 \<and> (\<forall>i \<ge> 1920. m' i = m i)"
  using next_line [of p] by (auto simp: cga_put_def split: if_splits)

lemma cga_scroll_ok: "q \<le> 1920 \<Longrightarrow> cga_scroll (q, m) = (p, m') \<Longrightarrow> p < 1920 \<and> (\<forall>i \<ge> 1920. m' i = m i)"
  by (auto simp: cga_scroll_def Let_def split: if_splits)

lemma cgaputc_ok:
  assumes "unat (crtpos s) < 1920"
  obtains p m where "cgaputc c s = Ok () (s\<lparr>crtpos := of_nat p, crt := m\<rparr>)" "p < 1920" "\<forall>i \<ge> 1920. m i = crt s i"
proof -
  obtain q m0 where q: "cga_put c (unat (crtpos s), crt s) = (q, m0)" by fastforce
  obtain p m1 where p: "cga_scroll (q, m0) = (p, m1)" by fastforce
  have q': "q \<le> 1920" "\<forall>i \<ge> 1920. m0 i = crt s i" using cga_put_ok [OF assms q] by auto
  have p': "p < 1920" "\<forall>i \<ge> 1920. m1 i = m0 i" using cga_scroll_ok [OF q'(1) p] by auto
  have "cgaputc c s = Ok () (s\<lparr>crtpos := of_nat p, crt := m1(p := 32 OR 0x0700)\<rparr>)"
    using q' by (simp add: cgaputc_def q p)
  then show thesis by (rule that) (use p' q' in auto)
qed

lemma consputc_ok:
  assumes "screen_ok s"
  obtains t where "consputc c s = Ok () t" "screen_ok t" "con_same s t"
proof -
  let ?s = "if c = BACKSPACE then uartputc 8 (uartputc 32 (uartputc 8 s)) else uartputc c s"
  have same: "con_same s ?s" using uartputc_same con_same_trans by (smt (verit))
  then have s: "panicked ?s = panicked s" using con_sameD by blast
  have "unat (crtpos ?s) < 1920" using assms by (simp add: screen_ok_def uartputc_def)
  then obtain p m where p: "cgaputc c ?s = Ok () (?s\<lparr>crtpos := of_nat p, crt := m\<rparr>)" "p < 1920"
    by (rule cgaputc_ok)
  have "con_same s (?s\<lparr>crtpos := of_nat p, crt := m\<rparr>)" using same con_same_crt con_same_trans by blast
  moreover have "screen_ok (?s\<lparr>crtpos := of_nat p, crt := m\<rparr>)"
    using assms p(2) s by (simp add: screen_ok_def unat_of_nat16)
  ultimately show thesis using p(1) assms by (intro that) (simp_all add: consputc_def screen_ok_def)
qed

text \<open>C39: Writing a character to the screen never panics and never leaves the 25 by 80 cells: from
  a cursor on the first 24 rows, \<open>cgaputc\<close> returns with the cursor on the first 24 rows and
  every cell from row 24 on unchanged. A printed character that does not make the screen
  scroll is in the cell where the cursor was.\<close>

theorem cgaputc_bounds:
  assumes "unat (crtpos s) < 24 * 80"
  shows "\<exists>t. cgaputc c s = Ok () t \<and> unat (crtpos t) < 24 * 80 \<and> (\<forall>i \<ge> 24 * 80. crt t i = crt s i) \<and>
     (c \<noteq> 10 \<longrightarrow> c \<noteq> BACKSPACE \<longrightarrow> unat (crtpos s) + 1 < 24 * 80 \<longrightarrow>
        crt t (unat (crtpos s)) = (ucast c AND 0xff) OR 0x0700)"
proof -
  have "unat (crtpos s) < 1920" using assms by simp
  then obtain p m where p: "cgaputc c s = Ok () (s\<lparr>crtpos := of_nat p, crt := m\<rparr>)" "p < 1920" "\<forall>i \<ge> 1920. m i = crt s i"
    by (rule cgaputc_ok)
  then obtain t where t: "cgaputc c s = Ok () t" "unat (crtpos t) < 1920" "\<forall>i \<ge> 1920. crt t i = crt s i"
    by (simp add: unat_of_nat16)
  have "crt t (unat (crtpos s)) = (ucast c AND 0xff) OR 0x0700"
    if h: "c \<noteq> 10" "c \<noteq> BACKSPACE" "unat (crtpos s) + 1 < 24 * 80"
  proof -
    have "\<not> 24 \<le> Suc (unat (crtpos s)) div 80" using h(3) by (simp add: not_le div_less_iff_less_mult)
    then show ?thesis using h assms t(1) by (auto simp: cgaputc_def cga_put_def cga_scroll_def)
  qed
  with t show ?thesis by simp
qed

section \<open>The line discipline\<close>

text \<open>
  The input buffer as two lists: the bytes that readers may take and the line being edited,
  which never contains a newline.
\<close>

interpretation inp: circular 128
  by unfold_locales simp

definition in_queue :: "'z con_st_scheme \<Rightarrow> uchar list" where
  "in_queue s = ring_seq INPUT_BUF (inbuf s) (in_r s) (unat (in_w s - in_r s))"

definition in_line :: "'z con_st_scheme \<Rightarrow> uchar list" where
  "in_line s = ring_seq INPUT_BUF (inbuf s) (in_w s) (unat (in_e s - in_w s))"

definition in_ok :: "'z con_st_scheme \<Rightarrow> bool" where
  "in_ok s \<longleftrightarrow> length (inbuf s) = 128 \<and> length (in_queue s) + length (in_line s) \<le> 128 \<and> 10 \<notin> set (in_line s)"

text \<open>The line editor that the driver implements.\<close>

definition edit :: "uchar \<Rightarrow> uchar list \<times> uchar list \<Rightarrow> uchar list \<times> uchar list" where
  "edit c = (\<lambda>(q, l).
     if c = 16 then (q, l)
     else if c = 21 then (q, [])
     else if c = 8 \<or> c = 0x7f then (q, butlast l)
     else if c \<noteq> 0 \<and> length q + length l < 128 then
       (let c = (if c = 13 then 10 else c); l = l @ [c]
        in if c = 10 \<or> c = 4 \<or> length q + length l = 128 then (q @ l, []) else (q, l))
     else (q, l))"

lemma unat_ucast8: "unat (ucast (b :: uchar) :: uint) = unat b"
proof -
  have "unat b < 256" using unsigned_less [where 'b = 8 and w = b and 'a = nat] by simp
  then show ?thesis by (simp add: unsigned_ucast_eq take_bit_nat_eq_self)
qed

lemma ucast8_eq [simp]:
  "(ucast (b :: uchar) :: uint) = 0 \<longleftrightarrow> b = 0" "(ucast b :: uint) = 4 \<longleftrightarrow> b = 4" "(ucast b :: uint) = 8 \<longleftrightarrow> b = 8"
  "(ucast b :: uint) = 10 \<longleftrightarrow> b = 10" "(ucast b :: uint) = 13 \<longleftrightarrow> b = 13" "(ucast b :: uint) = 16 \<longleftrightarrow> b = 16"
  "(ucast b :: uint) = 21 \<longleftrightarrow> b = 21" "(ucast b :: uint) = 0x7f \<longleftrightarrow> b = 0x7f"
  by (simp_all add: word_unat_eq_iff unat_ucast8)

lemma ucast8_id [simp]: "(ucast (ucast (b :: uchar) :: uint) :: uchar) = b"
  by (rule bit_word_eqI) (simp add: bit_simps)

lemma in_all: "in_queue s @ in_line s = ring_seq INPUT_BUF (inbuf s) (in_r s) (length (in_queue s) + length (in_line s))"
  by (simp add: in_queue_def in_line_def ring_seq_append)

lemma in_used:
  assumes "length (in_queue s) + length (in_line s) \<le> 128"
  shows "unat (in_e s - in_r s) = length (in_queue s) + length (in_line s)"
proof -
  have "in_e s - in_r s = (in_w s - in_r s) + (in_e s - in_w s)" by simp
  then show ?thesis using assms by (simp only: unat_word_ariths in_queue_def in_line_def length_ring_seq) simp
qed

lemma in_same: "con_same s t \<Longrightarrow> in_queue t = in_queue s \<and> in_line t = in_line s \<and> in_ok t = in_ok s"
  using con_sameD [of s t] by (simp add: in_queue_def in_line_def in_ok_def)

text \<open>Erasing the last character of the line.\<close>

lemma in_erase:
  assumes "in_e s \<noteq> in_w s"
  shows "in_queue (s\<lparr>in_e := in_e s - 1\<rparr>) = in_queue s" "in_line (s\<lparr>in_e := in_e s - 1\<rparr>) = butlast (in_line s)"
    "in_at s (in_e s - 1) = last (in_line s)" "in_line s \<noteq> []"
proof -
  let ?n = "unat (in_e s - 1 - in_w s)"
  have n: "unat (in_e s - in_w s) = Suc ?n" by (rule unat_diff_pred [OF assms])
  have w: "in_w s + of_nat ?n = in_e s - 1" by simp
  show "in_queue (s\<lparr>in_e := in_e s - 1\<rparr>) = in_queue s" by (simp add: in_queue_def)
  show "in_line (s\<lparr>in_e := in_e s - 1\<rparr>) = butlast (in_line s)"
    unfolding in_line_def n ring_seq_snoc by simp
  show "in_at s (in_e s - 1) = last (in_line s)"
    unfolding in_line_def n ring_seq_snoc in_at_def using w by simp
  show "in_line s \<noteq> []" unfolding in_line_def n ring_seq_snoc by simp
qed

lemma in_line_empty: "in_e s = in_w s \<longleftrightarrow> in_line s = []"
proof -
  have "in_line s = [] \<longleftrightarrow> unat (in_e s - in_w s) = 0" unfolding in_line_def by (metis length_0_conv length_ring_seq)
  then show ?thesis by (simp only: unat_diff_0)
qed

lemma in_ok_erase: "in_ok s \<Longrightarrow> in_e s \<noteq> in_w s \<Longrightarrow> in_ok (s\<lparr>in_e := in_e s - 1\<rparr>)"
  using in_erase [of s] by (auto simp: in_ok_def dest: in_set_butlastD)

text \<open>One input character takes a good console to a good console and edits as specified.\<close>

definition con_ok :: "'z con_st_scheme \<Rightarrow> bool" where
  "con_ok s \<longleftrightarrow> screen_ok s \<and> in_ok s"

definition dev_same :: "'z con_st_scheme \<Rightarrow> 'z con_st_scheme \<Rightarrow> bool" where
  "dev_same s t \<longleftrightarrow> uart t = uart s \<and> uart_in t = uart_in s \<and> kbd_in t = kbd_in s \<and> kbshift t = kbshift s"

lemma dev_same_con: "con_same s t \<Longrightarrow> dev_same s t"
  using con_sameD [of s t] by (simp add: dev_same_def)

lemma con_putc:
  assumes "con_ok s"
  obtains t where "consputc c s = Ok () t" "con_ok t" "in_queue t = in_queue s" "in_line t = in_line s" "con_same s t"
proof -
  obtain t where "consputc c s = Ok () t" "screen_ok t" "con_same s t"
    using assms consputc_ok unfolding con_ok_def by blast
  then show thesis using in_same [of s t] assms by (intro that) (simp_all add: con_ok_def)
qed

lemma con_erase:
  assumes "con_ok s" "in_e s \<noteq> in_w s"
  obtains t where "consputc BACKSPACE (s\<lparr>in_e := in_e s - 1\<rparr>) = Ok () t" "con_ok t" "in_queue t = in_queue s"
    "in_line t = butlast (in_line s)" "dev_same s t" "in_e t = in_e s - 1" "in_w t = in_w s"
proof -
  have "con_ok (s\<lparr>in_e := in_e s - 1\<rparr>)" using assms in_ok_erase [of s] by (simp add: con_ok_def screen_ok_def)
  then obtain t where t: "consputc BACKSPACE (s\<lparr>in_e := in_e s - 1\<rparr>) = Ok () t" "con_ok t"
    "in_queue t = in_queue (s\<lparr>in_e := in_e s - 1\<rparr>)" "in_line t = in_line (s\<lparr>in_e := in_e s - 1\<rparr>)"
    "con_same (s\<lparr>in_e := in_e s - 1\<rparr>) t" by (rule con_putc)
  with con_sameD [OF t(5)] in_erase [OF assms(2)] show thesis by (intro that [of t]) (simp_all add: dev_same_def)
qed

lemma kill_line_ok:
  assumes "con_ok s" "k = unat (in_e s - in_w s)"
  shows "\<exists>t. kill_line k s = Ok () t \<and> con_ok t \<and> in_queue t = in_queue s \<and> in_line t = [] \<and> dev_same s t"
  using assms
proof (induction k arbitrary: s)
  case 0
  then have "in_e s = in_w s" by (simp only: unat_diff_0 [symmetric])
  with 0 show ?case by (simp add: in_line_empty dev_same_def)
next
  case (Suc k)
  have ne: "in_e s \<noteq> in_w s" using Suc.prems(2) by auto
  have "last (in_line s) \<in> set (in_line s)" using in_erase(4) [OF ne] by simp
  then have "in_at s (in_e s - 1) \<noteq> 10" using Suc.prems(1) in_erase(3) [OF ne] by (auto simp: con_ok_def in_ok_def)
  moreover obtain t where t: "consputc BACKSPACE (s\<lparr>in_e := in_e s - 1\<rparr>) = Ok () t" "con_ok t" "in_queue t = in_queue s"
    "dev_same s t" "in_e t = in_e s - 1" "in_w t = in_w s" using con_erase [OF Suc.prems(1) ne] by metis
  moreover have "k = unat (in_e t - in_w t)" using unat_diff_pred [OF ne] Suc.prems(2) unfolding t(5,6) by simp
  moreover note Suc.IH [OF t(2) this]
  ultimately show ?case using ne by (auto simp: dev_same_def)
qed

text \<open>Storing a character at the end of the line.\<close>

lemma in_store:
  fixes s :: "'z con_st_scheme"
  assumes "in_ok s" "length (in_queue s) + length (in_line s) < 128"
    "t = s\<lparr>inbuf := (inbuf s)[unat (in_e s mod INPUT_BUF) := c], in_e := in_e s + 1\<rparr>"
  shows "in_queue t = in_queue s" "in_line t = in_line s @ [c]" "length (inbuf t) = 128"
    "in_queue (t\<lparr>in_w := in_e t\<rparr>) = in_queue s @ in_line s @ [c]"
proof -
  let ?b = "(inbuf s)[unat (in_e s mod INPUT_BUF) := c]"
  let ?q = "length (in_queue s)" and ?l = "length (in_line s)"
  have q: "?q = unat (in_w s - in_r s)" and l: "?l = unat (in_e s - in_w s)" by (simp_all add: in_queue_def in_line_def)
  have u: "unat (in_e s - in_r s) = ?q + ?l" using in_used [of s] assms(2) by simp
  have e: "in_e s = in_r s + of_nat (?q + ?l)" unfolding u [symmetric] by simp
  have len: "length (inbuf s) = unat (INPUT_BUF :: uint)" using assms(1) by (simp add: in_ok_def)
  have all: "ring_seq INPUT_BUF ?b (in_r s) (Suc (?q + ?l)) = in_queue s @ in_line s @ [c]"
    using inp.push [OF len _ e, of c] assms(2) in_all [of s] by simp
  have w: "in_r s + of_nat ?q = in_w s" unfolding q by simp
  have n1: "unat (in_e s + 1 - in_w s) = Suc ?l"
    using unat_diff_Suc [of "in_e s" "in_w s"] assms(2) l by simp
  have n2: "unat (in_e s + 1 - in_r s) = Suc (?q + ?l)"
    using unat_diff_Suc [of "in_e s" "in_r s"] assms(2) u by simp
  have split: "ring_seq INPUT_BUF ?b (in_r s) ?q @ ring_seq INPUT_BUF ?b (in_w s) (Suc ?l) = in_queue s @ in_line s @ [c]"
    using ring_seq_append [of INPUT_BUF ?b "in_r s" ?q "Suc ?l"] all unfolding w by simp
  then have parts: "ring_seq INPUT_BUF ?b (in_r s) ?q = in_queue s" "ring_seq INPUT_BUF ?b (in_w s) (Suc ?l) = in_line s @ [c]"
    using append_eq_append_conv [of "ring_seq INPUT_BUF ?b (in_r s) ?q" "in_queue s"] length_ring_seq by blast+
  show "in_queue t = in_queue s" using parts(1) q by (simp add: assms(3)) (simp add: in_queue_def)
  show "in_line t = in_line s @ [c]" using parts(2) n1 by (simp add: assms(3)) (simp add: in_line_def)
  show "length (inbuf t) = 128" using assms(1) by (simp add: assms(3) in_ok_def)
  show "in_queue (t\<lparr>in_w := in_e t\<rparr>) = in_queue s @ in_line s @ [c]"
    using all n2 by (simp add: assms(3)) (simp add: in_queue_def)
qed

lemma in_wakeup [simp]:
  "in_queue (wakeup ch s) = in_queue s" "in_line (wakeup ch s) = in_line s" "in_ok (wakeup ch s) = in_ok s"
  "screen_ok (wakeup ch s) = screen_ok s" "dev_same u (wakeup ch s) = dev_same u s"
  by (simp_all add: wakeup_def wakeup1_def in_queue_def in_line_def in_ok_def screen_ok_def dev_same_def)

lemma in_full:
  assumes "length (in_queue s) + length (in_line s) < 128"
  shows "in_e s + 1 = in_r s + INPUT_BUF \<longleftrightarrow> length (in_queue s) + Suc (length (in_line s)) = 128"
proof -
  have u: "unat (in_e s - in_r s) = length (in_queue s) + length (in_line s)" using assms by (simp add: in_used)
  have "unat (in_e s + 1 - in_r s) = length (in_queue s) + Suc (length (in_line s))"
    using unat_diff_Suc [of "in_e s" "in_r s"] assms u by simp
  moreover have "in_e s + 1 = in_r s + INPUT_BUF \<longleftrightarrow> in_e s + 1 - in_r s = INPUT_BUF" by (auto simp: algebra_simps)
  moreover have "\<dots> \<longleftrightarrow> unat (in_e s + 1 - in_r s) = 128" by (simp add: word_unat_eq_iff)
  ultimately show ?thesis by simp
qed

lemma cons_store_ok:
  fixes s :: "'z con_st_scheme"
  assumes "con_ok s" "length (in_queue s) + length (in_line s) < 128" "c \<noteq> 0"
  shows "\<exists>t. (let s = s\<lparr>inbuf := (inbuf s)[unat (in_e s mod INPUT_BUF) := c], in_e := in_e s + 1\<rparr>
      in rbind (consputc (ucast c) s) (\<lambda>_ s.
        if c = 10 \<or> c = 4 \<or> in_e s = in_r s + INPUT_BUF
        then Ok dump (wakeup ChInput (s\<lparr>in_w := in_e s\<rparr>)) else Ok dump s)) = Ok dump t \<and> con_ok t \<and> dev_same s t \<and>
     (in_queue t, in_line t) =
       (if c = 10 \<or> c = 4 \<or> length (in_queue s) + Suc (length (in_line s)) = 128
        then (in_queue s @ in_line s @ [c], []) else (in_queue s, in_line s @ [c]))"
proof -
  have ok: "in_ok s" using assms(1) by (simp add: con_ok_def)
  define u where "u = s\<lparr>inbuf := (inbuf s)[unat (in_e s mod INPUT_BUF) := c], in_e := in_e s + 1\<rparr>"
  note st = in_store [OF ok assms(2) u_def]
  have "screen_ok u" using assms(1) by (simp add: u_def con_ok_def screen_ok_def)
  then obtain v where v: "consputc (ucast c) u = Ok () v" "screen_ok v" "con_same u v" by (rule consputc_ok)
  have e: "in_e v = in_e s + 1" "in_r v = in_r s" "in_w v = in_w s" "inbuf v = inbuf u" "dev_same s v"
    using con_sameD [OF v(3)] by (simp_all add: u_def dev_same_def)
  have q: "in_queue v = in_queue s" "in_line v = in_line s @ [c]"
    "in_queue (v\<lparr>in_w := in_e v\<rparr>) = in_queue s @ in_line s @ [c]" "in_line (v\<lparr>in_w := in_e v\<rparr>) = []"
    using in_same [OF v(3)] st e by (simp_all add: in_queue_def in_line_def u_def)
  have full: "in_e v = in_r v + INPUT_BUF \<longleftrightarrow> length (in_queue s) + Suc (length (in_line s)) = 128"
    unfolding e(1,2) by (rule in_full [OF assms(2)])
  let ?c = "c = 10 \<or> c = 4 \<or> length (in_queue s) + Suc (length (in_line s)) = 128"
  let ?t = "if ?c then wakeup ChInput (v\<lparr>in_w := in_e v\<rparr>) else v"
  have len: "length (inbuf v) = 128" using st(3) e(4) by simp
  have "in_ok (v\<lparr>in_w := in_e v\<rparr>)" using q(3,4) len assms(2) by (simp add: in_ok_def)
  moreover have "in_ok v" if "c \<noteq> 10" using q(1,2) len assms(2) ok that by (simp add: in_ok_def)
  moreover have "screen_ok (v\<lparr>in_w := in_e v\<rparr>)" using v(2) by (simp add: screen_ok_def)
  ultimately have "con_ok ?t" using v(2) by (simp add: con_ok_def)
  moreover have "dev_same s ?t" using e(5) by (simp add: dev_same_def wakeup_def wakeup1_def)
  moreover have "(in_queue ?t, in_line ?t) = (if ?c then (in_queue s @ in_line s @ [c], []) else (in_queue s, in_line s @ [c]))"
    using q by simp
  ultimately show ?thesis using v(1) unfolding u_def [symmetric] Let_def by (intro exI [of _ ?t]) (simp add: full)
qed

lemma cons_char_ok:
  fixes s :: "'z con_st_scheme"
  assumes "con_ok s"
  shows "\<exists>t. cons_char dump (ucast b) s = Ok (dump \<or> b = 16) t \<and> con_ok t \<and> dev_same s t \<and>
     (in_queue t, in_line t) = edit b (in_queue s, in_line s)"
proof -
  let ?q = "length (in_queue s)" and ?l = "length (in_line s)"
  have used: "in_e s - in_r s < INPUT_BUF \<longleftrightarrow> ?q + ?l < 128"
    using in_used [of s] assms by (simp add: word_less_nat_alt con_ok_def in_ok_def)
  consider (dump) "b = 16" | (kill) "b = 21" | (erase) "b = 8 \<or> b = 0x7f"
    | (drop) "b \<notin> {16, 21, 8, 0x7f}" "b = 0 \<or> \<not> ?q + ?l < 128" | (store) "b \<notin> {16, 21, 8, 0x7f}" "b \<noteq> 0" "?q + ?l < 128"
    by blast
  then show ?thesis
  proof cases
    case dump
    then show ?thesis using assms by (simp add: cons_char_def edit_def dev_same_def)
  next
    case kill
    then show ?thesis using kill_line_ok [OF assms refl] by (auto simp: cons_char_def edit_def)
  next
    case erase
    then have b: "b \<noteq> 16" "b \<noteq> 21" by auto
    show ?thesis
    proof (cases "in_e s = in_w s")
      case True
      then have "in_line s = []" by (simp only: in_line_empty)
      with True b erase assms show ?thesis by (auto simp: cons_char_def edit_def dev_same_def)
    next
      case False
      obtain t where "consputc BACKSPACE (s\<lparr>in_e := in_e s - 1\<rparr>) = Ok () t" "con_ok t" "in_queue t = in_queue s"
        "in_line t = butlast (in_line s)" "dev_same s t" using con_erase [OF assms False] by metis
      with False b erase show ?thesis by (intro exI [of _ t]) (auto simp: cons_char_def edit_def)
    qed
  next
    case drop
    then show ?thesis using assms used by (intro exI [of _ s]) (auto simp: cons_char_def edit_def dev_same_def)
  next
    case store
    define c where "c = (if b = 13 then 10 else b)"
    have c: "c \<noteq> 0" using store by (simp add: c_def)
    have w: "(if ucast b = (13 :: uint) then 10 else ucast b) = (ucast c :: uint)" by (simp add: c_def)
    have "edit b (in_queue s, in_line s) = (if c = 10 \<or> c = 4 \<or> ?q + Suc ?l = 128
        then (in_queue s @ in_line s @ [c], []) else (in_queue s, in_line s @ [c]))"
      using store by (simp add: edit_def c_def [symmetric] Let_def)
    moreover have "cons_char dump (ucast b) s =
        (let s = s\<lparr>inbuf := (inbuf s)[unat (in_e s mod INPUT_BUF) := c], in_e := in_e s + 1\<rparr>
         in rbind (consputc (ucast c) s) (\<lambda>_ s.
           if c = 10 \<or> c = 4 \<or> in_e s = in_r s + INPUT_BUF
           then Ok dump (wakeup ChInput (s\<lparr>in_w := in_e s\<rparr>)) else Ok dump s))"
      using store(1,2) store(3) [folded used] unfolding cons_char_def w by (simp add: Let_def)
    ultimately show ?thesis using cons_store_ok [OF assms store(3) c, of dump] store(1) by simp
  qed
qed

section \<open>The input devices\<close>

text \<open>
  \<open>consoleintr\<close> is called with the \<open>getc\<close> of either device. What it needs of \<open>getc\<close>: there is a
  finite sequence of characters to come; \<open>getc\<close> takes its first one, or returns -1; and the
  handler's own steps do not change the sequence.
\<close>

lemma ucast8_nonneg [simp]: "\<not> (ucast (b :: uchar) :: cint) <s 0"
proof -
  have "\<not> bit (ucast b :: cint) 31" by (simp add: bit_simps) (use bit_imp_le_length [of b 31] in auto)
  then show ?thesis by (simp add: word_sless_alt sint_uint signed_take_bit_negative_iff bit_simps)
qed

locale char_source =
  fixes getc :: "'z con_st_scheme \<Rightarrow> cint \<times> 'z con_st_scheme"
    and chars :: "'z con_st_scheme \<Rightarrow> uchar list"
  assumes none: "chars s = [] \<Longrightarrow> getc s = (- 1, s)"
    and some: "chars s = b # bs \<Longrightarrow> \<exists>t. getc s = (ucast b, t) \<and> chars t = bs \<and>
      con_ok t = con_ok s \<and> in_queue t = in_queue s \<and> in_line t = in_line s"
    and stable: "dev_same s t \<Longrightarrow> chars t = chars s"
begin

lemma cons_loop_edits:
  assumes "con_ok s" "chars s = cs" "length cs < n"
  shows "\<exists>t. cons_loop n getc dump s = Ok (dump \<or> 16 \<in> set cs) t \<and> con_ok t \<and> chars t = [] \<and>
     (in_queue t, in_line t) = fold edit cs (in_queue s, in_line s)"
  using assms
proof (induction cs arbitrary: n s dump)
  case Nil
  then obtain k where "n = Suc k" by (cases n) auto
  with Nil show ?case using none by simp
next
  case (Cons b bs)
  then obtain k where n: "n = Suc k" by (cases n) auto
  obtain u where u: "getc s = (ucast b, u)" "chars u = bs" "con_ok u" "in_queue u = in_queue s" "in_line u = in_line s"
    using some [OF Cons.prems(2)] Cons.prems(1) by auto
  obtain v where v: "cons_char dump (ucast b) u = Ok (dump \<or> b = 16) v" "con_ok v" "dev_same u v"
    "(in_queue v, in_line v) = edit b (in_queue s, in_line s)"
    using cons_char_ok [OF u(3), of dump b] u(4,5) by auto
  have bs: "chars v = bs" using stable [OF v(3)] u(2) by simp
  show ?case using Cons.IH [OF v(2) bs, of k "dump \<or> b = 16"] Cons.prems(3) n u(1) v(1,4) by auto
qed

lemma consoleintr_edits:
  assumes "con_ok s" "16 \<notin> set (chars s)" "length (chars s) < n"
  shows "\<exists>t. consoleintr n getc s = Ok () t \<and> con_ok t \<and> chars t = [] \<and>
     (in_queue t, in_line t) = fold edit (chars s) (in_queue s, in_line s)"
  using cons_loop_edits [OF assms(1) refl assms(3), of False] assms(2) by (auto simp: consoleintr_def)

end

definition uart_chars :: "'z con_st_scheme \<Rightarrow> uchar list" where
  "uart_chars s = (if uart s then uart_in s else [])"

fun decode_chars :: "uint \<Rightarrow> uchar list \<Rightarrow> uchar list" where
  "decode_chars shift [] = []"
| "decode_chars shift (d # ds) = (case kbd_decode shift d of (c, shift) \<Rightarrow> ucast c # decode_chars shift ds)"

definition kbd_chars :: "'z con_st_scheme \<Rightarrow> uchar list" where
  "kbd_chars s = decode_chars (kbshift s) (kbd_in s)"

lemma ucast_back: "c < 256 \<Longrightarrow> (ucast (ucast (c :: uint) :: uchar) :: uint) = c"
proof -
  assume "c < 256"
  then have "unat c < 256" by (simp add: word_less_nat_alt)
  then show ?thesis by (simp add: word_unat_eq_iff unat_ucast8) (simp add: unsigned_ucast_eq take_bit_nat_eq_self)
qed

lemma ucast8_less: "(ucast (b :: uchar) :: uint) < 256"
  using unsigned_less [where 'b = 8 and w = b and 'a = nat] by (simp add: word_less_nat_alt unat_ucast8)

lemma kbd_decode_byte: "kbd_decode shift d = (c, shift') \<Longrightarrow> c < 256"
proof -
  have up: "c + (65 - 97) < 256" if "97 \<le> c" "c \<le> 122" for c :: uint
    using that by (simp add: word_le_nat_alt word_less_nat_alt unat_sub_if')
  have dn: "c + (97 - 65) < 256" if "65 \<le> c" "c \<le> 90" for c :: uint
    using that by (simp add: word_le_nat_alt word_less_nat_alt unat_word_ariths)
  assume "kbd_decode shift d = (c, shift')"
  then show ?thesis using up dn by (auto simp: kbd_decode_def Let_def ucast8_less split: if_splits prod.splits)
qed

interpretation uart: char_source uartgetc uart_chars
proof
  fix s :: "'z con_st_scheme" and b bs
  show "uart_chars s = [] \<Longrightarrow> uartgetc s = (- 1, s)" by (auto simp: uart_chars_def uartgetc_def split: if_splits)
  show "uart_chars s = b # bs \<Longrightarrow> \<exists>t. uartgetc s = (ucast b, t) \<and> uart_chars t = bs \<and>
      con_ok t = con_ok s \<and> in_queue t = in_queue s \<and> in_line t = in_line s"
    by (auto simp: uart_chars_def uartgetc_def con_ok_def screen_ok_def in_ok_def in_queue_def in_line_def split: if_splits)
next
  fix s t :: "'z con_st_scheme"
  show "dev_same s t \<Longrightarrow> uart_chars t = uart_chars s" by (simp add: uart_chars_def dev_same_def)
qed

interpretation kbd: char_source kbdgetc kbd_chars
proof
  fix s :: "'z con_st_scheme" and b bs
  show "kbd_chars s = [] \<Longrightarrow> kbdgetc s = (- 1, s)"
    by (cases "kbd_in s") (auto simp: kbd_chars_def kbdgetc_def split: prod.splits)
  show "kbd_chars s = b # bs \<Longrightarrow> \<exists>t. kbdgetc s = (ucast b, t) \<and> kbd_chars t = bs \<and>
      con_ok t = con_ok s \<and> in_queue t = in_queue s \<and> in_line t = in_line s"
    by (cases "kbd_in s")
      (auto simp: kbd_chars_def kbdgetc_def con_ok_def screen_ok_def in_ok_def in_queue_def in_line_def
        ucast_back dest: kbd_decode_byte split: prod.splits)
next
  fix s t :: "'z con_st_scheme"
  show "dev_same s t \<Longrightarrow> kbd_chars t = kbd_chars s" by (simp add: kbd_chars_def dev_same_def)
qed

section \<open>Reading a line\<close>

lemma in_pop:
  assumes "in_queue s = c # cs"
  shows "in_r s \<noteq> in_w s" "in_at s (in_r s) = c" "in_queue (s\<lparr>in_r := in_r s + 1\<rparr>) = cs"
proof -
  show ne: "in_r s \<noteq> in_w s" using assms by (auto simp: in_queue_def)
  have n: "unat (in_w s - in_r s) = Suc (unat (in_w s - 1 - in_r s))"
    by (rule unat_diff_pred) (use ne in simp)
  have e: "in_w s - (in_r s + 1) = in_w s - 1 - in_r s" by simp
  have "c = inbuf s ! unat (in_r s mod INPUT_BUF)" "cs = ring_seq INPUT_BUF (inbuf s) (in_r s + 1) (unat (in_w s - 1 - in_r s))"
    using assms unfolding in_queue_def n ring_seq_pop by simp_all
  then show "in_at s (in_r s) = c" "in_queue (s\<lparr>in_r := in_r s + 1\<rparr>) = cs"
    by (simp_all add: in_at_def in_queue_def e [symmetric])
qed

lemma cons_read_line:
  assumes "in_queue s = xs @ 10 # ys" "10 \<notin> set xs" "4 \<notin> set xs" "length xs < n"
  shows "\<exists>t. cons_read n out s = Ok (Some (out @ xs @ [10])) t \<and> in_queue t = ys"
  using assms
proof (induction xs arbitrary: s n out)
  case Nil
  then obtain k where "n = Suc k" by (cases n) auto
  with Nil in_pop [of s 10 ys] show ?case by simp
next
  case (Cons x xs)
  then obtain k where n: "n = Suc k" by (cases n) auto
  have q: "in_queue s = x # (xs @ 10 # ys)" using Cons.prems(1) by simp
  have c: "x \<noteq> 4" "x \<noteq> 10" "10 \<notin> set xs" "4 \<notin> set xs" "length xs < k" using Cons.prems(2-4) n by auto
  have "cons_read n out s = cons_read k (out @ [x]) (s\<lparr>in_r := in_r s + 1\<rparr>)"
    using in_pop(1,2) [OF q] c by (simp add: n Let_def)
  with Cons.IH [OF in_pop(3) [OF q] c(3-5), of "out @ [x]"] show ?case by simp
qed

lemma fold_edit_plain:
  assumes "\<forall>c \<in> set bs. c \<notin> {0, 4, 8, 10, 13, 16, 21, 0x7f}" "length l + length bs < 128"
  shows "fold edit bs ([], l) = ([], l @ bs)"
  using assms
proof (induction bs arbitrary: l)
  case (Cons b bs)
  then have "edit b ([], l) = ([], l @ [b])" by (simp add: edit_def Let_def)
  with Cons show ?case by simp
qed simp

section \<open>Properties of the console\<close>

text \<open>C27: The interrupt handler implements a line editor. For the serial port and for the
  keyboard alike, it takes every pending character (it terminates), and the bytes offered to
  readers and the line being edited become what the editor makes of them: backspace and ^U
  edit only the unfinished line, a newline, ^D or a full buffer hands the line over, and
  characters beyond 128 are dropped. The 32-bit indices may wrap around.\<close>

theorem consoleintr_refines:
  assumes "con_ok s"
  shows "(16 \<notin> set (uart_chars s) \<longrightarrow> (\<exists>t. uartintr s = Ok () t \<and> con_ok t \<and> uart_chars t = [] \<and>
       (in_queue t, in_line t) = fold edit (uart_chars s) (in_queue s, in_line s))) \<and>
     (16 \<notin> set (kbd_chars s) \<longrightarrow> (\<exists>t. kbdintr s = Ok () t \<and> con_ok t \<and> kbd_chars t = [] \<and>
       (in_queue t, in_line t) = fold edit (kbd_chars s) (in_queue s, in_line s)))"
proof -
  have "length (decode_chars sh ds) = length ds" for sh ds
    by (induction ds arbitrary: sh) (simp_all split: prod.splits)
  then have "length (kbd_chars s) < length (kbd_in s) + 1" "length (uart_chars s) < length (uart_in s) + 1"
    by (simp_all add: kbd_chars_def uart_chars_def)
  then show ?thesis unfolding uartintr_def kbdintr_def
    using uart.consoleintr_edits [OF assms] kbd.consoleintr_edits [OF assms] by blast
qed

text \<open>C28: A line of at most 126 ordinary characters typed at the serial port and ended by Enter
  is what a reader with room for it gets, with the carriage return as a newline, and
  nothing is left for the next reader.\<close>

theorem console_line_roundtrip:
  assumes "con_ok s" "in_queue s = []" "in_line s = []" "uart s" "uart_in s = bs @ [13]"
    "\<forall>c \<in> set bs. c \<notin> {0, 4, 8, 10, 13, 16, 21, 0x7f}" "length bs < 127" "length bs < n"
  shows "\<exists>t u. uartintr s = Ok () t \<and> cons_read n [] t = Ok (Some (bs @ [10])) u \<and> in_queue u = []"
proof -
  have c: "uart_chars s = bs @ [13]" using assms(4,5) by (simp add: uart_chars_def)
  have "fold edit (bs @ [13]) ([], []) = edit 13 ([], bs)" using fold_edit_plain [of bs "[]"] assms(6,7) by simp
  also have "\<dots> = (bs @ [10], [])" using assms(7) by (simp add: edit_def Let_def)
  finally have f: "fold edit (bs @ [13]) ([], []) = (bs @ [10], [])" .
  have "length (uart_chars s) < length (uart_in s) + 1" "16 \<notin> set (uart_chars s)" using assms(5,6) c by auto
  then obtain t where t: "uartintr s = Ok () t" "in_queue t = bs @ 10 # []"
    using uart.consoleintr_edits [OF assms(1), of "length (uart_in s) + 1"] assms(2,3) f unfolding uartintr_def c by auto
  have "10 \<notin> set bs" "4 \<notin> set bs" using assms(6) by auto
  from cons_read_line [OF t(2) this assms(8), of "[]"] t(1) show ?thesis by auto
qed

section \<open>Witnesses\<close>

definition ex_con :: "uchar list \<Rightarrow> con_st" where
  "ex_con inp = ide_st.extend ex_bio (con_st.fields False True True [] inp [] 0 0 (\<lambda>_. 0) (replicate 128 0)
     0xFFFFFFFE 0xFFFFFFFE 0xFFFFFFFE True)"

lemma ex_con_ok: "con_ok (ex_con i)" "in_queue (ex_con i) = []" "in_line (ex_con i) = []" "uart (ex_con i)"
    "uart_in (ex_con i) = i" "unat (crtpos (ex_con i)) = 0"
  by (simp_all add: ex_con_def ide_st.defs con_st.defs con_ok_def screen_ok_def in_ok_def in_queue_def in_line_def)

theorem cgaputc_bounds_witness:
  "\<exists>t. cgaputc 65 (ex_con []) = Ok () t \<and> unat (crtpos t) < 24 * 80 \<and> crt t 0 = 0x0741"
  using cgaputc_bounds [of "ex_con []" 65] ex_con_ok(6) [of "[]"] by auto

theorem consoleintr_refines_witness:
  "\<exists>t. uartintr (ex_con [97, 98, 8, 99, 13]) = Ok () t \<and> in_queue t = [97, 99, 10]"
  using consoleintr_refines [OF ex_con_ok(1), of "[97, 98, 8, 99, 13]"]
  by (auto simp: uart_chars_def ex_con_ok edit_def Let_def)

theorem console_line_roundtrip_witness:
  "\<exists>t u. uartintr (ex_con [108, 115, 13]) = Ok () t \<and> cons_read 100 [] t = Ok (Some [108, 115, 10]) u"
  using console_line_roundtrip [OF ex_con_ok(1-4), where bs = "[108, 115]" and n = 100] by (auto simp: ex_con_ok)

end
