(* ===== verification/Layout.thy ===== *)
theory Layout
  imports Prelude
begin

text \<open>
  The on-disk format, fs.h: how the kernel reads and writes the super block, the log header,
  inodes, block addresses and directory entries in the bytes of a block. C structures are
  stored little-endian with the offsets the compiler gives their fields.
\<close>

abbreviation (input) ROOTINO :: uint where "ROOTINO \<equiv> 1"
abbreviation (input) NDIRECT :: nat where "NDIRECT \<equiv> 12"
abbreviation (input) NINDIRECT :: nat where "NINDIRECT \<equiv> 128"
abbreviation (input) MAXFILE :: nat where "MAXFILE \<equiv> 140"
abbreviation (input) IPB :: nat where "IPB \<equiv> 8"
abbreviation (input) BPB :: nat where "BPB \<equiv> 4096"
abbreviation (input) DIRSIZ :: nat where "DIRSIZ \<equiv> 14"

section \<open>Fields\<close>

definition put_bytes :: "nat \<Rightarrow> uchar list \<Rightarrow> uchar list \<Rightarrow> uchar list" where
  "put_bytes i bs b = take i b @ bs @ drop (i + length bs) b"

definition get16 :: "uchar list \<Rightarrow> nat \<Rightarrow> ushort" where
  "get16 b i = le16 (b ! i) (b ! (i + 1))"

definition get32 :: "uchar list \<Rightarrow> nat \<Rightarrow> uint" where
  "get32 b i = le32 (b ! i) (b ! (i + 1)) (b ! (i + 2)) (b ! (i + 3))"

definition bytes16 :: "ushort \<Rightarrow> uchar list" where
  "bytes16 w = [byte_of w 0, byte_of w 1]"

definition bytes32 :: "uint \<Rightarrow> uchar list" where
  "bytes32 w = [byte_of w 0, byte_of w 1, byte_of w 2, byte_of w 3]"

definition put32 :: "nat \<Rightarrow> uint \<Rightarrow> uchar list \<Rightarrow> uchar list" where
  "put32 i w b = put_bytes i (bytes32 w) b"

lemma length_put_bytes [simp]: "i + length bs \<le> length b \<Longrightarrow> length (put_bytes i bs b) = length b"
  by (simp add: put_bytes_def)

lemma length_bytes [simp]: "length (bytes16 h) = 2" "length (bytes32 w) = 4"
  by (simp_all add: bytes16_def bytes32_def)

lemma nth_put_bytes:
  "i + length bs \<le> length b \<Longrightarrow> j < length b \<Longrightarrow>
     put_bytes i bs b ! j = (if i \<le> j \<and> j < i + length bs then bs ! (j - i) else b ! j)"
  by (auto simp: put_bytes_def nth_append min_def)

lemma put_bytes_in: "i + length bs \<le> length b \<Longrightarrow> j < length bs \<Longrightarrow> put_bytes i bs b ! (i + j) = bs ! j"
  by (simp add: nth_put_bytes)

lemma put_bytes_out: "i + length bs \<le> length b \<Longrightarrow> j < i \<or> i + length bs \<le> j \<Longrightarrow> j < length b \<Longrightarrow> put_bytes i bs b ! j = b ! j"
  by (auto simp: nth_put_bytes)

lemma get32_put32 [simp]: "i + 4 \<le> length b \<Longrightarrow> get32 (put32 i w b) i = w"
  by (simp add: get32_def put32_def nth_put_bytes bytes32_def)

lemma get32_put32_other: "i + 4 \<le> length b \<Longrightarrow> j + 4 \<le> length b \<Longrightarrow> j + 4 \<le> i \<or> i + 4 \<le> j \<Longrightarrow> get32 (put32 i w b) j = get32 b j"
  by (auto simp: get32_def put32_def nth_put_bytes)

lemma length_put32 [simp]: "i + 4 \<le> length b \<Longrightarrow> length (put32 i w b) = length b"
  by (simp add: put32_def)

lemma get16_bytes16 [simp]: "get16 (bytes16 h @ r) 0 = h"
  by (simp add: get16_def bytes16_def)

lemma get16_append: "length a = i \<Longrightarrow> get16 (a @ bytes16 h @ r) i = h"
  by (simp add: get16_def bytes16_def nth_append)

lemma get32_append: "length a = i \<Longrightarrow> get32 (a @ bytes32 w @ r) i = w"
  by (simp add: get32_def bytes32_def nth_append)

section \<open>The super block\<close>

record superblock =
  sb_size :: uint
  sb_nblocks :: uint
  sb_ninodes :: uint
  sb_nlog :: uint
  sb_logstart :: uint
  sb_inodestart :: uint
  sb_bmapstart :: uint

definition superblock_of :: "uchar list \<Rightarrow> superblock" where
  "superblock_of b = \<lparr>sb_size = get32 b 0, sb_nblocks = get32 b 4, sb_ninodes = get32 b 8, sb_nlog = get32 b 12,
     sb_logstart = get32 b 16, sb_inodestart = get32 b 20, sb_bmapstart = get32 b 24\<rparr>"

definition superblock_bytes :: "superblock \<Rightarrow> uchar list" where
  "superblock_bytes x = bytes32 (sb_size x) @ bytes32 (sb_nblocks x) @ bytes32 (sb_ninodes x) @ bytes32 (sb_nlog x) @
     bytes32 (sb_logstart x) @ bytes32 (sb_inodestart x) @ bytes32 (sb_bmapstart x)"

definition IBLOCK :: "uint \<Rightarrow> superblock \<Rightarrow> uint" where
  "IBLOCK i x = i div 8 + sb_inodestart x"

definition BBLOCK :: "uint \<Rightarrow> superblock \<Rightarrow> uint" where
  "BBLOCK b x = b div 4096 + sb_bmapstart x"

section \<open>Inodes\<close>

record dinode =
  d_type :: ushort
  d_major :: ushort
  d_minor :: ushort
  d_nlink :: ushort
  d_size :: uint
  d_addrs :: "uint list"

definition dinode_bytes :: "dinode \<Rightarrow> uchar list" where
  "dinode_bytes d = bytes16 (d_type d) @ bytes16 (d_major d) @ bytes16 (d_minor d) @ bytes16 (d_nlink d) @
     bytes32 (d_size d) @ concat (map bytes32 (d_addrs d))"

text \<open>\<open>(struct dinode*)data + i\<close>: the \<open>i\<close>th of the eight inodes of a block.\<close>

definition dinode_at :: "uchar list \<Rightarrow> nat \<Rightarrow> dinode" where
  "dinode_at b i = (let o' = 64 * i in
     \<lparr>d_type = get16 b o', d_major = get16 b (o' + 2), d_minor = get16 b (o' + 4), d_nlink = get16 b (o' + 6),
      d_size = get32 b (o' + 8), d_addrs = map (\<lambda>j. get32 b (o' + 12 + 4 * j)) [0..<NDIRECT + 1]\<rparr>)"

definition dinode_put :: "nat \<Rightarrow> dinode \<Rightarrow> uchar list \<Rightarrow> uchar list" where
  "dinode_put i d b = put_bytes (64 * i) (dinode_bytes d) b"

section \<open>Directory entries\<close>

record dirent =
  de_inum :: ushort
  de_name :: "uchar list"

definition dirent_of :: "uchar list \<Rightarrow> dirent" where
  "dirent_of b = \<lparr>de_inum = get16 b 0, de_name = take DIRSIZ (drop 2 b)\<rparr>"

definition dirent_bytes :: "dirent \<Rightarrow> uchar list" where
  "dirent_bytes d = bytes16 (de_inum d) @ de_name d"

end
