(* ===== verification/Log.thy ===== *)
theory Log
  imports Console Layout
begin

text \<open>
  The write-ahead log, log.c: a transaction's blocks stay dirty in the cache until \<open>commit\<close>
  copies them to the log, writes the log header (the commit point), installs them at home
  and clears the header; \<open>recover_from_log\<close> redoes the installation after a crash.
\<close>

section \<open>State and operations\<close>

text \<open>
  \<open>struct log\<close>. The header's count is kept as a number: a negative one on disk makes the
  loops run no time, as 0 does.
\<close>

record log_st = con_st +
  log_start :: uint
  log_size :: cint
  outstanding :: int
  committing :: bool
  log_dev :: uint
  lh_n :: nat
  lh_block :: "uint list"

definition readsb :: "uint \<Rightarrow> 'z log_st_scheme \<Rightarrow> (superblock, 'z log_st_scheme) res" where
  "readsb dev s =
     rbind (bread dev 1 s) (\<lambda>bp s.
       let x = superblock_of (data (bufs s bp)) in rbind (brelse bp s) (\<lambda>_ s. Ok x s))"

text \<open>Copying the content of one buffer to another.\<close>

definition copy_buf :: "nat \<Rightarrow> nat \<Rightarrow> 'z log_st_scheme \<Rightarrow> 'z log_st_scheme" where
  "copy_buf dst src s = bupd dst (\<lambda>x. x\<lparr>data := data (bufs s src)\<rparr>) s"

definition install_block :: "nat \<Rightarrow> 'z log_st_scheme \<Rightarrow> (unit, 'z log_st_scheme) res" where
  "install_block tail s =
     rbind (bread (log_dev s) (log_start s + of_nat tail + 1) s) (\<lambda>lbuf s.
     rbind (bread (log_dev s) (lh_block s ! tail) s) (\<lambda>dbuf s.
     rbind (bwrite dbuf (copy_buf dbuf lbuf s)) (\<lambda>_ s.
     rbind (brelse lbuf s) (\<lambda>_ s. brelse dbuf s))))"

definition install_trans :: "'z log_st_scheme \<Rightarrow> (unit, 'z log_st_scheme) res" where
  "install_trans s = rfor [0..<lh_n s] install_block s"

text \<open>A count beyond LOGSIZE would make \<open>read_head\<close> write past the end of \<open>log.lh.block\<close>.\<close>

definition read_head :: "'z log_st_scheme \<Rightarrow> (unit, 'z log_st_scheme) res" where
  "read_head s =
     rbind (bread (log_dev s) (log_start s) s) (\<lambda>b s.
       let lh = data (bufs s b); n = nat (sint (get32 lh 0))
       in if n > LOGSIZE then Panic ''trap''
          else brelse b (s\<lparr>lh_n := n, lh_block := map (\<lambda>i. get32 lh (4 + 4 * i)) [0..<n] @ drop n (lh_block s)\<rparr>))"

definition put_head :: "nat \<Rightarrow> uint list \<Rightarrow> block \<Rightarrow> block" where
  "put_head n bl b = fold (\<lambda>i b. put32 (4 + 4 * i) (bl ! i) b) [0..<n] (put32 0 (of_nat n) b)"

definition write_head :: "'z log_st_scheme \<Rightarrow> (unit, 'z log_st_scheme) res" where
  "write_head s =
     rbind (bread (log_dev s) (log_start s) s) (\<lambda>b s.
     rbind (bwrite b (bupd b (\<lambda>x. x\<lparr>data := put_head (lh_n s) (lh_block s) (data x)\<rparr>) s)) (\<lambda>_ s.
     brelse b s))"

definition recover_from_log :: "'z log_st_scheme \<Rightarrow> (unit, 'z log_st_scheme) res" where
  "recover_from_log s =
     rbind (read_head s) (\<lambda>_ s. rbind (install_trans s) (\<lambda>_ s. write_head (s\<lparr>lh_n := 0\<rparr>)))"

definition initlog :: "uint \<Rightarrow> 'z log_st_scheme \<Rightarrow> (unit, 'z log_st_scheme) res" where
  "initlog dev s =
     rbind (readsb dev s) (\<lambda>x s.
       recover_from_log (s\<lparr>log_start := sb_logstart x, log_size := sb_nlog x, log_dev := dev\<rparr>))"

definition begin_op :: "'z log_st_scheme \<Rightarrow> (unit, 'z log_st_scheme) res" where
  "begin_op s =
     (if committing s then sleep ChLog s
      else if int (lh_n s) + (outstanding s + 1) * int MAXOPBLOCKS > int LOGSIZE then sleep ChLog s
      else Ok () (s\<lparr>outstanding := outstanding s + 1\<rparr>))"

definition write_log_block :: "nat \<Rightarrow> 'z log_st_scheme \<Rightarrow> (unit, 'z log_st_scheme) res" where
  "write_log_block tail s =
     rbind (bread (log_dev s) (log_start s + of_nat tail + 1) s) (\<lambda>to s.
     rbind (bread (log_dev s) (lh_block s ! tail) s) (\<lambda>from s.
     rbind (bwrite to (copy_buf to from s)) (\<lambda>_ s.
     rbind (brelse from s) (\<lambda>_ s. brelse to s))))"

definition write_log :: "'z log_st_scheme \<Rightarrow> (unit, 'z log_st_scheme) res" where
  "write_log s = rfor [0..<lh_n s] write_log_block s"

definition commit :: "'z log_st_scheme \<Rightarrow> (unit, 'z log_st_scheme) res" where
  "commit s =
     (if lh_n s > 0
      then rbind (write_log s) (\<lambda>_ s. rbind (write_head s) (\<lambda>_ s. rbind (install_trans s) (\<lambda>_ s.
           write_head (s\<lparr>lh_n := 0\<rparr>))))
      else Ok () s)"

definition end_op :: "'z log_st_scheme \<Rightarrow> (unit, 'z log_st_scheme) res" where
  "end_op s =
     (let s = s\<lparr>outstanding := outstanding s - 1\<rparr>
      in if committing s then Panic ''log.committing''
         else if outstanding s = 0
         then rbind (commit (s\<lparr>committing := True\<rparr>)) (\<lambda>_ s. Ok () (wakeup ChLog (s\<lparr>committing := False\<rparr>)))
         else Ok () (wakeup ChLog s))"

definition log_write :: "nat \<Rightarrow> 'z log_st_scheme \<Rightarrow> (unit, 'z log_st_scheme) res" where
  "log_write b s =
     (if lh_n s \<ge> LOGSIZE \<or> int (lh_n s) \<ge> sint (log_size s) - 1 then Panic ''too big a transaction''
      else if outstanding s < 1 then Panic ''log_write outside of trans''
      else
        (let bno = blockno (bufs s b);
             i = (case find_idx (\<lambda>x. x = bno) (take (lh_n s) (lh_block s)) 0 of Some i \<Rightarrow> i | None \<Rightarrow> lh_n s);
             s = s\<lparr>lh_block := (lh_block s)[i := bno], lh_n := if i = lh_n s then lh_n s + 1 else lh_n s\<rparr>
         in Ok () (bupd b (\<lambda>x. x\<lparr>bdirty := True\<rparr>) s)))"

end
