(* ===== verification/Recovery.thy ===== *)
theory Recovery
  imports Log
begin

text \<open>
  Correctness of the log: the cache operations as the log uses them, the loops of
  \<open>commit\<close> and \<open>recover_from_log\<close> block by block, the on-disk header, and crash
  safety of a transaction.
\<close>

section \<open>The cache operations the log uses\<close>

lemma bstep_log:
  fixes s :: "'z log_st_scheme"
  assumes "bstep s t"
  shows "log_start t = log_start s" "log_size t = log_size s" "log_dev t = log_dev s" "lh_n t = lh_n s"
    "lh_block t = lh_block s" "outstanding t = outstanding s" "committing t = committing s"
  using assms by (auto elim!: bstepE)

text \<open>\<open>brelse\<close> without the order of the list.\<close>

lemma brelse_held:
  assumes "binv pd H s" "b \<in> H" "bdirty (bufs s b) \<or> data (bufs s b) = disk s 1 (sector_of (bufs s b))"
  obtains t where "brelse b s = Ok () t" "binv pd (H - {b}) t" "bstep s t" "bview t = bview s" "dhist t = dhist s"
    "\<forall>c. c \<noteq> b \<longrightarrow> content (bufs t c) = content (bufs s c)" "dirty (bufs t) = dirty (bufs s)"
proof -
  have "\<exists>l. lru (bufs s) l" using assms(1) by (simp add: binv_def cache_ok_def)
  then obtain l where l: "lru (bufs s) l" by blast
  then have "b \<in> set l" using binv_held(1) [OF assms(1,2)] by (simp add: lru_def)
  then obtain l1 l2 where "lru (bufs s) (l1 @ b # l2)" using l by (metis split_list)
  from brelse_ok [OF assms this] show thesis using that by metis
qed

lemma bwrite_held:
  assumes "binv pd H s" "b \<in> H"
  obtains t where "bwrite b s = Ok () t" "binv pd H t" "bstep s t" "bview t = bview s"
    "dhist t = dhist s @ [(1, sector_of (bufs s b), data (bufs s b))]"
    "content (bufs t b) = content ((bufs s b)\<lparr>bdirty := False\<rparr>)" "\<forall>c. c \<noteq> b \<longrightarrow> content (bufs t c) = content (bufs s c)"
  using bwrite_ok [OF assms] by metis

lemma disk_same: "bstep s t \<Longrightarrow> dhist t = dhist s \<Longrightarrow> disk t = disk s"
  using bstep_fields [of s t] by (simp add: disk_def)

lemma disk_write: "bstep s t \<Longrightarrow> dhist t = dhist s @ [(1, n, x)] \<Longrightarrow> disk t 1 = (disk s 1)(n := x)"
  using bstep_fields [of s t] by (simp add: disk_def write_to_def)

text \<open>A block that is neither dirty nor held has the disk's content.\<close>

lemma view_clean:
  assumes "binv pd H s" "n \<notin> dirty (bufs s)" "\<forall>b \<in> H. sector_of (bufs s b) \<noteq> n"
  shows "bview s n = disk s 1 n"
proof (cases "find (\<lambda>b. bdev (bufs s b) = 1 \<and> sector_of (bufs s b) = n) [0..<NBUF]")
  case (Some b)
  have b: "b < NBUF" "bdev (bufs s b) = 1" "sector_of (bufs s b) = n" using find_in [OF Some] by (auto simp del: upt_rec_numeral)
  have "b \<notin> H" "\<not> bdirty (bufs s b)" using assms(2,3) b by (auto simp: dirty_def)
  then have "data (bufs s b) = disk s 1 n" using assms(1) b by (auto simp: binv_def cache_ok_def buf_ok_def)
  with Some show ?thesis by (simp add: bview_def view_def)
qed (simp add: bview_def view_def)

lemma bwrite_dirty:
  assumes "binv pd H s" "b \<in> H" "content (bufs t b) = content ((bufs s b)\<lparr>bdirty := False\<rparr>)"
    "\<forall>c. c \<noteq> b \<longrightarrow> content (bufs t c) = content (bufs s c)"
  shows "dirty (bufs t) = dirty (bufs s) - {sector_of (bufs s b)}"
proof -
  have u: "uniq (bufs s)" using binv_uniq [OF assms(1)] .
  note h = binv_held(1,2) [OF assms(1,2)]
  have c: "bdirty (bufs t c) = (c \<noteq> b \<and> bdirty (bufs s c))" "sector_of (bufs t c) = sector_of (bufs s c)" for c
    using assms(3) assms(4) by (cases "c = b"; simp add: content_def sector_of_def)+
  have d: "sector_of (bufs s c) \<noteq> sector_of (bufs s b)" if "c < NBUF" "bdirty (bufs s c)" "c \<noteq> b" for c
  proof -
    have "bdev (bufs s c) = 1" using assms(1) that by (auto simp: binv_def cache_ok_def buf_ok_def)
    with u h that show ?thesis by (auto simp: uniq_def sector_inj)
  qed
  show ?thesis using c d by (auto simp: dirty_def)
qed

text \<open>There is a buffer to spare while fewer blocks are dirty than there are buffers.\<close>

lemma clean_buffer:
  assumes "binv pd H s" "finite D" "card (dirty (bufs s) \<union> D) < NBUF" "sector_of ` (bufs s ` H) \<subseteq> D"
  shows "\<exists>c < NBUF. c \<notin> H \<and> \<not> bdirty (bufs s c)"
proof (rule ccontr)
  assume h: "\<not> (\<exists>c < NBUF. c \<notin> H \<and> \<not> bdirty (bufs s c))"
  have dev: "bdev (bufs s c) = 1" if "c < NBUF" for c
    using that h assms(1) binv_held(2) [OF assms(1), of c] by (auto simp: binv_def cache_ok_def buf_ok_def)
  have "inj_on (\<lambda>c. sector_of (bufs s c)) {..<NBUF}"
    using binv_uniq [OF assms(1)] dev by (auto simp: inj_on_def uniq_def sector_inj)
  then have n: "card ((\<lambda>c. sector_of (bufs s c)) ` {..<NBUF}) = NBUF" by (simp add: card_image)
  have sub: "(\<lambda>c. sector_of (bufs s c)) ` {..<NBUF} \<subseteq> dirty (bufs s) \<union> D"
    using h assms(4) unfolding dirty_def by blast
  have "finite (dirty (bufs s) \<union> D)" using assms(2) by (simp add: dirty_def)
  from card_mono [OF this sub] n assms(3) show False by simp
qed

section \<open>Copying one block over another\<close>

text \<open>Reading two blocks; the second is dirty, and so cached, or there are buffers to spare.\<close>

lemma two_reads:
  assumes "binv pd {} s" "unat m < FSSIZE" "unat n < FSSIZE" "m \<noteq> n" "card (dirty (bufs s)) < NBUF"
    "unat n \<in> dirty (bufs s) \<or> card (dirty (bufs s)) + 1 < NBUF"
  obtains b s1 c t where "bread 1 m s = Ok b s1" "bread 1 n s1 = Ok c t" "b \<noteq> c" "binv pd {b, c} t" "bstep s s1" "bstep s t"
    "dhist t = dhist s" "bview t = bview s" "dirty (bufs t) = dirty (bufs s)"
    "blockno (bufs t b) = m" "blockno (bufs t c) = n" "data (bufs t b) = bview s (unat m)" "data (bufs t c) = bview s (unat n)"
    "bdirty (bufs t b) \<longleftrightarrow> unat m \<in> dirty (bufs s)" "bdirty (bufs t c) \<longleftrightarrow> unat n \<in> dirty (bufs s)"
proof -
  have "\<exists>c < NBUF. c \<notin> {} \<and> \<not> bdirty (bufs s c)" using clean_buffer [OF assms(1), of "{}"] assms(5) by simp
  then obtain b u where b: "bread 1 m s = Ok b u" "b < NBUF" "binv pd (insert b {}) u" "bstep s u" "dhist u = dhist s"
    "bview u = bview s" "blockno (bufs u b) = m" "data (bufs u b) = bview s (unat m)" "dirty (bufs u) = dirty (bufs s)"
    "bdirty (bufs u b) \<longleftrightarrow> unat m \<in> dirty (bufs s)"
    using bread_ok [OF assms(1,2)] by (metis empty_iff)
  have "unat n \<in> dirty (bufs u) \<or> (\<exists>c < NBUF. c \<notin> {b} \<and> \<not> bdirty (bufs u c))"
  proof (cases "unat n \<in> dirty (bufs s)")
    case False
    then have "card (dirty (bufs u) \<union> {sector_of (bufs u b)}) < NBUF"
      using assms(6) b(9) card_insert_le_m1 [of "Suc (card (dirty (bufs s)))" "dirty (bufs s)" "sector_of (bufs u b)"] by simp
    then show ?thesis using clean_buffer [OF b(3), of "{sector_of (bufs u b)}"] by simp
  qed (use b(9) in simp)
  then obtain c t where c: "bread 1 n u = Ok c t" "c \<notin> {b}" "binv pd (insert c {b}) t" "bstep u t" "dhist t = dhist u"
    "bview t = bview u" "blockno (bufs t c) = n" "data (bufs t c) = bview u (unat n)"
    "keeps_held {b} (bufs u) (bufs t)" "dirty (bufs t) = dirty (bufs u)" "bdirty (bufs t c) \<longleftrightarrow> unat n \<in> dirty (bufs u)"
    using bread_ok [OF b(3) assms(3)] b(7) assms(4) by (metis singletonD)
  have k: "content (bufs t b) = content (bufs u b)" using c(9) by (simp add: keeps_held_def)
  have "insert c {b} = {b, c}" by auto
  then show thesis using b c k bstep_trans [OF b(4) c(4)]
    by (intro that [OF b(1) c(1)]) (simp_all add: content_def)
qed

lemma copy_write:
  fixes s :: "'z log_st_scheme"
  assumes "binv pd {x, y} s" "x \<noteq> y"
  obtains t where "bwrite x (copy_buf x y s) = Ok () t" "binv pd {x, y} t" "bstep s t"
    "bview t = (bview s)(sector_of (bufs s x) := data (bufs s y))"
    "dhist t = dhist s @ [(1, sector_of (bufs s x), data (bufs s y))]"
    "dirty (bufs t) = dirty (bufs s) - {sector_of (bufs s x)}" "content (bufs t y) = content (bufs s y)"
    "data (bufs t x) = data (bufs s y)" "blockno (bufs t x) = blockno (bufs s x)"
proof -
  let ?f = "\<lambda>z. z\<lparr>data := data (bufs s y)\<rparr>"
  define u where "u = copy_buf x y s"
  have u: "u = bupd x ?f s" by (simp add: u_def copy_buf_def)
  have len: "length (data (bufs s y)) = BSIZE" "bvalid (bufs s x)"
    using binv_held(6) [OF assms(1), of y] binv_held(3) [OF assms(1), of x] by simp_all
  note b = binv_bupd [OF assms(1), of x ?f, folded u]
  have b1: "binv pd {x, y} u" "bstep s u" "bview u = (bview s)(sector_of (bufs s x) := data (bufs s y))"
    using b len by (simp_all add: same_buf_def)
  have bu: "bufs u = (bufs s)(x := ?f (bufs s x))" "dhist u = dhist s" by (simp_all add: u bupd_def)
  have du: "dirty (bufs u) = dirty (bufs s)" by (auto simp: bu dirty_def sector_of_def)
  obtain t where t: "bwrite x u = Ok () t" "binv pd {x, y} t" "bstep u t" "bview t = bview u"
    "dhist t = dhist u @ [(1, sector_of (bufs u x), data (bufs u x))]"
    "content (bufs t x) = content ((bufs u x)\<lparr>bdirty := False\<rparr>)" "\<forall>c. c \<noteq> x \<longrightarrow> content (bufs t c) = content (bufs u c)"
    by (rule bwrite_held [OF b1(1) insertI1])
  have dt: "dirty (bufs t) = dirty (bufs u) - {sector_of (bufs u x)}"
    using bwrite_dirty [OF b1(1) _ t(6,7)] by blast
  have sx: "sector_of (bufs u x) = sector_of (bufs s x)" by (simp add: bu sector_of_def)
  show thesis
  proof (rule that [of t])
    show "bwrite x (copy_buf x y s) = Ok () t" using t(1) by (simp add: u_def)
    show "bstep s t" using bstep_trans [OF b1(2) t(3)] .
    show "content (bufs t y) = content (bufs s y)" using t(7) assms(2) by (simp add: bu)
    show "data (bufs t x) = data (bufs s y)" "blockno (bufs t x) = blockno (bufs s x)"
      using t(6) by (simp_all add: bu content_def)
  qed (use t(2,4,5) b1(3) bu sx dt du in simp_all)
qed

lemma release_two:
  assumes "binv pd {x, y} s" "x \<noteq> y" "bdirty (bufs s x) \<or> data (bufs s x) = disk s 1 (sector_of (bufs s x))"
    "bdirty (bufs s y) \<or> data (bufs s y) = disk s 1 (sector_of (bufs s y))"
  obtains t where "rbind (brelse x s) (\<lambda>_ s. brelse y s) = Ok () t" "binv pd {} t" "bstep s t" "bview t = bview s"
    "dhist t = dhist s" "dirty (bufs t) = dirty (bufs s)"
proof -
  obtain u where u: "brelse x s = Ok () u" "binv pd ({x, y} - {x}) u" "bstep s u" "bview u = bview s" "dhist u = dhist s"
    "\<forall>c. c \<noteq> x \<longrightarrow> content (bufs u c) = content (bufs s c)" "dirty (bufs u) = dirty (bufs s)"
    by (rule brelse_held [OF assms(1) insertI1 assms(3)])
  have h: "binv pd {y} u" using u(2) assms(2) by (simp add: insert_Diff_if)
  have "content (bufs u y) = content (bufs s y)" using u(6) assms(2) by simp
  then have "bdirty (bufs u y) \<or> data (bufs u y) = disk u 1 (sector_of (bufs u y))"
    using assms(4) disk_same [OF u(3,5)] by (simp add: content_def sector_of_def)
  then obtain t where t: "brelse y u = Ok () t" "binv pd ({y} - {y}) t" "bstep u t" "bview t = bview u" "dhist t = dhist u"
    "\<forall>c. c \<noteq> y \<longrightarrow> content (bufs t c) = content (bufs u c)" "dirty (bufs t) = dirty (bufs u)"
    by (rule brelse_held [OF h singletonI])
  show thesis by (rule that [of t]) (use t u bstep_trans [OF u(3) t(3)] in simp_all)
qed

section \<open>The effect of the parts of a commit\<close>

text \<open>
  A step that performs the block writes \<open>ws\<close> on the disk and on the content the kernel sees,
  and leaves \<open>D\<close> dirty.
\<close>

definition upd_block :: "nat \<times> block \<Rightarrow> (nat \<Rightarrow> block) \<Rightarrow> nat \<Rightarrow> block" where
  "upd_block w V = V(fst w := snd w)"

definition writes :: "cint \<Rightarrow> (nat \<times> block) list \<Rightarrow> nat set \<Rightarrow> 'z log_st_scheme \<Rightarrow> 'z log_st_scheme \<Rightarrow> bool" where
  "writes pd ws D s t \<longleftrightarrow> bstep s t \<and> binv pd {} t \<and> bview t = fold upd_block ws (bview s) \<and>
     dhist t = dhist s @ map (Pair 1) ws \<and> dirty (bufs t) = D"

lemma writes_trans: "writes pd ws D s t \<Longrightarrow> writes pd vs E t u \<Longrightarrow> writes pd (ws @ vs) E s u"
  using bstep_trans by (auto simp: writes_def)

lemma writes_refl: "binv pd {} s \<Longrightarrow> writes pd [] (dirty (bufs s)) s s"
  by (simp add: writes_def)

lemma fold_write_disk: "fold write_to (map (Pair 1) ws) D 1 = fold upd_block ws (D 1)"
  by (induction ws arbitrary: D) (simp_all add: write_to_def upd_block_def split: prod.splits)

lemma writes_disk: "writes pd ws D s t \<Longrightarrow> disk t 1 = fold upd_block ws (disk s 1)"
  using fold_write_disk [of ws "disk s"] bstep_fields [of s t] by (simp add: writes_def disk_def)

lemma write_log_block_ok:
  fixes s :: "'z log_st_scheme"
  assumes "binv pd {} s" "log_dev s = 1" "m = log_start s + of_nat i + 1" "n = lh_block s ! i" "unat m < FSSIZE"
    "unat n < FSSIZE" "m \<noteq> n" "unat m \<notin> dirty (bufs s)" "unat n \<in> dirty (bufs s)" "card (dirty (bufs s)) < NBUF"
  shows "\<exists>t. write_log_block i s = Ok () t \<and> writes pd [(unat m, bview s (unat n))] (dirty (bufs s)) s t"
proof -
  obtain b s1 c u where u: "bread 1 m s = Ok b s1" "bread 1 n s1 = Ok c u" "b \<noteq> c" "binv pd {b, c} u" "bstep s s1" "bstep s u"
    "dhist u = dhist s" "bview u = bview s" "dirty (bufs u) = dirty (bufs s)"
    "blockno (bufs u b) = m" "blockno (bufs u c) = n" "data (bufs u b) = bview s (unat m)" "data (bufs u c) = bview s (unat n)"
    "bdirty (bufs u b) \<longleftrightarrow> unat m \<in> dirty (bufs s)" "bdirty (bufs u c) \<longleftrightarrow> unat n \<in> dirty (bufs s)"
    by (rule two_reads [OF assms(1,5,6,7,10) disjI1 [OF assms(9)]])
  obtain v where v: "bwrite b (copy_buf b c u) = Ok () v" "binv pd {b, c} v" "bstep u v"
    "bview v = (bview u)(sector_of (bufs u b) := data (bufs u c))"
    "dhist v = dhist u @ [(1, sector_of (bufs u b), data (bufs u c))]"
    "dirty (bufs v) = dirty (bufs u) - {sector_of (bufs u b)}" "content (bufs v c) = content (bufs u c)"
    "data (bufs v b) = data (bufs u c)" "blockno (bufs v b) = blockno (bufs u b)"
    by (rule copy_write [OF u(4,3)])
  have sb: "sector_of (bufs u b) = unat m" "sector_of (bufs v b) = unat m" using u(10) v(9) by (simp_all add: sector_of_def)
  have "disk v 1 (unat m) = data (bufs v b)" using disk_write [OF v(3,5)] v(8) sb(1) by simp
  then have rel: "bdirty (bufs v b) \<or> data (bufs v b) = disk v 1 (sector_of (bufs v b))" using sb(2) by simp
  have bd: "bdirty (bufs v c)" using v(7) u(15) assms(9) by (simp add: content_def)
  have sw: "binv pd {c, b} v" using v(2) by (simp add: insert_commute)
  obtain t where t: "rbind (brelse c v) (\<lambda>_ s. brelse b s) = Ok () t" "binv pd {} t" "bstep v t" "bview t = bview v"
    "dhist t = dhist v" "dirty (bufs t) = dirty (bufs v)"
    by (rule release_two [OF sw not_sym [OF u(3)] disjI1 [OF bd] rel])
  have "write_log_block i s = Ok () t"
    using assms(2-4) u(1,2) v(1) t(1) bstep_log [OF u(5)] by (simp add: write_log_block_def)
  moreover have "writes pd [(unat m, bview s (unat n))] (dirty (bufs s)) s t"
    using t v u assms(8) sb(1) bstep_trans [OF u(6) bstep_trans [OF v(3) t(3)]]
    by (simp add: writes_def upd_block_def)
  ultimately show ?thesis by blast
qed

lemma install_block_ok:
  fixes s :: "'z log_st_scheme"
  assumes "binv pd {} s" "log_dev s = 1" "m = log_start s + of_nat i + 1" "n = lh_block s ! i" "unat m < FSSIZE"
    "unat n < FSSIZE" "m \<noteq> n" "unat m \<notin> dirty (bufs s)" "card (dirty (bufs s)) < NBUF"
    "unat n \<in> dirty (bufs s) \<or> card (dirty (bufs s)) + 1 < NBUF"
  shows "\<exists>t. install_block i s = Ok () t \<and> writes pd [(unat n, bview s (unat m))] (dirty (bufs s) - {unat n}) s t"
proof -
  obtain b s1 c u where u: "bread 1 m s = Ok b s1" "bread 1 n s1 = Ok c u" "b \<noteq> c" "binv pd {b, c} u" "bstep s s1" "bstep s u"
    "dhist u = dhist s" "bview u = bview s" "dirty (bufs u) = dirty (bufs s)"
    "blockno (bufs u b) = m" "blockno (bufs u c) = n" "data (bufs u b) = bview s (unat m)" "data (bufs u c) = bview s (unat n)"
    "bdirty (bufs u b) \<longleftrightarrow> unat m \<in> dirty (bufs s)" "bdirty (bufs u c) \<longleftrightarrow> unat n \<in> dirty (bufs s)"
    by (rule two_reads [OF assms(1,5,6,7,9,10)])
  have sw: "binv pd {c, b} u" using u(4) by (simp add: insert_commute)
  obtain v where v: "bwrite c (copy_buf c b u) = Ok () v" "binv pd {c, b} v" "bstep u v"
    "bview v = (bview u)(sector_of (bufs u c) := data (bufs u b))"
    "dhist v = dhist u @ [(1, sector_of (bufs u c), data (bufs u b))]"
    "dirty (bufs v) = dirty (bufs u) - {sector_of (bufs u c)}" "content (bufs v b) = content (bufs u b)"
    "data (bufs v c) = data (bufs u b)" "blockno (bufs v c) = blockno (bufs u c)"
    by (rule copy_write [OF sw not_sym [OF u(3)]])
  have sc: "sector_of (bufs u c) = unat n" "sector_of (bufs v c) = unat n" "sector_of (bufs v b) = unat m"
    using u(10,11) v(7,9) by (simp_all add: sector_of_def content_def)
  have d: "disk v 1 = (disk u 1)(unat n := data (bufs u b))" using disk_write [OF v(3,5)] sc(1) by simp
  have relc: "bdirty (bufs v c) \<or> data (bufs v c) = disk v 1 (sector_of (bufs v c))" using d v(8) sc(2) by simp
  have "bview s (unat m) = disk s 1 (unat m)" using view_clean [OF assms(1,8)] by simp
  then have "data (bufs v b) = disk v 1 (unat m)"
    using d u(12) v(7) assms(7) disk_same [OF u(6,7)] by (simp add: content_def)
  then have relb: "bdirty (bufs v b) \<or> data (bufs v b) = disk v 1 (sector_of (bufs v b))" using sc(3) by simp
  have sv: "binv pd {b, c} v" using v(2) by (simp add: insert_commute)
  obtain t where t: "rbind (brelse b v) (\<lambda>_ s. brelse c s) = Ok () t" "binv pd {} t" "bstep v t" "bview t = bview v"
    "dhist t = dhist v" "dirty (bufs t) = dirty (bufs v)"
    by (rule release_two [OF sv u(3) relb relc])
  have "install_block i s = Ok () t"
    using assms(2-4) u(1,2) v(1) t(1) bstep_log [OF u(5)] by (simp add: install_block_def)
  moreover have "writes pd [(unat n, bview s (unat m))] (dirty (bufs s) - {unat n}) s t"
    using t v u sc(1) bstep_trans [OF u(6) bstep_trans [OF v(3) t(3)]] by (simp add: writes_def upd_block_def)
  ultimately show ?thesis by blast
qed

text \<open>Reading a clean block and giving it back, with or without writing new data.\<close>

lemma read_release:
  fixes s :: "'z log_st_scheme"
  assumes "binv pd {} s" "unat n < FSSIZE" "unat n \<notin> dirty (bufs s)" "card (dirty (bufs s)) < NBUF"
  obtains b u where "bread 1 n s = Ok b u" "binv pd {b} u" "bstep s u" "dhist u = dhist s" "bview u = bview s" "dirty (bufs u) = dirty (bufs s)"
    "blockno (bufs u b) = n" "data (bufs u b) = bview s (unat n)" "data (bufs u b) = disk u 1 (sector_of (bufs u b))"
proof -
  have "\<exists>c < NBUF. c \<notin> {} \<and> \<not> bdirty (bufs s c)" using clean_buffer [OF assms(1), of "{}"] assms(4) by simp
  then obtain b u where b: "bread 1 n s = Ok b u" "binv pd (insert b {}) u" "bstep s u" "dhist u = dhist s"
    "bview u = bview s" "blockno (bufs u b) = n" "data (bufs u b) = bview s (unat n)" "dirty (bufs u) = dirty (bufs s)"
    using bread_ok [OF assms(1,2)] by (metis empty_iff)
  have "bview s (unat n) = disk s 1 (unat n)" using view_clean [OF assms(1,3)] by simp
  then have c: "data (bufs u b) = disk u 1 (sector_of (bufs u b))" using b(6,7) disk_same [OF b(3,4)] by (simp add: sector_of_def)
  show thesis by (rule that [OF b(1) b(2) b(3,4,5,8,6,7) c])
qed

lemma length_put_head: "length b = 512 \<Longrightarrow> n \<le> LOGSIZE \<Longrightarrow> length (put_head n bl b) = 512"
proof -
  assume b: "length b = 512" "n \<le> LOGSIZE"
  have "\<forall>i \<in> set is. i < LOGSIZE \<Longrightarrow> length c = 512 \<Longrightarrow> length (fold (\<lambda>i b. put32 (4 + 4 * i) (bl ! i) b) is c) = 512" for "is" c
    by (induction "is" arbitrary: c) auto
  then show ?thesis using b by (simp add: put_head_def)
qed

lemma write_head_ok:
  fixes s :: "'z log_st_scheme"
  assumes "binv pd {} s" "log_dev s = 1" "unat (log_start s) < FSSIZE" "unat (log_start s) \<notin> dirty (bufs s)"
    "card (dirty (bufs s)) < NBUF" "lh_n s \<le> LOGSIZE"
  shows "\<exists>t. write_head s = Ok () t \<and>
     writes pd [(unat (log_start s), put_head (lh_n s) (lh_block s) (bview s (unat (log_start s))))] (dirty (bufs s)) s t"
proof -
  let ?st = "unat (log_start s)" and ?f = "\<lambda>x. x\<lparr>data := put_head (lh_n s) (lh_block s) (data x)\<rparr>"
  obtain b u where u: "bread 1 (log_start s) s = Ok b u" "binv pd {b} u" "bstep s u" "dhist u = dhist s" "bview u = bview s"
    "dirty (bufs u) = dirty (bufs s)" "blockno (bufs u b) = log_start s" "data (bufs u b) = bview s ?st"
    "data (bufs u b) = disk u 1 (sector_of (bufs u b))"
    by (rule read_release [OF assms(1,3,4,5)])
  note lg = bstep_log [OF u(3)]
  have len: "length (put_head (lh_n s) (lh_block s) (data (bufs u b))) = 512"
    using binv_held(6) [OF u(2), of b] length_put_head assms(6) by simp
  have sb: "sector_of (bufs u b) = ?st" using u(7) by (simp add: sector_of_def)
  define v where "v = bupd b ?f u"
  have "same_buf (bufs u b) (?f (bufs u b))" "bvalid (?f (bufs u b))" "length (data (?f (bufs u b))) = BSIZE"
    using len binv_held(3) [OF u(2), of b] by (simp_all add: same_buf_def)
  note bv = binv_bupd [where f = ?f, OF u(2) singletonI this, folded v_def]
  have vb: "bufs v = (bufs u)(b := ?f (bufs u b))" "dhist v = dhist u" by (simp_all add: v_def bupd_def)
  have dv: "dirty (bufs v) = dirty (bufs u)" by (auto simp: vb dirty_def sector_of_def)
  obtain w where w: "bwrite b v = Ok () w" "binv pd {b} w" "bstep v w" "bview w = bview v"
    "dhist w = dhist v @ [(1, sector_of (bufs v b), data (bufs v b))]"
    "content (bufs w b) = content ((bufs v b)\<lparr>bdirty := False\<rparr>)" "\<forall>c. c \<noteq> b \<longrightarrow> content (bufs w c) = content (bufs v c)"
    by (rule bwrite_held [OF bv(1) singletonI])
  have dw: "dirty (bufs w) = dirty (bufs s)" using bwrite_dirty [OF bv(1) _ w(6,7)] dv u(6) assms(4) sb by (simp add: vb sector_of_def)
  have "data (bufs w b) = disk w 1 (sector_of (bufs w b))"
    using disk_write [OF w(3,5)] w(6) by (simp add: content_def sector_of_def)
  then obtain t where t: "brelse b w = Ok () t" "binv pd ({b} - {b}) t" "bstep w t" "bview t = bview w" "dhist t = dhist w"
    "\<forall>c. c \<noteq> b \<longrightarrow> content (bufs t c) = content (bufs w c)" "dirty (bufs t) = dirty (bufs w)"
    by (rule brelse_held [OF w(2) singletonI disjI2])
  have "write_head s = Ok () t"
    using u(1) w(1) t(1) assms(2) lg by (simp add: write_head_def v_def)
  moreover have "writes pd [(?st, put_head (lh_n s) (lh_block s) (bview s ?st))] (dirty (bufs s)) s t"
    using t w bv vb u sb dw bstep_trans [OF u(3) bstep_trans [OF bv(2) bstep_trans [OF w(3) t(3)]]]
    by (simp add: writes_def upd_block_def sector_of_def)
  ultimately show ?thesis by blast
qed

section \<open>Transactions\<close>

definition log_area :: "'z log_st_scheme \<Rightarrow> nat set" where
  "log_area s = {unat (log_start s)..<unat (log_start s) + unat (log_size s)}"

text \<open>The home blocks of the blocks in the log.\<close>

definition homes :: "'z log_st_scheme \<Rightarrow> nat list" where
  "homes s = map unat (take (lh_n s) (lh_block s))"

text \<open>
  The log lies on the disk with room for a header and the logged blocks, and these are
  different blocks of the disk outside the log.
\<close>

definition log_geo :: "'z log_st_scheme \<Rightarrow> bool" where
  "log_geo s \<longleftrightarrow> log_dev s = 1 \<and> length (lh_block s) = LOGSIZE \<and> lh_n s < LOGSIZE \<and> lh_n s < unat (log_size s) \<and>
     unat (log_start s) + unat (log_size s) \<le> FSSIZE \<and> distinct (homes s) \<and>
     (\<forall>h \<in> set (homes s). h < FSSIZE \<and> h \<notin> log_area s)"

lemma bstep_geo: "bstep s t \<Longrightarrow> log_geo t = log_geo s" "bstep s t \<Longrightarrow> homes t = homes s" "bstep s t \<Longrightarrow> log_area t = log_area s"
  for s :: "'z log_st_scheme"
  using bstep_log [of s t] by (simp_all add: log_geo_def homes_def log_area_def)

lemma length_homes: "log_geo s \<Longrightarrow> length (homes s) = lh_n s"
  by (simp add: log_geo_def homes_def)

lemma geo_block:
  assumes "log_geo s" "i < lh_n s"
  shows "unat (log_start s + of_nat i + 1) = unat (log_start s) + 1 + i" "unat (lh_block s ! i) = homes s ! i"
    "unat (log_start s + of_nat i + 1) < FSSIZE" "homes s ! i < FSSIZE" "unat (log_start s) + 1 + i \<in> log_area s"
    "homes s ! i \<in> set (homes s)" "homes s ! i \<notin> log_area s"
proof -
  have b: "unat (log_start s) + 1 + i < 1000" "i < 30" using assms by (auto simp: log_geo_def)
  then show u: "unat (log_start s + of_nat i + 1) = unat (log_start s) + 1 + i"
    by (simp add: unat_word_ariths unat_of_nat32)
  show "unat (log_start s + of_nat i + 1) < FSSIZE" using u b by simp
  have l: "i < length (homes s)" using length_homes [OF assms(1)] assms(2) by simp
  show "unat (lh_block s ! i) = homes s ! i" using assms l by (simp add: homes_def)
  show "homes s ! i \<in> set (homes s)" using l by simp
  then show "homes s ! i < FSSIZE" "homes s ! i \<notin> log_area s" using assms(1) by (auto simp: log_geo_def)
  show "unat (log_start s) + 1 + i \<in> log_area s" using assms by (auto simp: log_geo_def log_area_def)
qed

lemma card_homes: "log_geo s \<Longrightarrow> D \<subseteq> set (homes s) \<Longrightarrow> card D < NBUF"
proof -
  assume h: "log_geo s" "D \<subseteq> set (homes s)"
  have "card D \<le> length (homes s)" using h(2) by (meson card_length card_mono finite_set le_trans)
  then show ?thesis using h(1) length_homes [OF h(1)] by (simp add: log_geo_def)
qed

lemma geo_clean: "log_geo s \<Longrightarrow> D \<subseteq> set (homes s) \<Longrightarrow> n \<in> log_area s \<Longrightarrow> n \<notin> D"
  by (auto simp: log_geo_def)

lemma fold_upd_other: "\<forall>w \<in> set ws. fst w \<noteq> n \<Longrightarrow> fold upd_block ws V n = V n"
  by (induction ws arbitrary: V) (auto simp: upd_block_def)

lemma write_log_loop:
  fixes s :: "'z log_st_scheme"
  assumes "binv pd {} s" "log_geo s" "dirty (bufs s) = set (homes s)" "\<forall>i \<in> set is. i < lh_n s"
    "\<forall>h \<in> set (homes s). bview s h = V h"
  shows "\<exists>t. rfor is write_log_block s = Ok () t \<and>
     writes pd (map (\<lambda>i. (unat (log_start s) + 1 + i, V (homes s ! i))) is) (set (homes s)) s t"
  using assms
proof (induction "is" arbitrary: s)
  case Nil
  then show ?case using writes_refl [OF Nil.prems(1)] by simp
next
  case (Cons i "is")
  note g = geo_block [OF Cons.prems(2), of i]
  let ?m = "log_start s + of_nat i + 1"
  have i: "i < lh_n s" using Cons.prems(4) by simp
  have ne: "?m \<noteq> lh_block s ! i" using g(1,2,5,7) [OF i] by metis
  obtain u where u: "write_log_block i s = Ok () u" "writes pd [(unat ?m, bview s (unat (lh_block s ! i)))] (dirty (bufs s)) s u"
    using write_log_block_ok [OF Cons.prems(1) _ refl refl g(3) [OF i] _ ne, of] g [OF i] Cons.prems(2,3)
      card_homes [OF Cons.prems(2) subset_refl] geo_clean [OF Cons.prems(2) subset_refl]
    by (auto simp: log_geo_def)
  have b: "bstep s u" "binv pd {} u" "dirty (bufs u) = set (homes s)"
    "bview u = (bview s)(unat (log_start s) + 1 + i := V (homes s ! i))"
    using u(2) g [OF i] Cons.prems(3,5) by (auto simp: writes_def upd_block_def)
  have "\<forall>h \<in> set (homes u). bview u h = V h"
    using Cons.prems(5) g(5) [OF i] b(4) Cons.prems(2) bstep_geo(2) [OF b(1)] by (auto simp: log_geo_def)
  then obtain t where t: "rfor is write_log_block u = Ok () t"
     "writes pd (map (\<lambda>i. (unat (log_start u) + 1 + i, V (homes u ! i))) is) (set (homes u)) u t"
    using Cons.IH [of u] b Cons.prems(2,4) bstep_geo [OF b(1)] bstep_log [OF b(1)] by auto
  have "writes pd ([(unat ?m, bview s (unat (lh_block s ! i)))] @ map (\<lambda>i. (unat (log_start u) + 1 + i, V (homes u ! i))) is) (set (homes u)) s t"
    by (rule writes_trans [OF u(2) t(2)])
  then show ?case using u(1) t(1) g [OF i] Cons.prems(5) bstep_geo(2) [OF b(1)] bstep_log(1) [OF b(1)] by simp
qed

lemma install_loop:
  fixes s :: "'z log_st_scheme"
  assumes "binv pd {} s" "log_geo s" "dirty (bufs s) \<subseteq> set (homes s)" "\<forall>i \<in> set is. i < lh_n s"
    "dirty (bufs s) = {} \<or> distinct is \<and> (\<forall>i \<in> set is. homes s ! i \<in> dirty (bufs s))"
    "\<forall>i < lh_n s. bview s (unat (log_start s) + 1 + i) = L i"
  shows "\<exists>t. rfor is install_block s = Ok () t \<and>
     writes pd (map (\<lambda>i. (homes s ! i, L i)) is) (dirty (bufs s) - (\<lambda>i. homes s ! i) ` set is) s t"
  using assms
proof (induction "is" arbitrary: s)
  case Nil
  then show ?case using writes_refl [OF Nil.prems(1)] by simp
next
  case (Cons i "is")
  note g = geo_block [OF Cons.prems(2), of i]
  let ?m = "log_start s + of_nat i + 1" and ?D = "dirty (bufs s)"
  have i: "i < lh_n s" using Cons.prems(4) by simp
  have ne: "?m \<noteq> lh_block s ! i" using g(1,2,5,7) [OF i] by metis
  have avail: "unat (lh_block s ! i) \<in> ?D \<or> card ?D + 1 < NBUF" using Cons.prems(5) g(2) [OF i] by auto
  have dev: "log_dev s = 1" using Cons.prems(2) by (simp add: log_geo_def)
  have n: "unat (lh_block s ! i) < FSSIZE" using g(2,4) [OF i] by simp
  have mc: "unat ?m \<notin> ?D" using geo_clean [OF Cons.prems(2,3)] g(1,5) [OF i] by simp
  obtain u where u: "install_block i s = Ok () u"
      "writes pd [(unat (lh_block s ! i), bview s (unat ?m))] (?D - {unat (lh_block s ! i)}) s u"
    using install_block_ok [OF Cons.prems(1) dev refl refl g(3) [OF i] n ne mc card_homes [OF Cons.prems(2,3)] avail] by blast
  have w: "writes pd [(homes s ! i, L i)] (?D - {homes s ! i}) s u" using u(2) g(1,2) [OF i] Cons.prems(6) i by simp
  have b: "bstep s u" "binv pd {} u" "dirty (bufs u) = ?D - {homes s ! i}" "bview u = (bview s)(homes s ! i := L i)"
    using w by (auto simp: writes_def upd_block_def)
  note st = bstep_geo [OF b(1)] bstep_log [OF b(1)]
  have dist: "homes s ! j \<noteq> homes s ! i" if "i \<notin> set is" "j \<in> set is" for j
    using that Cons.prems(2,4) length_homes [OF Cons.prems(2)] by (auto simp: log_geo_def nth_eq_iff_index_eq)
  have d': "dirty (bufs u) = {} \<or> distinct is \<and> (\<forall>j \<in> set is. homes u ! j \<in> dirty (bufs u))"
    using Cons.prems(5) b(3) st dist by auto
  have "unat (log_start s) + 1 + j \<noteq> homes s ! i" if "j < lh_n s" for j
    using geo_block(5) [OF Cons.prems(2) that] g(7) [OF i] by metis
  then have l': "\<forall>j < lh_n u. bview u (unat (log_start u) + 1 + j) = L j" using Cons.prems(6) b(4) st by simp
  obtain t where t: "rfor is install_block u = Ok () t"
     "writes pd (map (\<lambda>i. (homes u ! i, L i)) is) (dirty (bufs u) - (\<lambda>i. homes u ! i) ` set is) u t"
    using Cons.IH [OF b(2) _ _ _ d' l'] Cons.prems(2,3,4) b(3) st by auto
  have "?D - {homes s ! i} - (\<lambda>i. homes s ! i) ` set is = ?D - (\<lambda>i. homes s ! i) ` set (i # is)" by auto
  then show ?case using u(1) t writes_trans [OF w t(2)] b(3) st by simp
qed

section \<open>The header\<close>

definition hdr_n :: "block \<Rightarrow> nat" where
  "hdr_n b = nat (sint (get32 b 0))"

definition hdr_blocks :: "block \<Rightarrow> uint list" where
  "hdr_blocks b = map (\<lambda>i. get32 b (4 + 4 * i)) [0..<hdr_n b]"

lemma fold_put32:
  assumes "length c = 512" "n \<le> LOGSIZE"
  shows "let d = fold (\<lambda>i b. put32 (4 + 4 * i) (bl ! i) b) [0..<n] c in
     length d = 512 \<and> get32 d 0 = get32 c 0 \<and> (\<forall>i < n. get32 d (4 + 4 * i) = bl ! i)"
  using assms
proof (induction n)
  case (Suc n)
  let ?d = "fold (\<lambda>i b. put32 (4 + 4 * i) (bl ! i) b) [0..<n] c"
  have d: "length ?d = 512" "get32 ?d 0 = get32 c 0" "\<forall>i < n. get32 ?d (4 + 4 * i) = bl ! i"
    using Suc by (auto simp: Let_def)
  have "get32 (put32 (4 + 4 * n) (bl ! n) ?d) (4 + 4 * i) = bl ! i" if "i < Suc n" for i
    using that d Suc.prems by (cases "i = n") (simp_all add: get32_put32_other)
  then show ?case using d Suc.prems by (simp add: Let_def get32_put32_other)
qed (simp add: Let_def)

lemma hdr_put_head:
  assumes "length b = 512" "n \<le> LOGSIZE" "length bl = LOGSIZE"
  shows "hdr_n (put_head n bl b) = n" "hdr_blocks (put_head n bl b) = take n bl"
proof -
  have c: "length (put32 0 (of_nat n) b) = 512" "get32 (put32 0 (of_nat n) b) 0 = of_nat n" using assms(1) by simp_all
  note h = fold_put32 [OF c(1) assms(2), of bl, unfolded Let_def, folded put_head_def]
  have "sint (of_nat n :: uint) = int n"
    using assms(2) by (simp add: signed_of_nat signed_take_bit_int_eq_self)
  then show n: "hdr_n (put_head n bl b) = n" using h c(2) by (simp add: hdr_n_def)
  show "hdr_blocks (put_head n bl b) = take n bl"
    using h assms(2,3) by (auto simp: hdr_blocks_def n intro: nth_equalityI)
qed

section \<open>commit and recovery\<close>

lemma running_lh [simp]: "running (s\<lparr>lh_n := n\<rparr>) pd = running s pd" "running (s\<lparr>lh_n := n, lh_block := bl\<rparr>) pd = running s pd"
  for s :: "'z log_st_scheme"
  by (rule running_cong; simp)+

lemma lh_simps [simp]:
  "binv pd H (s\<lparr>lh_n := n\<rparr>) = binv pd H s" "bview (s\<lparr>lh_n := n\<rparr>) = bview s" "disk (s\<lparr>lh_n := n\<rparr>) = disk s"
  "binv pd H (s\<lparr>lh_n := n, lh_block := bl\<rparr>) = binv pd H s" "bview (s\<lparr>lh_n := n, lh_block := bl\<rparr>) = bview s"
  "disk (s\<lparr>lh_n := n, lh_block := bl\<rparr>) = disk s"
  for s :: "'z log_st_scheme"
  by (simp_all add: binv_def bview_def disk_def)

text \<open>The block writes of a commit, in order.\<close>

definition commit_writes :: "'z log_st_scheme \<Rightarrow> (nat \<times> block) list" where
  "commit_writes s =
     (let st = unat (log_start s); N = lh_n s; H = put_head N (lh_block s) (bview s st)
      in map (\<lambda>i. (st + 1 + i, bview s (homes s ! i))) [0..<N] @ [(st, H)] @
         map (\<lambda>i. (homes s ! i, bview s (homes s ! i))) [0..<N] @ [(st, put_head 0 (lh_block s) H)])"

lemma geo_head: "log_geo s \<Longrightarrow> unat (log_start s) \<in> log_area s \<and> unat (log_start s) < FSSIZE"
  by (auto simp: log_geo_def log_area_def)

lemma fold_upd_in:
  assumes "i \<in> set is" "inj_on f (set is)"
  shows "fold upd_block (map (\<lambda>i. (f i, V i)) is) W (f i) = V i"
  using assms
proof (induction "is" arbitrary: W)
  case (Cons j "is")
  show ?case
  proof (cases "i \<in> set is")
    case False
    then have "i = j" using Cons.prems(1) by simp
    moreover have "\<forall>w \<in> set (map (\<lambda>i. (f i, V i)) is). fst w \<noteq> f i"
      using False Cons.prems by (auto simp: inj_on_def)
    moreover have "upd_block (f j, V j) W (f j) = V j" by (simp add: upd_block_def)
    ultimately show ?thesis using fold_upd_other [of "map (\<lambda>i. (f i, V i)) is" "f i" "upd_block (f j, V j) W"] by simp
  qed (use Cons in auto)
qed simp

lemma fold_upd_log: "i < N \<Longrightarrow> fold upd_block (map (\<lambda>i. (st + 1 + i, V i)) [0..<N]) W (st + 1 + i) = V i" for st :: nat
  using fold_upd_in [of i "[0..<N]" "\<lambda>i. st + 1 + i" V W] by (simp add: inj_on_def)

lemma commit_ok:
  fixes s :: "'z log_st_scheme"
  assumes "binv pd {} s" "log_geo s" "dirty (bufs s) = set (homes s)" "0 < lh_n s"
  shows "\<exists>t u. commit s = Ok () t \<and> binv pd {} t \<and> dirty (bufs t) = {} \<and> bstep s u \<and> bstep (u\<lparr>lh_n := 0\<rparr>) t \<and>
     dhist t = dhist s @ map (Pair 1) (commit_writes s) \<and> bview t = fold upd_block (commit_writes s) (bview s)"
proof -
  let ?st = "unat (log_start s)" and ?N = "lh_n s" and ?bl = "lh_block s"
  let ?wl = "map (\<lambda>i. (?st + 1 + i, bview s (homes s ! i))) [0..<?N]"
  let ?wi = "map (\<lambda>i. (homes s ! i, bview s (homes s ! i))) [0..<?N]"
  obtain a where a: "write_log s = Ok () a" "writes pd ?wl (set (homes s)) s a"
    using write_log_loop [OF assms(1-3), of "[0..<?N]" "bview s"] by (auto simp: write_log_def)
  have ba: "bstep s a" "binv pd {} a" "dirty (bufs a) = set (homes s)" "bview a = fold upd_block ?wl (bview s)"
    using a(2) by (auto simp: writes_def)
  note ga = bstep_geo [OF ba(1)] bstep_log [OF ba(1)]
  have geo: "log_geo a" "log_dev a = 1" "lh_n a \<le> LOGSIZE" using ga assms(2) by (auto simp: log_geo_def)
  have head: "?st \<in> log_area s" "?st < FSSIZE" using geo_head [OF assms(2)] by auto
  have hc: "?st \<notin> set (homes s)" using geo_clean [OF assms(2) subset_refl head(1)] .
  have card: "card (set (homes s)) < NBUF" using card_homes [OF assms(2) subset_refl] .
  have va: "bview a ?st = bview s ?st" unfolding ba(4) by (rule fold_upd_other) auto
  obtain b where b: "write_head a = Ok () b" "writes pd [(?st, put_head ?N ?bl (bview s ?st))] (set (homes s)) a b"
    using write_head_ok [OF ba(2) geo(2), unfolded ga ba(3) va, OF head(2) hc card] geo(3) ga by auto
  have bb: "bstep a b" "binv pd {} b" "dirty (bufs b) = set (homes s)" "bview b = (bview a)(?st := put_head ?N ?bl (bview s ?st))"
    using b(2) by (auto simp: writes_def upd_block_def)
  note gb = bstep_geo [OF bb(1)] bstep_log [OF bb(1)]
  have log: "\<forall>i < lh_n b. bview b (unat (log_start b) + 1 + i) = bview s (homes s ! i)"
    using ga gb bb(4) ba(4) fold_upd_log [of _ ?N ?st "\<lambda>i. bview s (homes s ! i)" "bview s"] by simp
  have mem: "\<forall>i \<in> set [0..<?N]. homes s ! i \<in> set (homes s)" using length_homes [OF assms(2)] by simp
  have img: "set (homes s) - (\<lambda>i. homes s ! i) ` {0..<?N} = {}"
    using length_homes [OF assms(2)] by (force simp: in_set_conv_nth)
  obtain c where c: "install_trans b = Ok () c" "writes pd ?wi {} b c"
    using install_loop [OF bb(2), of "[0..<?N]" "\<lambda>i. bview s (homes s ! i)"] ga gb geo(1) bb(3) mem log img
    by (auto simp: install_trans_def)
  have bc: "bstep b c" "binv pd {} c" "dirty (bufs c) = {}" "bview c = fold upd_block ?wi (bview b)"
    using c(2) by (auto simp: writes_def)
  note gc = bstep_geo [OF bc(1)] bstep_log [OF bc(1)]
  have vc: "bview c ?st = put_head ?N ?bl (bview s ?st)"
  proof -
    have "\<forall>w \<in> set ?wi. fst w \<noteq> ?st" using mem hc by force
    from fold_upd_other [OF this, of "bview b"] show ?thesis unfolding bc(4) bb(4) by simp
  qed
  let ?c = "c\<lparr>lh_n := 0\<rparr>"
  obtain t where t: "write_head ?c = Ok () t" "writes pd [(?st, put_head 0 ?bl (put_head ?N ?bl (bview s ?st)))] {} ?c t"
    using write_head_ok [of pd ?c] bc(2,3) vc gc gb ga geo(2) head(2) by auto
  have run: "commit s = Ok () t" using a(1) b(1) c(1) t(1) assms(4) by (simp add: commit_def)
  have sc: "bstep s c" using bstep_trans [OF ba(1) bstep_trans [OF bb(1) bc(1)]] .
  have "dhist t = dhist s @ map (Pair 1) (commit_writes s)" "bview t = fold upd_block (commit_writes s) (bview s)"
    using a(2) b(2) c(2) t(2) by (simp_all add: writes_def commit_writes_def Let_def)
  with run t(2) sc show ?thesis by (auto simp: writes_def)
qed

lemma bstep_lh: "bstep s t \<Longrightarrow> bstep (s\<lparr>lh_n := n, lh_block := bl\<rparr>) (t\<lparr>lh_n := n, lh_block := bl\<rparr>)"
  for s :: "'z log_st_scheme"
proof -
  assume "bstep s t"
  then obtain p bf d where t: "t = s\<lparr>ptable := p, bufs := bf, dhist := d\<rparr>" "woken (ptable s) p" by (rule bstepE)
  have "t\<lparr>lh_n := n, lh_block := bl\<rparr> = s\<lparr>lh_n := n, lh_block := bl\<rparr>\<lparr>ptable := p, bufs := bf, dhist := d\<rparr>" unfolding t(1) by simp
  then show ?thesis using bstepI [where s = "s\<lparr>lh_n := n, lh_block := bl\<rparr>" and p = p and bf = bf and d = d] t(2) by simp
qed

lemma bview_fresh: "binv pd {} s \<Longrightarrow> dirty (bufs s) = {} \<Longrightarrow> bview s = disk s 1"
  using view_clean [of pd "{}" s] by auto

lemma read_head_ok:
  fixes s :: "'z log_st_scheme"
  assumes "binv pd {} s" "dirty (bufs s) = {}" "log_dev s = 1" "unat (log_start s) < FSSIZE"
    "h = disk s 1 (unat (log_start s))" "hdr_n h \<le> LOGSIZE"
  shows "\<exists>t. read_head s = Ok () t \<and>
     writes pd [] {} (s\<lparr>lh_n := hdr_n h, lh_block := hdr_blocks h @ drop (hdr_n h) (lh_block s)\<rparr>) t"
proof -
  let ?bl = "hdr_blocks h @ drop (hdr_n h) (lh_block s)"
  have nd: "unat (log_start s) \<notin> dirty (bufs s)" "card (dirty (bufs s)) < NBUF" using assms(2) by simp_all
  obtain b u where u: "bread 1 (log_start s) s = Ok b u" "binv pd {b} u" "bstep s u" "dhist u = dhist s" "bview u = bview s"
    "dirty (bufs u) = dirty (bufs s)" "blockno (bufs u b) = log_start s" "data (bufs u b) = bview s (unat (log_start s))"
    "data (bufs u b) = disk u 1 (sector_of (bufs u b))"
    by (rule read_release [OF assms(1,4) nd])
  have h: "data (bufs u b) = h" using u(8) bview_fresh [OF assms(1,2)] assms(5) by simp
  let ?u = "u\<lparr>lh_n := hdr_n h, lh_block := ?bl\<rparr>"
  have i: "binv pd {b} ?u" "data (bufs ?u b) = disk ?u 1 (sector_of (bufs ?u b))" using u(2) u(9) by simp_all
  obtain t where t: "brelse b ?u = Ok () t" "binv pd ({b} - {b}) t" "bstep ?u t" "bview t = bview ?u" "dhist t = dhist ?u"
    "\<forall>c. c \<noteq> b \<longrightarrow> content (bufs t c) = content (bufs ?u c)" "dirty (bufs t) = dirty (bufs ?u)"
    by (rule brelse_held [OF i(1) singletonI disjI2 [OF i(2)]])
  have "lh_block u = lh_block s" using bstep_log(5) [OF u(3)] .
  then have "read_head s = Ok () t"
    using u(1) h t(1) assms(3,6) by (simp add: read_head_def Let_def hdr_n_def [symmetric] hdr_blocks_def [symmetric])
  moreover have "bstep (s\<lparr>lh_n := hdr_n h, lh_block := ?bl\<rparr>) t" using bstep_trans [OF bstep_lh [OF u(3)] t(3)] .
  ultimately show ?thesis using t u assms(2) by (auto simp: writes_def)
qed

text \<open>The block writes of a recovery from a disk \<open>D\<close> whose log header is at \<open>st\<close>, in order.\<close>

definition recover_writes :: "nat \<Rightarrow> uint list \<Rightarrow> (nat \<Rightarrow> block) \<Rightarrow> (nat \<times> block) list" where
  "recover_writes st bl D =
     (let h = D st in map (\<lambda>i. (unat (hdr_blocks h ! i), D (st + 1 + i))) [0..<hdr_n h] @ [(st, put_head 0 bl h)])"

lemma recover_ok:
  fixes s :: "'z log_st_scheme"
  assumes "binv pd {} s" "dirty (bufs s) = {}" "h = disk s 1 (unat (log_start s))" "hdr_n h \<le> LOGSIZE"
    "bl = hdr_blocks h @ drop (hdr_n h) (lh_block s)" "log_geo (s\<lparr>lh_n := hdr_n h, lh_block := bl\<rparr>)"
  shows "\<exists>t. recover_from_log s = Ok () t \<and> binv pd {} t \<and> dirty (bufs t) = {} \<and> lh_n t = 0 \<and> disk0 t = disk0 s \<and>
     dhist t = dhist s @ map (Pair 1) (recover_writes (unat (log_start s)) bl (disk s 1))"
proof -
  let ?st = "unat (log_start s)" and ?n = "hdr_n h" and ?s = "s\<lparr>lh_n := hdr_n h, lh_block := bl\<rparr>"
  have dev: "log_dev s = 1" and st: "?st < FSSIZE" using geo_head [OF assms(6)] assms(6) by (simp_all add: log_geo_def)
  obtain a where a: "read_head s = Ok () a" "writes pd [] {} ?s a"
    using read_head_ok [OF assms(1,2) dev st assms(3,4)] assms(5) by auto
  have ba: "bstep ?s a" "binv pd {} a" "dirty (bufs a) = {}" "bview a = disk s 1" "disk a 1 = disk s 1"
    using a(2) writes_disk [OF a(2)] bview_fresh [OF assms(1,2)] by (auto simp: writes_def)
  note ga = bstep_geo [OF ba(1)] bstep_log [OF ba(1)]
  have n: "lh_n a = ?n" "log_geo a" "homes a = map unat (take ?n bl)" using ga assms(6) by (simp_all add: homes_def)
  obtain b where b: "install_trans a = Ok () b" "writes pd (map (\<lambda>i. (homes a ! i, disk s 1 (?st + 1 + i))) [0..<?n]) {} a b"
    using install_loop [OF ba(2) n(2), of "[0..<?n]" "\<lambda>i. disk s 1 (?st + 1 + i)"] ba(3,4) n(1) ga
    by (auto simp: install_trans_def)
  have bb: "bstep a b" "binv pd {} b" "dirty (bufs b) = {}" using b(2) by (auto simp: writes_def)
  note gb = bstep_log [OF bb(1)]
  let ?b = "b\<lparr>lh_n := 0\<rparr>"
  obtain t where t: "write_head ?b = Ok () t" "writes pd [(?st, put_head 0 bl (bview b ?st))] {} ?b t"
    using write_head_ok [of pd ?b] bb(2,3) dev st ga gb by auto
  have hd: "hdr_blocks h ! i = bl ! i" "homes a ! i = unat (hdr_blocks h ! i)" if "i < ?n" for i
    using that assms(5) n(3) by (simp_all add: nth_append hdr_blocks_def)
  have ws: "map (\<lambda>i. (homes a ! i, disk s 1 (?st + 1 + i))) [0..<?n] = map (\<lambda>i. (unat (hdr_blocks h ! i), disk s 1 (?st + 1 + i))) [0..<?n]"
    using hd by simp
  have vst: "bview b ?st = h"
  proof -
    have "?st \<in> log_area a" using geo_head [OF n(2)] bstep_log(1) [OF ba(1)] by simp
    moreover have "homes a ! i \<notin> log_area a" if "i < ?n" for i using geo_block(7) [OF n(2), of i] that n(1) by simp
    ultimately have "homes a ! i \<noteq> ?st" if "i < ?n" for i using that by metis
    then have "\<forall>w \<in> set (map (\<lambda>i. (homes a ! i, disk s 1 (?st + 1 + i))) [0..<?n]). fst w \<noteq> ?st" by auto
    from fold_upd_other [OF this, of "bview a"] show ?thesis using b(2) ba(4) assms(3) by (simp add: writes_def)
  qed
  have "recover_from_log s = Ok () t" using a(1) b(1) t(1) by (simp add: recover_from_log_def)
  moreover have "dhist t = dhist s @ map (Pair 1) (recover_writes ?st bl (disk s 1))"
    using t(2) b(2) [unfolded ws] a(2) vst assms(3) by (simp add: recover_writes_def Let_def writes_def)
  moreover have "disk0 t = disk0 s"
    using bstep_fields [of ?s a] bstep_fields [of a b] bstep_fields [of ?b t] ba(1) bb(1) t(2) by (simp add: writes_def)
  moreover have "lh_n t = 0" "binv pd {} t" "dirty (bufs t) = {}" using t(2) bstep_log(4) [of ?b t] by (auto simp: writes_def)
  ultimately show ?thesis by blast
qed

section \<open>Crash safety\<close>

text \<open>
  A machine that starts again over the disk \<open>D\<close>: the cache holds nothing dirty, and the
  super block gives the same log as before.
\<close>

definition rebooted :: "cint \<Rightarrow> 'z log_st_scheme \<Rightarrow> (nat \<Rightarrow> block) \<Rightarrow> 'z log_st_scheme \<Rightarrow> bool" where
  "rebooted pd s D u \<longleftrightarrow> binv pd {} u \<and> dirty (bufs u) = {} \<and> disk u 1 = D \<and> log_start u = log_start s \<and>
     log_size u = log_size s \<and> log_dev u = 1 \<and> length (lh_block u) = LOGSIZE"

text \<open>
  The disks of a transaction: before the commit point the header is empty and the data area
  is as before the transaction; after it the header and the log hold the transaction, until
  the header is empty again and the data area has the new contents.
\<close>

definition disk_idle :: "'z log_st_scheme \<Rightarrow> (nat \<Rightarrow> block) \<Rightarrow> (nat \<Rightarrow> block) \<Rightarrow> bool" where
  "disk_idle s W D \<longleftrightarrow> hdr_n (D (unat (log_start s))) = 0 \<and> (\<forall>n. n \<notin> log_area s \<longrightarrow> D n = W n)"

definition disk_logged :: "'z log_st_scheme \<Rightarrow> (nat \<Rightarrow> block) \<Rightarrow> (nat \<Rightarrow> block) \<Rightarrow> bool" where
  "disk_logged s W D \<longleftrightarrow> (let h = D (unat (log_start s)) in hdr_n h = lh_n s \<and> hdr_blocks h = take (lh_n s) (lh_block s)) \<and>
     (\<forall>i < lh_n s. D (unat (log_start s) + 1 + i) = W (homes s ! i)) \<and>
     (\<forall>n. n \<notin> log_area s \<longrightarrow> n \<notin> set (homes s) \<longrightarrow> D n = W n)"

definition crash_inv :: "'z log_st_scheme \<Rightarrow> bool \<Rightarrow> (nat \<Rightarrow> block) \<Rightarrow> bool" where
  "crash_inv s c D \<longleftrightarrow>
     (if c then disk_logged s (bview s) D \<or> disk_idle s (bview s) D else disk_idle s (disk s 1) D)"

lemma take_snoc_cases: "take j (xs @ [x]) = take j xs \<or> take j (xs @ [x]) = xs @ [x]"
  by (cases "j \<le> length xs") auto

lemma map_snd_index: "length hs = N \<Longrightarrow> set (map (\<lambda>i. (hs ! i, f i)) [0..<N]) \<subseteq> {w. fst w \<in> set hs}"
  by auto

text \<open>Writing to home blocks only does not change the header or the log.\<close>

lemma logged_homes:
  assumes "log_geo s" "disk_logged s W D" "\<forall>w \<in> set ws. fst w \<in> set (homes s)"
  shows "disk_logged s W (fold upd_block ws D)"
proof -
  have log: "fold upd_block ws D n = D n" if "n \<in> log_area s" for n
    using assms(1,3) that by (intro fold_upd_other) (auto simp: log_geo_def)
  have st: "unat (log_start s) \<in> log_area s" using geo_head [OF assms(1)] by simp
  have "fold upd_block ws D n = D n" if "n \<notin> set (homes s)" for n
    using assms(3) that by (intro fold_upd_other) auto
  then show ?thesis using assms(2) log [OF st] log [OF geo_block(5) [OF assms(1)]] by (auto simp: disk_logged_def)
qed

text \<open>Installing all blocks and clearing the header ends the transaction.\<close>

lemma logged_installed:
  assumes "log_geo s" "disk_logged s W D" "length (D (unat (log_start s))) = 512" "length bl = LOGSIZE"
  shows "disk_idle s W (fold upd_block (map (\<lambda>i. (homes s ! i, W (homes s ! i))) [0..<lh_n s] @
     [(unat (log_start s), put_head 0 bl (D (unat (log_start s))))]) D)"
proof -
  let ?st = "unat (log_start s)" and ?ws = "map (\<lambda>i. (homes s ! i, W (homes s ! i))) [0..<lh_n s]"
  have st: "?st \<in> log_area s" using geo_head [OF assms(1)] by simp
  have len: "length (homes s) = lh_n s" using length_homes [OF assms(1)] .
  have inj: "inj_on (\<lambda>i. homes s ! i) (set [0..<lh_n s])"
    using assms(1) len by (auto simp: inj_on_def log_geo_def nth_eq_iff_index_eq)
  have "fold upd_block ?ws D n = W n" if "n \<notin> log_area s" for n
  proof (cases "n \<in> set (homes s)")
    case True
    then obtain i where "i < lh_n s" "n = homes s ! i" using len by (auto simp: in_set_conv_nth)
    then show ?thesis using fold_upd_in [OF _ inj, of i "\<lambda>i. W (homes s ! i)" D] by simp
  next
    case False
    have "\<forall>w \<in> set ?ws. fst w \<noteq> n" using False len by auto
    then show ?thesis using fold_upd_other [of ?ws n D] assms(2) False that by (simp add: disk_logged_def)
  qed
  moreover have "hdr_n (put_head 0 bl (D ?st)) = 0" using hdr_put_head(1) [OF assms(3), of 0 bl] assms(4) by simp
  moreover have "fold upd_block (?ws @ [(?st, X)]) D = (fold upd_block ?ws D)(?st := X)" for X by (simp add: upd_block_def)
  ultimately show ?thesis using st by (auto simp: disk_idle_def)
qed

text \<open>Recovering, and crashing while recovering, from the disks of a transaction.\<close>

lemma recover_idle:
  fixes s :: "'z log_st_scheme"
  assumes "log_geo s" "rebooted pd s D u" "disk_idle s W D"
  shows "\<exists>v ws. recover_from_log u = Ok () v \<and> dhist v = dhist u @ map (Pair 1) ws \<and>
     (\<forall>j. disk_idle s W (fold upd_block (take j ws) D)) \<and> disk_idle s W (disk v 1)"
proof -
  let ?st = "unat (log_start s)"
  have u: "binv pd {} u" "dirty (bufs u) = {}" "disk u 1 = D" "log_start u = log_start s" "length (lh_block u) = LOGSIZE"
    using assms(2) by (auto simp: rebooted_def)
  have z: "hdr_n (D ?st) = 0" using assms(3) by (simp add: disk_idle_def)
  have g: "log_geo (u\<lparr>lh_n := 0, lh_block := lh_block u\<rparr>)"
    using assms(1,2) by (auto simp: log_geo_def rebooted_def homes_def)
  have b: "hdr_blocks (disk u 1 (unat (log_start u))) = []" using z u(3,4) by (simp add: hdr_blocks_def)
  have st: "?st \<in> log_area s" "?st < FSSIZE" using geo_head [OF assms(1)] by auto
  let ?ws = "[(?st, put_head 0 (lh_block u) (D ?st))]"
  have w: "recover_writes ?st (lh_block u) D = ?ws" using z by (simp add: recover_writes_def Let_def)
  obtain v where v: "recover_from_log u = Ok () v" "dhist v = dhist u @ map (Pair 1) ?ws" "disk0 v = disk0 u"
    using recover_ok [OF u(1,2) refl, of "lh_block u"] g b z u(3,4) w by auto
  have "length (D ?st) = 512" using u(1,3) st(2) by (auto simp: binv_def)
  then have "hdr_n (put_head 0 (lh_block u) (D ?st)) = 0" using hdr_put_head(1) [of "D ?st" 0 "lh_block u"] u(5) by simp
  then have all: "disk_idle s W (fold upd_block ?ws D)"
    using assms(3) st(1) by (auto simp: disk_idle_def upd_block_def)
  then have "disk_idle s W (fold upd_block (take j ?ws) D)" for j using assms(3) by (cases j) simp_all
  moreover have "disk v 1 = fold upd_block ?ws D"
    unfolding disk_def v(2,3) using fold_write_disk [of ?ws "disk u"] u(3) by (simp add: disk_def)
  ultimately show ?thesis using v all by metis
qed

lemma recover_logged:
  fixes s :: "'z log_st_scheme"
  assumes "log_geo s" "rebooted pd s D u" "disk_logged s W D"
  shows "\<exists>v ws. recover_from_log u = Ok () v \<and> dhist v = dhist u @ map (Pair 1) ws \<and>
     (\<forall>j. disk_logged s W (fold upd_block (take j ws) D) \<or> disk_idle s W (fold upd_block (take j ws) D)) \<and>
     disk_idle s W (disk v 1)"
proof -
  let ?st = "unat (log_start s)" and ?N = "lh_n s"
  let ?bl = "take ?N (lh_block s) @ drop ?N (lh_block u)" and ?wi = "map (\<lambda>i. (homes s ! i, W (homes s ! i))) [0..<?N]"
  have u: "binv pd {} u" "dirty (bufs u) = {}" "disk u 1 = D" "log_start u = log_start s" "length (lh_block u) = LOGSIZE"
    using assms(2) by (auto simp: rebooted_def)
  have h: "hdr_n (D ?st) = ?N" "hdr_blocks (D ?st) = take ?N (lh_block s)" using assms(3) by (auto simp: disk_logged_def Let_def)
  have N: "?N < LOGSIZE" "length (lh_block s) = LOGSIZE" using assms(1) by (auto simp: log_geo_def)
  have "homes (u\<lparr>lh_n := ?N, lh_block := ?bl\<rparr>) = homes s" using N by (simp add: homes_def)
  then have g: "log_geo (u\<lparr>lh_n := ?N, lh_block := ?bl\<rparr>)"
    using assms(1,2) N by (auto simp: log_geo_def rebooted_def log_area_def)
  have len: "length (D ?st) = 512" "length ?bl = LOGSIZE"
    using u(1,3,5) geo_head [OF assms(1)] N by (auto simp: binv_def)
  let ?ws = "?wi @ [(?st, put_head 0 ?bl (D ?st))]"
  have ws: "recover_writes ?st ?bl D = ?ws"
    unfolding recover_writes_def Let_def h using N assms(3) by (simp add: homes_def disk_logged_def)
  obtain v where v: "recover_from_log u = Ok () v" "dhist v = dhist u @ map (Pair 1) ?ws" "disk0 v = disk0 u"
    using recover_ok [OF u(1,2) refl _ refl, unfolded u(3,4) h] g N ws by auto
  have all: "disk_idle s W (fold upd_block ?ws D)" by (rule logged_installed [OF assms(1,3) len])
  have "\<forall>w \<in> set (take j ?wi). fst w \<in> set (homes s)" for j
    using length_homes [OF assms(1)] by (auto dest!: in_set_takeD)
  then have part: "disk_logged s W (fold upd_block (take j ?wi) D)" for j by (rule logged_homes [OF assms(1,3)])
  have p: "disk_logged s W (fold upd_block (take j ?ws) D) \<or> disk_idle s W (fold upd_block (take j ?ws) D)" for j
    using take_snoc_cases [of j ?wi "(?st, put_head 0 ?bl (D ?st))"]
  proof
    assume e: "take j ?ws = take j ?wi"
    show ?thesis unfolding e using part by (rule disjI1)
  next
    assume e: "take j ?ws = ?ws"
    show ?thesis unfolding e using all by (rule disjI2)
  qed
  have dv: "disk v 1 = fold upd_block ?ws D"
    unfolding disk_def v(2,3) using fold_write_disk [of ?ws "disk u"] u(3) by (simp add: disk_def)
  have "disk_idle s W (disk v 1)" unfolding dv by (rule all)
  then show ?thesis by (intro exI [of _ v] exI [of _ ?ws] conjI allI v(1,2) p)
qed

text \<open>The disk at each point of a commit.\<close>

lemma commit_prefix:
  assumes "binv pd {} s" "log_geo s" "dirty (bufs s) = set (homes s)" "hdr_n (disk s 1 (unat (log_start s))) = 0"
  shows "crash_inv s (lh_n s < k) (fold upd_block (take k (commit_writes s)) (disk s 1))"
proof -
  let ?st = "unat (log_start s)" and ?N = "lh_n s" and ?bl = "lh_block s" and ?V = "bview s"
  let ?wl = "map (\<lambda>i. (?st + 1 + i, ?V (homes s ! i))) [0..<?N]"
  let ?H = "put_head ?N ?bl (?V ?st)" and ?wi = "map (\<lambda>i. (homes s ! i, ?V (homes s ! i))) [0..<?N]"
  have cw: "commit_writes s = ?wl @ [(?st, ?H)] @ ?wi @ [(?st, put_head 0 ?bl ?H)]" by (simp add: commit_writes_def Let_def)
  have st: "?st \<in> log_area s" "?st \<notin> set (homes s)" "?st < FSSIZE"
    using geo_head [OF assms(2)] geo_clean [OF assms(2) subset_refl] by auto
  have wl: "fst w \<in> log_area s \<and> fst w \<noteq> ?st" if "w \<in> set ?wl" for w
    using that geo_block(5) [OF assms(2)] by auto
  show ?thesis
  proof (cases "k \<le> ?N")
    case True
    then have e: "take k (commit_writes s) = take k ?wl" by (simp add: cw)
    have "fst w \<in> log_area s \<and> fst w \<noteq> ?st" if "w \<in> set (take k ?wl)" for w using wl in_set_takeD [OF that] by blast
    then have "fold upd_block (take k ?wl) (disk s 1) n = disk s 1 n" if "n \<notin> log_area s \<or> n = ?st" for n
      using that by (intro fold_upd_other) blast
    then show ?thesis unfolding e using True assms(4) by (simp add: crash_inv_def disk_idle_def)
  next
    case False
    define D where "D = fold upd_block (?wl @ [(?st, ?H)]) (disk s 1)"
    have len: "length (?V ?st) = 512" "length ?bl = LOGSIZE" "?N \<le> LOGSIZE"
      using assms(1,2,3) st view_clean [OF assms(1), of ?st] by (auto simp: binv_def log_geo_def)
    have Dn: "D n = (if n = ?st then ?H else fold upd_block ?wl (disk s 1) n)" for n by (simp add: D_def upd_block_def)
    have "fold upd_block ?wl (disk s 1) n = disk s 1 n" if "n \<notin> log_area s" for n
      using wl that by (intro fold_upd_other) blast
    moreover have "D (?st + 1 + i) = ?V (homes s ! i)" if "i < ?N" for i
      unfolding Dn using fold_upd_log [OF that, of ?st "\<lambda>i. ?V (homes s ! i)" "disk s 1"] by simp
    ultimately have lg: "disk_logged s ?V D"
      using hdr_put_head [OF len(1,3,2)] st view_clean [OF assms(1)] assms(3) by (auto simp: disk_logged_def Dn)
    have "length (D ?st) = 512" using length_put_head [OF len(1,3)] by (simp add: Dn)
    then have all: "disk_idle s ?V (fold upd_block (?wi @ [(?st, put_head 0 ?bl ?H)]) D)"
      using logged_installed [OF assms(2) lg _ len(2)] by (simp add: Dn)
    have "\<forall>w \<in> set (take j ?wi). fst w \<in> set (homes s)" for j
      using length_homes [OF assms(2)] by (auto dest!: in_set_takeD)
    then have part: "disk_logged s ?V (fold upd_block (take j ?wi) D)" for j by (rule logged_homes [OF assms(2) lg])
    obtain j where j: "k = ?N + 1 + j" using False by (metis add.commute less_eqE not_le Suc_eq_plus1 Suc_leI)
    have e: "fold upd_block (take k (commit_writes s)) (disk s 1) = fold upd_block (take j (?wi @ [(?st, put_head 0 ?bl ?H)])) D"
      by (simp add: cw j D_def)
    show ?thesis
      using take_snoc_cases [of j ?wi "(?st, put_head 0 ?bl ?H)"]
    proof
      assume f: "take j (?wi @ [(?st, put_head 0 ?bl ?H)]) = take j ?wi"
      show ?thesis unfolding e f crash_inv_def using part False by simp
    next
      assume f: "take j (?wi @ [(?st, put_head 0 ?bl ?H)]) = ?wi @ [(?st, put_head 0 ?bl ?H)]"
      show ?thesis unfolding e f crash_inv_def if_P [OF not_le_imp_less [OF False]] by (rule disjI2 [OF all])
    qed
  qed
qed

text \<open>
  The disks that a crash can leave behind: after some of the writes of a commit, and again
  after some of the writes of a recovery. The flag says whether the header had been written.
\<close>

inductive crashed :: "cint \<Rightarrow> 'z log_st_scheme \<Rightarrow> bool \<Rightarrow> (nat \<Rightarrow> block) \<Rightarrow> bool" for pd s where
  in_commit: "commit s = Ok () t \<Longrightarrow> dhist t = dhist s @ map (Pair 1) ws \<Longrightarrow>
    crashed pd s (lh_n s < k) (fold upd_block (take k ws) (disk s 1))"
| in_recovery: "crashed pd s c D \<Longrightarrow> rebooted pd s D u \<Longrightarrow> recover_from_log u = Ok () v \<Longrightarrow>
    dhist v = dhist u @ map (Pair 1) ws \<Longrightarrow> crashed pd s c (fold upd_block (take k ws) D)"

lemma map_Pair_inj [simp]: "map (Pair x) ws = map (Pair x) vs \<longleftrightarrow> ws = vs"
  by (simp add: inj_map_eq_map inj_on_def)

lemma crashed_inv:
  fixes s :: "'z log_st_scheme"
  assumes "binv pd {} s" "log_geo s" "dirty (bufs s) = set (homes s)" "0 < lh_n s" "hdr_n (disk s 1 (unat (log_start s))) = 0"
  shows "crashed pd s c D \<Longrightarrow> crash_inv s c D"
proof (induction rule: crashed.induct)
  case (in_commit t ws k)
  have "ws = commit_writes s" using commit_ok [OF assms(1-4)] in_commit by auto
  then show ?case using commit_prefix [OF assms(1,2,3,5)] by simp
next
  case (in_recovery c D u v ws k)
  show ?case
  proof (cases "c \<and> disk_logged s (bview s) D")
    case True
    then show ?thesis using recover_logged [OF assms(2) in_recovery(2), of "bview s"] in_recovery(3,4)
      by (auto simp: crash_inv_def)
  next
    case False
    then show ?thesis using recover_idle [OF assms(2) in_recovery(2), of "if c then bview s else disk s 1"] in_recovery(3-5)
      by (auto simp: crash_inv_def)
  qed
qed

text \<open>
  The state between the operations of a transaction: the cache's invariant, the dirty blocks
  are those of the in-memory header, and the header on disk is empty.
\<close>

definition log_inv :: "cint \<Rightarrow> nat set \<Rightarrow> 'z log_st_scheme \<Rightarrow> bool" where
  "log_inv pd H s \<longleftrightarrow> binv pd H s \<and> log_geo s \<and> dirty (bufs s) = set (homes s) \<and>
     hdr_n (disk s 1 (unat (log_start s))) = 0"

lemma commit_disk:
  fixes s :: "'z log_st_scheme"
  assumes "log_inv pd {} s" "0 < lh_n s"
  shows "\<exists>t. commit s = Ok () t \<and> log_inv pd {} t \<and> lh_n t = 0 \<and>
    (\<forall>n. n \<notin> log_area s \<longrightarrow> disk t 1 n = bview s n \<and> bview t n = bview s n)"
proof -
  have s: "binv pd {} s" "log_geo s" "dirty (bufs s) = set (homes s)" "hdr_n (disk s 1 (unat (log_start s))) = 0"
    using assms(1) by (auto simp: log_inv_def)
  obtain t u where t: "commit s = Ok () t" "binv pd {} t" "dirty (bufs t) = {}" "bstep s u" "bstep (u\<lparr>lh_n := 0\<rparr>) t"
    "dhist t = dhist s @ map (Pair 1) (commit_writes s)"
    using commit_ok [OF s(1-3) assms(2)] by blast
  note l = bstep_log [OF t(4)] bstep_log [OF t(5)]
  let ?k = "length (commit_writes s)"
  have d: "disk t 1 = fold upd_block (take ?k (commit_writes s)) (disk s 1)"
    using t(6) bstep_fields [OF t(4)] bstep_fields [OF t(5)] fold_write_disk [of "commit_writes s" "disk s"] by (simp add: disk_def)
  have k: "lh_n s < ?k" by (simp add: commit_writes_def Let_def)
  have c: "crash_inv s True (disk t 1)" unfolding d using commit_prefix [OF s, of ?k] k by simp
  have i: "disk_idle s (bview s) (disk t 1)"
  proof (rule ccontr)
    assume "\<not> ?thesis"
    then have "hdr_n (disk t 1 (unat (log_start s))) = lh_n s" using c by (auto simp: crash_inv_def disk_logged_def Let_def)
    moreover have "disk t 1 (unat (log_start s)) = put_head 0 (lh_block s) (put_head (lh_n s) (lh_block s) (bview s (unat (log_start s))))"
      unfolding d by (simp add: commit_writes_def Let_def upd_block_def)
    moreover have "length (bview s (unat (log_start s))) = 512"
      using s view_clean [OF s(1), of "unat (log_start s)"] geo_head [OF s(2)] geo_clean [OF s(2) subset_refl] by (auto simp: binv_def)
    ultimately show False using hdr_put_head(1) length_put_head s(2) assms(2) by (simp add: log_geo_def)
  qed
  have "homes t = []" "log_area t = log_area s" using l by (simp_all add: homes_def log_area_def)
  then have "log_inv pd {} t" using t(2,3) s(2) i l by (simp add: log_inv_def log_geo_def disk_idle_def)
  then show ?thesis using t(1) i l bview_fresh [OF t(2,3)] by (intro exI [of _ t]) (simp add: disk_idle_def)
qed

text \<open>
  C1: The log makes a transaction atomic. From a state whose dirty buffers are the logged blocks,
  \<open>commit\<close> returns with every logged block installed and the log empty; and if the machine
  stops after any number of the block writes of the commit, and again during any number of
  later recoveries, \<open>recover_from_log\<close> on the disk left behind returns, and every block outside
  the log has its old content if the header of the transaction had not been written, and its
  new content if it had.
\<close>

theorem log_crash_safe:
  assumes "log_inv pd {} s" "0 < lh_n s"
  shows "(\<exists>t. commit s = Ok () t \<and> log_inv pd {} t \<and> lh_n t = 0 \<and> (\<forall>n. n \<notin> log_area s \<longrightarrow> disk t 1 n = bview s n)) \<and>
    (\<forall>c D u. crashed pd s c D \<longrightarrow> rebooted pd s D u \<longrightarrow>
       (\<exists>v. recover_from_log u = Ok () v \<and>
          (\<forall>n. n \<notin> log_area s \<longrightarrow> disk v 1 n = (if c then bview s n else disk s 1 n))))"
proof (intro conjI allI impI)
  show "\<exists>t. commit s = Ok () t \<and> log_inv pd {} t \<and> lh_n t = 0 \<and> (\<forall>n. n \<notin> log_area s \<longrightarrow> disk t 1 n = bview s n)"
    using commit_disk [OF assms] by blast
  fix c D u
  assume h: "crashed pd s c D" "rebooted pd s D u"
  have s: "binv pd {} s" "log_geo s" "dirty (bufs s) = set (homes s)" "hdr_n (disk s 1 (unat (log_start s))) = 0"
    using assms(1) by (auto simp: log_inv_def)
  have i: "crash_inv s c D" by (rule crashed_inv [OF s(1-3) assms(2) s(4) h(1)])
  let ?W = "if c then bview s else disk s 1"
  have "\<exists>v. recover_from_log u = Ok () v \<and> disk_idle s ?W (disk v 1)"
  proof (cases "c \<and> disk_logged s (bview s) D")
    case True
    then show ?thesis using recover_logged [OF s(2) h(2), of "bview s"] by auto
  next
    case False
    then have "disk_idle s ?W D" using i by (auto simp: crash_inv_def)
    then show ?thesis using recover_idle [OF s(2) h(2)] by blast
  qed
  then show "\<exists>v. recover_from_log u = Ok () v \<and> (\<forall>n. n \<notin> log_area s \<longrightarrow> disk v 1 n = (if c then bview s n else disk s 1 n))"
    by (auto simp: disk_idle_def)
qed

end
