(* ===== verification/Fs.thy ===== *)
theory Fs
  imports Log
begin

text \<open>
  The file system, fs.c: the block allocator, inodes and their cache, file content through
  direct and indirect blocks, directories and path names; and the console's \<open>consoleread\<close>
  and \<open>consolewrite\<close>, which \<open>readi\<close> and \<open>writei\<close> call for a device inode.
\<close>

section \<open>State\<close>

text \<open>
  \<open>struct inode\<close>. An inode pointer is an index of \<open>icache.inode\<close>. The memory that \<open>readi\<close>
  fills and \<open>writei\<close> reads is given as the list of its bytes.
\<close>

record inode =
  idev :: uint
  inum :: uint
  iref :: int
  ilk :: sleeplock
  ivalid :: bool
  itype :: ushort
  imajor :: ushort
  iminor :: ushort
  inlink :: ushort
  isize :: uint
  iaddrs :: "uint list"

record fs_st = log_st +
  sb :: superblock
  inodes :: "nat \<Rightarrow> inode"

abbreviation (input) T_DIR :: ushort where "T_DIR \<equiv> 1"
abbreviation (input) T_FILE :: ushort where "T_FILE \<equiv> 2"
abbreviation (input) T_DEV :: ushort where "T_DEV \<equiv> 3"

definition iupd :: "nat \<Rightarrow> (inode \<Rightarrow> inode) \<Rightarrow> 'z fs_st_scheme \<Rightarrow> 'z fs_st_scheme" where
  "iupd ip f s = s\<lparr>inodes := (inodes s)(ip := f (inodes s ip))\<rparr>"

section \<open>Blocks\<close>

text \<open>Changing the data of a buffer, logging it and giving it back.\<close>

definition log_update :: "nat \<Rightarrow> (block \<Rightarrow> block) \<Rightarrow> 'z fs_st_scheme \<Rightarrow> (unit, 'z fs_st_scheme) res" where
  "log_update bp f s = rbind (log_write bp (bupd bp (\<lambda>x. x\<lparr>data := f (data x)\<rparr>) s)) (\<lambda>_ s. brelse bp s)"

definition bzero :: "uint \<Rightarrow> uint \<Rightarrow> 'z fs_st_scheme \<Rightarrow> (unit, 'z fs_st_scheme) res" where
  "bzero dev bno s = rbind (bread dev bno s) (\<lambda>bp s. log_update bp (\<lambda>_. replicate BSIZE 0) s)"

definition bit_mask :: "nat \<Rightarrow> uchar" where
  "bit_mask bi = push_bit (bi mod 8) 1"

definition bit_free :: "block \<Rightarrow> nat \<Rightarrow> bool" where
  "bit_free b bi \<longleftrightarrow> (b ! (bi div 8)) AND bit_mask bi = 0"

definition set_bit :: "nat \<Rightarrow> block \<Rightarrow> block" where
  "set_bit bi b = b[bi div 8 := b ! (bi div 8) OR bit_mask bi]"

definition clear_bit :: "nat \<Rightarrow> block \<Rightarrow> block" where
  "clear_bit bi b = b[bi div 8 := b ! (bi div 8) AND NOT (bit_mask bi)]"

text \<open>The outer loop over the blocks of the bitmap, the first \<open>b\<close> of each in the list.\<close>

fun balloc_scan :: "uint \<Rightarrow> nat list \<Rightarrow> 'z fs_st_scheme \<Rightarrow> (uint, 'z fs_st_scheme) res" where
  "balloc_scan dev [] s = Panic ''balloc: out of blocks''"
| "balloc_scan dev (b # bs) s =
     rbind (bread dev (BBLOCK (of_nat b) (sb s)) s) (\<lambda>bp s.
       case find (bit_free (data (bufs s bp))) [0..<min BPB (unat (sb_size (sb s)) - b)] of
         Some bi \<Rightarrow>
           rbind (log_update bp (set_bit bi) s) (\<lambda>_ s.
           rbind (bzero dev (of_nat (b + bi)) s) (\<lambda>_ s. Ok (of_nat (b + bi)) s))
       | None \<Rightarrow> rbind (brelse bp s) (\<lambda>_ s. balloc_scan dev bs s))"

definition balloc :: "uint \<Rightarrow> 'z fs_st_scheme \<Rightarrow> (uint, 'z fs_st_scheme) res" where
  "balloc dev s = balloc_scan dev (map (\<lambda>k. BPB * k) [0..<(unat (sb_size (sb s)) + (BPB - 1)) div BPB]) s"

definition bfree :: "uint \<Rightarrow> uint \<Rightarrow> 'z fs_st_scheme \<Rightarrow> (unit, 'z fs_st_scheme) res" where
  "bfree dev b s =
     rbind (bread dev (BBLOCK b (sb s)) s) (\<lambda>bp s.
       let bi = unat b mod BPB
       in if bit_free (data (bufs s bp)) bi then Panic ''freeing free block''
          else log_update bp (clear_bit bi) s)"

section \<open>Inodes\<close>

definition iinit :: "uint \<Rightarrow> 'z fs_st_scheme \<Rightarrow> (unit, 'z fs_st_scheme) res" where
  "iinit dev s =
     (let s = s\<lparr>inodes := \<lambda>i. if i < NINODE then (inodes s i)\<lparr>ilk := initsleeplock\<rparr> else inodes s i\<rparr>
      in rbind (readsb dev s) (\<lambda>x s.
        cprintf (bytes ''sb: size %d nblocks %d ninodes %d nlog %d logstart %d inodestart %d bmap start %d'' @ [10])
          [AInt (sb_size x), AInt (sb_nblocks x), AInt (sb_ninodes x), AInt (sb_nlog x), AInt (sb_logstart x),
           AInt (sb_inodestart x), AInt (sb_bmapstart x)] (s\<lparr>sb := x\<rparr>)))"

definition iget :: "uint \<Rightarrow> uint \<Rightarrow> 'z fs_st_scheme \<Rightarrow> (nat, 'z fs_st_scheme) res" where
  "iget dev ino s =
     (case find (\<lambda>i. iref (inodes s i) > 0 \<and> idev (inodes s i) = dev \<and> inum (inodes s i) = ino) [0..<NINODE] of
        Some ip \<Rightarrow> Ok ip (iupd ip (\<lambda>x. x\<lparr>iref := iref x + 1\<rparr>) s)
      | None \<Rightarrow>
          (case find (\<lambda>i. iref (inodes s i) = 0) [0..<NINODE] of
             None \<Rightarrow> Panic ''iget: no inodes''
           | Some ip \<Rightarrow> Ok ip (iupd ip (\<lambda>x. x\<lparr>idev := dev, inum := ino, iref := 1, ivalid := False\<rparr>) s)))"

fun ialloc_scan :: "uint \<Rightarrow> ushort \<Rightarrow> nat list \<Rightarrow> 'z fs_st_scheme \<Rightarrow> (nat, 'z fs_st_scheme) res" where
  "ialloc_scan dev ty [] s = Panic ''ialloc: no inodes''"
| "ialloc_scan dev ty (i # is) s =
     rbind (bread dev (IBLOCK (of_nat i) (sb s)) s) (\<lambda>bp s.
       if d_type (dinode_at (data (bufs s bp)) (i mod IPB)) = 0
       then rbind (log_update bp (dinode_put (i mod IPB)
              \<lparr>d_type = ty, d_major = 0, d_minor = 0, d_nlink = 0, d_size = 0, d_addrs = replicate (NDIRECT + 1) 0\<rparr>) s)
              (\<lambda>_ s. iget dev (of_nat i) s)
       else rbind (brelse bp s) (\<lambda>_ s. ialloc_scan dev ty is s))"

definition ialloc :: "uint \<Rightarrow> ushort \<Rightarrow> 'z fs_st_scheme \<Rightarrow> (nat, 'z fs_st_scheme) res" where
  "ialloc dev ty s = ialloc_scan dev ty [1..<unat (sb_ninodes (sb s))] s"

definition iupdate :: "nat \<Rightarrow> 'z fs_st_scheme \<Rightarrow> (unit, 'z fs_st_scheme) res" where
  "iupdate ip s =
     rbind (bread (idev (inodes s ip)) (IBLOCK (inum (inodes s ip)) (sb s)) s) (\<lambda>bp s.
       let x = inodes s ip
       in log_update bp (dinode_put (unat (inum x) mod IPB)
            \<lparr>d_type = itype x, d_major = imajor x, d_minor = iminor x, d_nlink = inlink x, d_size = isize x, d_addrs = iaddrs x\<rparr>) s)"

definition idup :: "nat \<Rightarrow> 'z fs_st_scheme \<Rightarrow> (nat, 'z fs_st_scheme) res" where
  "idup ip s = Ok ip (iupd ip (\<lambda>x. x\<lparr>iref := iref x + 1\<rparr>) s)"

definition ilock :: "nat \<Rightarrow> 'z fs_st_scheme \<Rightarrow> (unit, 'z fs_st_scheme) res" where
  "ilock ip s =
     (if iref (inodes s ip) < 1 then Panic ''ilock''
      else rbind (acquiresleep (ChInodeLock ip) (ilk (inodes s ip)) s) (\<lambda>lk s.
        let s = iupd ip (\<lambda>x. x\<lparr>ilk := lk\<rparr>) s
        in if ivalid (inodes s ip) then Ok () s
           else rbind (bread (idev (inodes s ip)) (IBLOCK (inum (inodes s ip)) (sb s)) s) (\<lambda>bp s.
             let d = dinode_at (data (bufs s bp)) (unat (inum (inodes s ip)) mod IPB);
                 s = iupd ip (\<lambda>x. x\<lparr>itype := d_type d, imajor := d_major d, iminor := d_minor d,
                       inlink := d_nlink d, isize := d_size d, iaddrs := d_addrs d\<rparr>) s
             in rbind (brelse bp s) (\<lambda>_ s.
                  let s = iupd ip (\<lambda>x. x\<lparr>ivalid := True\<rparr>) s
                  in if itype (inodes s ip) = 0 then Panic ''ilock: no type'' else Ok () s))))"

definition iunlock :: "nat \<Rightarrow> 'z fs_st_scheme \<Rightarrow> (unit, 'z fs_st_scheme) res" where
  "iunlock ip s =
     rbind (holdingsleep (ilk (inodes s ip)) s) (\<lambda>h s.
       if \<not> h \<or> iref (inodes s ip) < 1 then Panic ''iunlock''
       else rbind (releasesleep (ChInodeLock ip) (ilk (inodes s ip)) s) (\<lambda>lk s. Ok () (iupd ip (\<lambda>x. x\<lparr>ilk := lk\<rparr>) s)))"

section \<open>Truncating and dropping an inode\<close>

definition trunc_direct :: "nat \<Rightarrow> nat \<Rightarrow> 'z fs_st_scheme \<Rightarrow> (unit, 'z fs_st_scheme) res" where
  "trunc_direct ip i s =
     (let x = inodes s ip
      in if iaddrs x ! i \<noteq> 0
         then rbind (bfree (idev x) (iaddrs x ! i) s) (\<lambda>_ s. Ok () (iupd ip (\<lambda>x. x\<lparr>iaddrs := (iaddrs x)[i := 0]\<rparr>) s))
         else Ok () s)"

definition trunc_indirect :: "nat \<Rightarrow> nat \<Rightarrow> nat \<Rightarrow> 'z fs_st_scheme \<Rightarrow> (unit, 'z fs_st_scheme) res" where
  "trunc_indirect ip bp j s =
     (let a = get32 (data (bufs s bp)) (4 * j) in if a \<noteq> 0 then bfree (idev (inodes s ip)) a s else Ok () s)"

definition itrunc :: "nat \<Rightarrow> 'z fs_st_scheme \<Rightarrow> (unit, 'z fs_st_scheme) res" where
  "itrunc ip s =
     rbind (rfor [0..<NDIRECT] (trunc_direct ip) s) (\<lambda>_ s.
     rbind (let x = inodes s ip; a = iaddrs x ! NDIRECT
            in if a \<noteq> 0
               then rbind (bread (idev x) a s) (\<lambda>bp s.
                    rbind (rfor [0..<NINDIRECT] (trunc_indirect ip bp) s) (\<lambda>_ s.
                    rbind (brelse bp s) (\<lambda>_ s.
                    rbind (bfree (idev (inodes s ip)) (iaddrs (inodes s ip) ! NDIRECT) s) (\<lambda>_ s.
                    Ok () (iupd ip (\<lambda>x. x\<lparr>iaddrs := (iaddrs x)[NDIRECT := 0]\<rparr>) s)))))
               else Ok () s) (\<lambda>_ s.
     iupdate ip (iupd ip (\<lambda>x. x\<lparr>isize := 0\<rparr>) s)))"

definition iput :: "nat \<Rightarrow> 'z fs_st_scheme \<Rightarrow> (unit, 'z fs_st_scheme) res" where
  "iput ip s =
     rbind (acquiresleep (ChInodeLock ip) (ilk (inodes s ip)) s) (\<lambda>lk s.
     rbind (let s = iupd ip (\<lambda>x. x\<lparr>ilk := lk\<rparr>) s; x = inodes s ip
            in if ivalid x \<and> inlink x = 0 \<and> iref x = 1
               then rbind (itrunc ip s) (\<lambda>_ s.
                    rbind (iupdate ip (iupd ip (\<lambda>x. x\<lparr>itype := 0\<rparr>) s)) (\<lambda>_ s.
                    Ok () (iupd ip (\<lambda>x. x\<lparr>ivalid := False\<rparr>) s)))
               else Ok () s) (\<lambda>_ s.
     rbind (releasesleep (ChInodeLock ip) (ilk (inodes s ip)) s) (\<lambda>lk s.
     Ok () (iupd ip (\<lambda>x. x\<lparr>iref := iref x - 1\<rparr>) (iupd ip (\<lambda>x. x\<lparr>ilk := lk\<rparr>) s)))))"

definition iunlockput :: "nat \<Rightarrow> 'z fs_st_scheme \<Rightarrow> (unit, 'z fs_st_scheme) res" where
  "iunlockput ip s = rbind (iunlock ip s) (\<lambda>_ s. iput ip s)"

section \<open>Content\<close>

definition bmap :: "nat \<Rightarrow> uint \<Rightarrow> 'z fs_st_scheme \<Rightarrow> (uint, 'z fs_st_scheme) res" where
  "bmap ip bn s =
     (if bn < of_nat NDIRECT then
        (let addr = iaddrs (inodes s ip) ! unat bn
         in if addr = 0
            then rbind (balloc (idev (inodes s ip)) s) (\<lambda>addr s.
                 Ok addr (iupd ip (\<lambda>x. x\<lparr>iaddrs := (iaddrs x)[unat bn := addr]\<rparr>) s))
            else Ok addr s)
      else
        (let bn = bn - of_nat NDIRECT
         in if bn < of_nat NINDIRECT
            then rbind (let addr = iaddrs (inodes s ip) ! NDIRECT
                        in if addr = 0
                           then rbind (balloc (idev (inodes s ip)) s) (\<lambda>addr s.
                                Ok addr (iupd ip (\<lambda>x. x\<lparr>iaddrs := (iaddrs x)[NDIRECT := addr]\<rparr>) s))
                           else Ok addr s) (\<lambda>addr s.
                 rbind (bread (idev (inodes s ip)) addr s) (\<lambda>bp s.
                 rbind (let addr = get32 (data (bufs s bp)) (4 * unat bn)
                        in if addr = 0
                           then rbind (balloc (idev (inodes s ip)) s) (\<lambda>addr s.
                                rbind (log_write bp (bupd bp (\<lambda>x. x\<lparr>data := put32 (4 * unat bn) addr (data x)\<rparr>) s)) (\<lambda>_ s.
                                Ok addr s))
                           else Ok addr s) (\<lambda>addr s.
                 rbind (brelse bp s) (\<lambda>_ s. Ok addr s))))
            else Panic ''bmap: out of range''))"

record stat =
  st_type :: ushort
  st_dev :: uint
  st_ino :: uint
  st_nlink :: ushort
  st_size :: uint

definition stati :: "nat \<Rightarrow> 'z fs_st_scheme \<Rightarrow> stat" where
  "stati ip s = (let x = inodes s ip in
     \<lparr>st_type = itype x, st_dev = idev x, st_ino = inum x, st_nlink = inlink x, st_size = isize x\<rparr>)"

definition consoleread :: "nat \<Rightarrow> cint \<Rightarrow> 'z fs_st_scheme \<Rightarrow> (uchar list option, 'z fs_st_scheme) res" where
  "consoleread ip n s =
     rbind (iunlock ip s) (\<lambda>_ s. rbind (cons_read (nat (sint n)) [] s) (\<lambda>r s. rbind (ilock ip s) (\<lambda>_ s. Ok r s)))"

definition consolewrite :: "nat \<Rightarrow> uchar list \<Rightarrow> 'z fs_st_scheme \<Rightarrow> (int, 'z fs_st_scheme) res" where
  "consolewrite ip cs s =
     rbind (iunlock ip s) (\<lambda>_ s. rbind (consputs cs s) (\<lambda>_ s. rbind (ilock ip s) (\<lambda>_ s. Ok (int (length cs)) s)))"

text \<open>\<open>devsw\<close> has one entry, that of the console.\<close>

definition devsw_ok :: "nat \<Rightarrow> 'z fs_st_scheme \<Rightarrow> bool" where
  "devsw_ok ip s \<longleftrightarrow> imajor (inodes s ip) = 1 \<and> consdev s"

text \<open>
  The loops of \<open>readi\<close> and \<open>writei\<close> with \<open>n\<close> bytes to go from offset \<open>off\<close>. The value of
  \<open>readi\<close> is the bytes it stores at \<open>dst\<close>, or \<open>None\<close> for -1.
\<close>

function readi_loop :: "nat \<Rightarrow> nat \<Rightarrow> nat \<Rightarrow> 'z fs_st_scheme \<Rightarrow> (uchar list, 'z fs_st_scheme) res" where
  "readi_loop ip off n s =
     (if n = 0 then Ok [] s
      else rbind (bmap ip (of_nat (off div BSIZE)) s) (\<lambda>addr s.
        rbind (bread (idev (inodes s ip)) addr s) (\<lambda>bp s.
        let m = min n (BSIZE - off mod BSIZE);
            chunk = take m (drop (off mod BSIZE) (data (bufs s bp)))
        in rbind (brelse bp s) (\<lambda>_ s.
           rbind (readi_loop ip (off + m) (n - m) s) (\<lambda>rest s. Ok (chunk @ rest) s)))))"
  by pat_completeness auto
termination
  by (relation "measure (\<lambda>(ip, off, n, s). n)") auto

definition readi :: "nat \<Rightarrow> uint \<Rightarrow> uint \<Rightarrow> 'z fs_st_scheme \<Rightarrow> (uchar list option, 'z fs_st_scheme) res" where
  "readi ip off n s =
     (let x = inodes s ip
      in if itype x = T_DEV
         then (if devsw_ok ip s then consoleread ip n s else Ok None s)
         else if off > isize x \<or> off + n < off then Ok None s
         else let n = (if off + n > isize x then isize x - off else n)
              in rbind (readi_loop ip (unat off) (unat n) s) (\<lambda>r s. Ok (Some r) s))"

function writei_loop :: "nat \<Rightarrow> nat \<Rightarrow> uchar list \<Rightarrow> 'z fs_st_scheme \<Rightarrow> (unit, 'z fs_st_scheme) res" where
  "writei_loop ip off src s =
     (if src = [] then Ok () s
      else rbind (bmap ip (of_nat (off div BSIZE)) s) (\<lambda>addr s.
        rbind (bread (idev (inodes s ip)) addr s) (\<lambda>bp s.
        let m = min (length src) (BSIZE - off mod BSIZE)
        in rbind (log_update bp (put_bytes (off mod BSIZE) (take m src)) s) (\<lambda>_ s.
           writei_loop ip (off + m) (drop m src) s))))"
  by pat_completeness auto
termination
  by (relation "measure (\<lambda>(ip, off, src, s). length src)") auto

definition writei :: "nat \<Rightarrow> uchar list \<Rightarrow> uint \<Rightarrow> 'z fs_st_scheme \<Rightarrow> (int, 'z fs_st_scheme) res" where
  "writei ip src off s =
     (let x = inodes s ip; n = of_nat (length src)
      in if itype x = T_DEV
         then (if devsw_ok ip s then consolewrite ip src s else Ok (- 1) s)
         else if off > isize x \<or> off + n < off then Ok (- 1) s
         else if off + n > of_nat (MAXFILE * BSIZE) then Ok (- 1) s
         else rbind (writei_loop ip (unat off) src s) (\<lambda>_ s.
              rbind (if n > 0 \<and> off + n > isize (inodes s ip)
                     then iupdate ip (iupd ip (\<lambda>x. x\<lparr>isize := off + n\<rparr>) s) else Ok () s) (\<lambda>_ s.
              Ok (int (length src)) s)))"

declare readi_loop.simps [simp del] writei_loop.simps [simp del]

section \<open>Directories\<close>

definition namecmp :: "uchar list \<Rightarrow> uchar list \<Rightarrow> int" where
  "namecmp p q = strncmp p q DIRSIZ"

text \<open>The offsets of the entries of a directory.\<close>

definition dir_offs :: "uint \<Rightarrow> nat list" where
  "dir_offs n = map (\<lambda>k. 16 * k) [0..<(unat n + 15) div 16]"

definition read_dirent :: "string \<Rightarrow> nat \<Rightarrow> nat \<Rightarrow> 'z fs_st_scheme \<Rightarrow> (dirent, 'z fs_st_scheme) res" where
  "read_dirent msg dp off s =
     rbind (readi dp (of_nat off) 16 s) (\<lambda>r s.
       case r of None \<Rightarrow> Panic msg | Some b \<Rightarrow> if length b \<noteq> 16 then Panic msg else Ok (dirent_of b) s)"

fun dir_scan :: "nat \<Rightarrow> uchar list \<Rightarrow> nat list \<Rightarrow> 'z fs_st_scheme \<Rightarrow> ((uint \<times> nat) option, 'z fs_st_scheme) res" where
  "dir_scan dp nm [] s = Ok None s"
| "dir_scan dp nm (off # offs) s =
     rbind (read_dirent ''dirlookup read'' dp off s) (\<lambda>de s.
       if de_inum de = 0 then dir_scan dp nm offs s
       else if namecmp nm (de_name de) = 0 then Ok (Some (ucast (de_inum de), off)) s
       else dir_scan dp nm offs s)"

text \<open>The value is the inode and the offset that the code stores in \<open>*poff\<close>.\<close>

definition dirlookup :: "nat \<Rightarrow> uchar list \<Rightarrow> 'z fs_st_scheme \<Rightarrow> ((nat \<times> nat) option, 'z fs_st_scheme) res" where
  "dirlookup dp nm s =
     (if itype (inodes s dp) \<noteq> T_DIR then Panic ''dirlookup not DIR''
      else rbind (dir_scan dp nm (dir_offs (isize (inodes s dp))) s) (\<lambda>r s.
        case r of
          None \<Rightarrow> Ok None s
        | Some (ino, off) \<Rightarrow> rbind (iget (idev (inodes s dp)) ino s) (\<lambda>ip s. Ok (Some (ip, off)) s)))"

fun free_dirent :: "nat \<Rightarrow> nat list \<Rightarrow> nat \<Rightarrow> 'z fs_st_scheme \<Rightarrow> (nat, 'z fs_st_scheme) res" where
  "free_dirent dp [] eof s = Ok eof s"
| "free_dirent dp (off # offs) eof s =
     rbind (read_dirent ''dirlink read'' dp off s) (\<lambda>de s.
       if de_inum de = 0 then Ok off s else free_dirent dp offs eof s)"

definition dirlink :: "nat \<Rightarrow> uchar list \<Rightarrow> uint \<Rightarrow> 'z fs_st_scheme \<Rightarrow> (int, 'z fs_st_scheme) res" where
  "dirlink dp nm ino s =
     rbind (dirlookup dp nm s) (\<lambda>r s.
       case r of
         Some (ip, _) \<Rightarrow> rbind (iput ip s) (\<lambda>_ s. Ok (- 1) s)
       | None \<Rightarrow>
           let offs = dir_offs (isize (inodes s dp))
           in rbind (free_dirent dp offs (16 * length offs) s) (\<lambda>off s.
              rbind (writei dp (dirent_bytes \<lparr>de_inum = ucast ino, de_name = strncpy nm DIRSIZ\<rparr>) (of_nat off) s) (\<lambda>r s.
              if r \<noteq> 16 then Panic ''dirlink'' else Ok 0 s)))"

section \<open>Paths\<close>

text \<open>\<open>skipelem\<close>: the element, cut to DIRSIZ bytes, and the rest of the path.\<close>

definition skipelem :: "uchar list \<Rightarrow> (uchar list \<times> uchar list) option" where
  "skipelem path =
     (let p = dropWhile (\<lambda>c. c = 47) path
      in if chd p = 0 then None
         else let e = takeWhile (\<lambda>c. c \<noteq> 47 \<and> c \<noteq> 0) p; r = dropWhile (\<lambda>c. c \<noteq> 47 \<and> c \<noteq> 0) p
              in Some (take DIRSIZ e, dropWhile (\<lambda>c. c = 47) r))"

lemma skipelem_shorter: "skipelem path = Some (e, rest) \<Longrightarrow> length rest < length path"
proof -
  assume h: "skipelem path = Some (e, rest)"
  let ?p = "dropWhile (\<lambda>c. c = 47) path" and ?P = "\<lambda>c :: uchar. c \<noteq> 47 \<and> c \<noteq> 0"
  have p: "chd ?p \<noteq> 0" "rest = dropWhile (\<lambda>c. c = 47) (dropWhile ?P ?p)"
    using h by (auto simp: skipelem_def Let_def split: if_splits)
  then obtain c q where q: "?p = c # q" by (auto simp: chd_def split: list.splits)
  have "c \<noteq> 47" using q hd_dropWhile [of "\<lambda>c. c = 47" path] by simp
  then have "?P c" using p(1) q by (simp add: chd_def)
  then have "length (dropWhile ?P ?p) \<le> length q" using q by (simp add: length_dropWhile_le)
  moreover have "length rest \<le> length (dropWhile ?P ?p)" unfolding p(2) by (rule length_dropWhile_le)
  moreover have "length ?p \<le> length path" by (rule length_dropWhile_le)
  ultimately show ?thesis using q by simp
qed

text \<open>
  The loop of \<open>namex\<close>; the value is the inode, if any, and the last element it cut off, which
  the code leaves in \<open>name\<close>.
\<close>

function namex_loop :: "bool \<Rightarrow> nat \<Rightarrow> uchar list \<Rightarrow> uchar list \<Rightarrow> 'z fs_st_scheme \<Rightarrow> (nat option \<times> uchar list, 'z fs_st_scheme) res" where
  "namex_loop par ip path nm s =
     (case skipelem path of
        None \<Rightarrow> if par then rbind (iput ip s) (\<lambda>_ s. Ok (None, nm) s) else Ok (Some ip, nm) s
      | Some (nm, path') \<Rightarrow>
          rbind (ilock ip s) (\<lambda>_ s.
          if itype (inodes s ip) \<noteq> T_DIR then rbind (iunlockput ip s) (\<lambda>_ s. Ok (None, nm) s)
          else if par \<and> chd path' = 0 then rbind (iunlock ip s) (\<lambda>_ s. Ok (Some ip, nm) s)
          else rbind (dirlookup ip nm s) (\<lambda>r s.
               rbind (iunlockput ip s) (\<lambda>_ s.
               case r of None \<Rightarrow> Ok (None, nm) s | Some (next, _) \<Rightarrow> namex_loop par next path' nm s))))"
  by pat_completeness auto
termination
  by (relation "measure (\<lambda>(p, ip, path, nm, s). length path)") (auto simp: skipelem_shorter)

declare namex_loop.simps [simp del]

definition namex :: "bool \<Rightarrow> uchar list \<Rightarrow> 'z fs_st_scheme \<Rightarrow> (nat option \<times> uchar list, 'z fs_st_scheme) res" where
  "namex par path s =
     rbind (if chd path = 47 then iget 1 ROOTINO s
            else case cproc s of
                None \<Rightarrow> Panic ''trap''
              | Some r \<Rightarrow> (case cwd (pget s r) of None \<Rightarrow> Panic ''trap'' | Some ip \<Rightarrow> idup ip s))
       (\<lambda>ip s. namex_loop par ip path [] s)"

definition namei :: "uchar list \<Rightarrow> 'z fs_st_scheme \<Rightarrow> (nat option, 'z fs_st_scheme) res" where
  "namei path s = rbind (namex False path s) (\<lambda>r s. Ok (fst r) s)"

definition nameiparent :: "uchar list \<Rightarrow> 'z fs_st_scheme \<Rightarrow> (nat option \<times> uchar list, 'z fs_st_scheme) res" where
  "nameiparent path s = namex True path s"

end
