(* ===== verification/Txn.thy ===== *)
theory Txn
  imports Recovery Fs
begin

text \<open>
  Buffers inside a transaction: reading a block, changing and logging it, and giving it back
  keep \<open>log_inv\<close>, so that a sequence of them ends in a state that \<open>commit\<close> handles.
\<close>

section \<open>What an operation of a transaction may change\<close>

definition lstep :: "'z log_st_scheme \<Rightarrow> 'z log_st_scheme \<Rightarrow> bool" where
  "lstep s t \<longleftrightarrow> t = s\<lparr>ptable := ptable t, bufs := bufs t, dhist := dhist t, lh_n := lh_n t, lh_block := lh_block t\<rparr> \<and>
     dhist t = dhist s"

lemma lstep_refl [simp]: "lstep s s"
  by (simp add: lstep_def)

lemma lstepE:
  assumes "lstep s t"
  obtains p bf n bl where "t = s\<lparr>ptable := p, bufs := bf, lh_n := n, lh_block := bl\<rparr>"
proof -
  have "t = s\<lparr>ptable := ptable t, bufs := bufs t, dhist := dhist t, lh_n := lh_n t, lh_block := lh_block t\<rparr>" "dhist t = dhist s"
    using assms by (auto simp: lstep_def)
  then have "t = s\<lparr>ptable := ptable t, bufs := bufs t, lh_n := lh_n t, lh_block := lh_block t\<rparr>" by simp
  then show thesis by (rule that)
qed

lemma lstepI: "lstep s (s\<lparr>ptable := p, bufs := bf, lh_n := n, lh_block := bl\<rparr>)"
  by (simp add: lstep_def)

lemma lstep_trans [trans]: "lstep s t \<Longrightarrow> lstep t u \<Longrightarrow> lstep s u"
proof -
  assume h: "lstep s t" "lstep t u"
  obtain p bf n bl where t: "t = s\<lparr>ptable := p, bufs := bf, lh_n := n, lh_block := bl\<rparr>" using h(1) by (rule lstepE)
  obtain p' bf' n' bl' where u: "u = t\<lparr>ptable := p', bufs := bf', lh_n := n', lh_block := bl'\<rparr>" using h(2) by (rule lstepE)
  have "u = s\<lparr>ptable := p', bufs := bf', lh_n := n', lh_block := bl'\<rparr>" unfolding u t by simp
  then show ?thesis using lstepI by simp
qed

lemma lstep_bstep: "bstep s t \<Longrightarrow> dhist t = dhist s \<Longrightarrow> lstep s t" for s :: "'z log_st_scheme"
proof -
  assume h: "bstep s t" "dhist t = dhist s"
  obtain p bf d where t: "t = s\<lparr>ptable := p, bufs := bf, dhist := d\<rparr>" using h(1) by (rule bstepE)
  have "t = s\<lparr>ptable := p, bufs := bf, lh_n := lh_n s, lh_block := lh_block s\<rparr>" using t h(2) by simp
  then show ?thesis using lstepI [where s = s and p = p and bf = bf and n = "lh_n s" and bl = "lh_block s"] by simp
qed

lemma lstep_fields:
  assumes "lstep s t"
  shows "log_start t = log_start s" "log_size t = log_size s" "log_dev t = log_dev s" "outstanding t = outstanding s"
    "committing t = committing s" "dhist t = dhist s" "disk t = disk s" "log_area t = log_area s" "log_st.more t = log_st.more s"
  using assms by (auto elim!: lstepE simp: disk_def log_area_def)

text \<open>Room for \<open>k\<close> more blocks in the log.\<close>

definition room :: "nat \<Rightarrow> 'z log_st_scheme \<Rightarrow> bool" where
  "room k s \<longleftrightarrow> lh_n s + k < LOGSIZE \<and> int (lh_n s + k) < sint (log_size s) \<and> 1 \<le> outstanding s"

lemma room_lt: "room k s \<Longrightarrow> j \<le> k \<Longrightarrow> lh_n s + j < LOGSIZE"
  by (simp add: room_def)

section \<open>Reading and giving back\<close>

lemma dirty_card: "log_inv pd H s \<Longrightarrow> card (dirty (bufs s)) \<le> lh_n s"
  using card_length [of "homes s"] length_homes [of s] by (auto simp: log_inv_def)

lemma txn_free:
  assumes "log_inv pd H s" "lh_n s + card H < LOGSIZE"
  shows "\<exists>c < NBUF. c \<notin> H \<and> \<not> bdirty (bufs s c)"
proof -
  let ?D = "sector_of ` (bufs s ` H)"
  have inv: "binv pd H s" using assms(1) by (simp add: log_inv_def)
  have f: "finite H" using inv finite_subset [of H "{..<NBUF}"] by (auto simp: binv_def cache_ok_def)
  have "card ?D \<le> card H" using f by (metis card_image_le finite_imageI le_trans)
  then have "card (dirty (bufs s) \<union> ?D) < NBUF"
    using card_Un_le [of "dirty (bufs s)" ?D] dirty_card [OF assms(1)] assms(2) by simp
  then show ?thesis using clean_buffer [OF inv, of ?D] f by simp
qed

lemma log_inv_bstep:
  fixes s :: "'z log_st_scheme"
  assumes "log_inv pd H s" "bstep s t" "dhist t = dhist s" "binv pd H' t" "dirty (bufs t) = dirty (bufs s)"
  shows "log_inv pd H' t"
  using assms bstep_geo [OF assms(2)] bstep_log [OF assms(2)] disk_same [OF assms(2,3)] by (simp add: log_inv_def)

lemma room_bstep: "bstep s t \<Longrightarrow> room k t = room k s" for s :: "'z log_st_scheme"
  using bstep_log [of s t] by (simp add: room_def)

text \<open>A buffer holds the content of its block unless its owner has changed it.\<close>

definition fresh :: "nat \<Rightarrow> 'z log_st_scheme \<Rightarrow> bool" where
  "fresh b s \<longleftrightarrow> bdirty (bufs s b) \<or> data (bufs s b) = disk s 1 (sector_of (bufs s b))"

lemma txn_read:
  fixes s :: "'z log_st_scheme"
  assumes "log_inv pd H s" "lh_n s + card H < LOGSIZE" "unat n < FSSIZE" "\<forall>b \<in> H. blockno (bufs s b) \<noteq> n"
  obtains b t where "bread 1 n s = Ok b t" "b \<notin> H" "log_inv pd (insert b H) t" "bstep s t" "dhist t = dhist s" "bview t = bview s"
    "blockno (bufs t b) = n" "data (bufs t b) = bview s (unat n)" "keeps_held H (bufs s) (bufs t)" "fresh b t"
proof -
  have inv: "binv pd H s" using assms(1) by (simp add: log_inv_def)
  obtain b t where b: "bread 1 n s = Ok b t" "b < NBUF" "b \<notin> H" "binv pd (insert b H) t" "bstep s t" "dhist t = dhist s"
    "bview t = bview s" "blockno (bufs t b) = n" "data (bufs t b) = bview s (unat n)"
    "keeps_held H (bufs s) (bufs t)" "dirty (bufs t) = dirty (bufs s)" "bdirty (bufs t b) \<longleftrightarrow> unat n \<in> dirty (bufs s)"
    by (rule bread_ok [OF inv assms(3,4) disjI2 [OF txn_free [OF assms(1,2)]]])
  have "\<forall>b \<in> H. sector_of (bufs s b) \<noteq> unat n" using assms(4) by (simp add: sector_of_def word_unat_eq_iff)
  then have "bview s (unat n) = disk s 1 (unat n)" if "unat n \<notin> dirty (bufs s)" using view_clean [OF inv that] by simp
  then have "fresh b t" using b(8,9,12) disk_same [OF b(5,6)] by (auto simp: fresh_def sector_of_def)
  with b(3,5-10) log_inv_bstep [OF assms(1) b(5,6,4,11)] show thesis by (intro that [OF b(1)])
qed

lemma keeps_heldI: "\<forall>c. c \<noteq> b \<longrightarrow> content (bf' c) = content (bf c) \<Longrightarrow> b \<notin> H \<Longrightarrow> keeps_held H bf bf'"
  by (auto simp: keeps_held_def)

lemma txn_release:
  fixes s :: "'z log_st_scheme"
  assumes "log_inv pd (insert b H) s" "b \<notin> H" "fresh b s"
  obtains t where "brelse b s = Ok () t" "log_inv pd H t" "bstep s t" "dhist t = dhist s" "bview t = bview s"
    "keeps_held H (bufs s) (bufs t)"
proof -
  have inv: "binv pd (insert b H) s" using assms(1) by (simp add: log_inv_def)
  have e: "insert b H - {b} = H" using assms(2) by auto
  obtain t where t: "brelse b s = Ok () t" "binv pd (insert b H - {b}) t" "bstep s t" "bview t = bview s" "dhist t = dhist s"
    "\<forall>c. c \<noteq> b \<longrightarrow> content (bufs t c) = content (bufs s c)" "dirty (bufs t) = dirty (bufs s)"
    by (rule brelse_held [OF inv insertI1 assms(3) [unfolded fresh_def]])
  show thesis
    by (rule that [OF t(1) log_inv_bstep [OF assms(1) t(3,5) t(2) [unfolded e] t(7)] t(3,5,4) keeps_heldI [OF t(6) assms(2)]])
qed

section \<open>Logging a block\<close>

text \<open>The in-memory header after \<open>log_write\<close>: the block is in it once.\<close>

lemma log_absorb:
  assumes "N < length bl" "distinct (take N bl)"
    "i = (case find_idx (\<lambda>x. x = n) (take N bl) 0 of Some i \<Rightarrow> i | None \<Rightarrow> N)" "M = (if i = N then N + 1 else N)"
  shows "set (take M (bl[i := n])) = insert n (set (take N bl))" "distinct (take M (bl[i := n]))" "N \<le> M" "M \<le> N + 1"
proof -
  have "set (take M (bl[i := n])) = insert n (set (take N bl)) \<and> distinct (take M (bl[i := n]))"
  proof (cases "find_idx (\<lambda>x. x = n) (take N bl) 0")
    case None
    then have "n \<notin> set (take N bl)" by (auto simp: find_idx_None)
    moreover have "take (Suc N) (bl[N := n]) = take N bl @ [n]" using assms(1) by (simp add: take_Suc_conv_app_nth)
    ultimately show ?thesis using None assms by auto
  next
    case (Some j)
    then have j: "j < N" "bl ! j = n" using find_idx0 [OF Some] by auto
    then have "bl[j := n] = bl" "n \<in> set (take N bl)" using assms(1) by (auto simp: in_set_conv_nth)
    then show ?thesis using Some j assms by auto
  qed
  then show "set (take M (bl[i := n])) = insert n (set (take N bl))" "distinct (take M (bl[i := n]))" by auto
qed (use assms(4) in auto)

lemma dirty_mark:
  assumes "binv pd H s" "b \<in> H"
  shows "dirty ((bufs s)(b := (bufs s b)\<lparr>bdirty := True\<rparr>)) = insert (sector_of (bufs s b)) (dirty (bufs s))"
  using binv_held(1) [OF assms] by (auto simp: dirty_def sector_of_def)

lemma log_write_ok:
  fixes s :: "'z log_st_scheme"
  assumes "log_inv pd H s" "b \<in> H" "sector_of (bufs s b) \<notin> log_area s" "room 1 s"
  obtains t where "log_write b s = Ok () t" "log_inv pd H t" "lstep s t" "bview t = bview s" "fresh b t"
    "\<forall>c. c \<noteq> b \<longrightarrow> bufs t c = bufs s c" "lh_n t \<le> lh_n s + 1" "lh_n s \<le> lh_n t"
    "set (homes t) = insert (sector_of (bufs s b)) (set (homes s))"
proof -
  let ?bl = "lh_block s" and ?N = "lh_n s" and ?n = "blockno (bufs s b)"
  define i where "i = (case find_idx (\<lambda>x. x = ?n) (take ?N ?bl) 0 of Some i \<Rightarrow> i | None \<Rightarrow> ?N)"
  define M where "M = (if i = ?N then ?N + 1 else ?N)"
  have inv: "binv pd H s" and geo: "log_geo s" and dd: "dirty (bufs s) = set (homes s)"
    and hd: "hdr_n (disk s 1 (unat (log_start s))) = 0"
    using assms(1) by (auto simp: log_inv_def)
  have N: "?N < length ?bl" "distinct (take ?N ?bl)" using geo by (auto simp: log_geo_def homes_def distinct_map)
  note ab = log_absorb [OF N i_def M_def]
  let ?s = "s\<lparr>lh_n := M, lh_block := ?bl[i := ?n]\<rparr>"
  let ?t = "bupd b (\<lambda>x. x\<lparr>bdirty := True\<rparr>) ?s"
  have g: "lh_n s < LOGSIZE" "int (lh_n s) < sint (log_size s) - 1" "1 \<le> outstanding s" using assms(4) by (auto simp: room_def)
  have run: "log_write b s = Ok () ?t"
    using g by (simp add: log_write_def Let_def i_def [symmetric] M_def bupd_def)
  note h = binv_held [OF inv assms(2)]
  have inv': "binv pd H ?s" using inv by simp
  have "same_buf (bufs ?s b) ((\<lambda>x. x\<lparr>bdirty := True\<rparr>) (bufs ?s b))" "bvalid ((\<lambda>x. x\<lparr>bdirty := True\<rparr>) (bufs ?s b))"
    "length (data ((\<lambda>x. x\<lparr>bdirty := True\<rparr>) (bufs ?s b))) = BSIZE" using h by (simp_all add: same_buf_def)
  note bv = binv_bupd [where f = "\<lambda>x. x\<lparr>bdirty := True\<rparr>", OF inv' assms(2) this]
  have bt: "bufs ?t = (bufs s)(b := (bufs s b)\<lparr>bdirty := True\<rparr>)" by (simp add: bupd_def)
  have vt: "bview ?t = bview s" unfolding bv(3) using h(9) by auto
  have hs: "set (homes ?t) = insert (sector_of (bufs s b)) (set (homes s))"
    using ab(1) by (simp add: homes_def bupd_def sector_of_def flip: image_insert)
  have ds: "distinct (homes ?t)" using ab(2) by (simp add: homes_def bupd_def distinct_map inj_on_def word_unat_eq_iff)
  have ar: "log_area ?t = log_area s" "disk ?t = disk s" by (simp_all add: log_area_def bupd_def disk_def)
  have M: "M < LOGSIZE" "int M < sint (log_size s)" using ab(4) assms(4) by (auto simp: room_def)
  have "M < unat (log_size s)"
  proof -
    have "sint (log_size s) \<le> uint (log_size s)"
      using take_bit_int_less_eq_self_iff [of 32 "uint (log_size s)"] by (auto simp: sint_uint signed_take_bit_eq_take_bit_minus)
    then have "int M < int (unat (log_size s))" unfolding of_nat_unat using M(2) by linarith
    then show ?thesis by (rule of_nat_less_imp_less)
  qed
  then have gt: "log_geo ?t" using geo hs ds M(1) h(7) assms(3) ar by (auto simp: log_geo_def bupd_def)
  have "dirty (bufs ?t) = set (homes ?t)" unfolding bt hs dirty_mark [OF inv assms(2)] dd ..
  then have li: "log_inv pd H ?t" using bv(1) gt hd ar by (simp add: log_inv_def bupd_def)
  have "lstep s ?t" by (simp add: lstep_def bupd_def)
  moreover have "fresh b ?t" by (simp add: fresh_def bt)
  moreover have "lh_n ?t = M" by (simp add: bupd_def)
  ultimately show thesis using run li vt hs ab(3,4) by (intro that [of ?t]) (simp_all add: bt)
qed

text \<open>Changing a held block, logging it and giving it back.\<close>

lemma log_update_ok:
  fixes s :: "'z fs_st_scheme"
  assumes "log_inv pd (insert b H) s" "b \<notin> H" "sector_of (bufs s b) \<notin> log_area s" "room 1 s" "length (f (data (bufs s b))) = BSIZE"
  obtains t where "log_update b f s = Ok () t" "log_inv pd H t" "lstep s t"
    "bview t = (bview s)(sector_of (bufs s b) := f (data (bufs s b)))" "keeps_held H (bufs s) (bufs t)"
    "lh_n t \<le> lh_n s + 1" "lh_n s \<le> lh_n t" "set (homes t) = insert (sector_of (bufs s b)) (set (homes s))"
proof -
  let ?f = "\<lambda>x. x\<lparr>data := f (data x)\<rparr>" and ?n = "sector_of (bufs s b)"
  have inv: "binv pd (insert b H) s" using assms(1) by (simp add: log_inv_def)
  define u where "u = bupd b ?f s"
  have "same_buf (bufs s b) (?f (bufs s b))" "bvalid (?f (bufs s b))" "length (data (?f (bufs s b))) = BSIZE"
    using assms(5) binv_held(3) [OF inv, of b] by (simp_all add: same_buf_def)
  note bv = binv_bupd [where f = ?f, OF inv insertI1 this, folded u_def]
  have bu: "bufs u = (bufs s)(b := ?f (bufs s b))" "dhist u = dhist s" by (simp_all add: u_def bupd_def)
  have "dirty (bufs u) = dirty (bufs s)" by (auto simp: bu dirty_def sector_of_def)
  then have li: "log_inv pd (insert b H) u" using log_inv_bstep [OF assms(1) bv(2) bu(2) bv(1)] by simp
  have su: "sector_of (bufs u b) = ?n" by (simp add: bu sector_of_def)
  obtain v where v: "log_write b u = Ok () v" "log_inv pd (insert b H) v" "lstep u v" "bview v = bview u" "fresh b v"
    "\<forall>c. c \<noteq> b \<longrightarrow> bufs v c = bufs u c" "lh_n v \<le> lh_n u + 1" "lh_n u \<le> lh_n v" "set (homes v) = insert (sector_of (bufs u b)) (set (homes u))"
    by (rule log_write_ok [OF li insertI1]) (use assms(3,4) su bstep_geo(3) [OF bv(2)] room_bstep [OF bv(2)] in simp_all)
  obtain t where t: "brelse b v = Ok () t" "log_inv pd H t" "bstep v t" "dhist t = dhist v" "bview t = bview v"
    "keeps_held H (bufs v) (bufs t)"
    by (rule txn_release [OF v(2) assms(2) v(5)])
  have "log_update b f s = Ok () t" using v(1) t(1) by (simp add: log_update_def u_def)
  moreover have "lstep s t"
    using lstep_trans [OF lstep_bstep [OF bv(2) bu(2)] lstep_trans [OF v(3) lstep_bstep [OF t(3,4)]]] .
  moreover have "bview t = (bview s)(?n := f (data (bufs s b)))" using t(5) v(4) bv(3) by simp
  moreover have "keeps_held H (bufs s) (bufs t)"
    using t(6) v(6) assms(2) by (auto simp: keeps_held_def bu)
  moreover have "lh_n t \<le> lh_n s + 1" "lh_n s \<le> lh_n t" "set (homes t) = insert ?n (set (homes s))"
    using v(7,8,9) bstep_log(4) [OF bv(2)] bstep_log(4) [OF t(3)] bstep_geo(2) [OF bv(2)] bstep_geo(2) [OF t(3)] su by auto
  ultimately show thesis using t(2) by (intro that [of t])
qed

lemma room_step: "room (k + 1) s \<Longrightarrow> lstep s t \<Longrightarrow> lh_n t \<le> lh_n s + 1 \<Longrightarrow> room k t"
  using lstep_fields [of s t] by (simp add: room_def)

lemma room_mono: "room k s \<Longrightarrow> j \<le> k \<Longrightarrow> room j s"
  by (simp add: room_def)

text \<open>Reading a block, changing it and logging it, with other blocks held.\<close>

lemma txn_modify:
  fixes s :: "'z fs_st_scheme"
  assumes "log_inv pd H s" "room (card H + 1) s" "unat n < FSSIZE" "unat n \<notin> log_area s" "\<forall>b \<in> H. blockno (bufs s b) \<noteq> n"
    "length (f (bview s (unat n))) = BSIZE"
  obtains t where "rbind (bread 1 n s) (\<lambda>bp s. log_update bp f s) = Ok () t" "log_inv pd H t" "lstep s t"
    "bview t = (bview s)(unat n := f (bview s (unat n)))" "keeps_held H (bufs s) (bufs t)" "lh_n t \<le> lh_n s + 1"
    "lh_n s \<le> lh_n t" "set (homes t) = insert (unat n) (set (homes s))"
proof -
  obtain b u where u: "bread 1 n s = Ok b u" "b \<notin> H" "log_inv pd (insert b H) u" "bstep s u" "dhist u = dhist s" "bview u = bview s"
    "blockno (bufs u b) = n" "data (bufs u b) = bview s (unat n)" "keeps_held H (bufs s) (bufs u)" "fresh b u"
    by (rule txn_read [OF assms(1) room_lt [OF assms(2)] assms(3,5)]) simp
  have n: "sector_of (bufs u b) = unat n" using u(7) by (simp add: sector_of_def)
  obtain t where t: "log_update b f u = Ok () t" "log_inv pd H t" "lstep u t"
    "bview t = (bview u)(sector_of (bufs u b) := f (data (bufs u b)))" "keeps_held H (bufs u) (bufs t)"
    "lh_n t \<le> lh_n u + 1" "lh_n u \<le> lh_n t" "set (homes t) = insert (sector_of (bufs u b)) (set (homes u))"
    by (rule log_update_ok [OF u(3,2), of f])
      (use n u(8) assms(4,6) bstep_geo(3) [OF u(4)] room_bstep [OF u(4)] room_mono [OF assms(2), of 1] in simp_all)
  show thesis
    by (rule that [of t])
      (use t u n lstep_trans [OF lstep_bstep [OF u(4,5)] t(3)] bstep_log(4) [OF u(4)] bstep_geo(2) [OF u(4)] in \<open>auto simp: keeps_held_def\<close>)
qed

section \<open>A transaction\<close>

lemma running_op [simp]:
  "running (s\<lparr>outstanding := k\<rparr>) pd = running s pd" "running (s\<lparr>committing := c\<rparr>) pd = running s pd"
  for s :: "'z log_st_scheme"
  by (rule running_cong; simp)+

lemma op_simps [simp]:
  "log_inv pd H (s\<lparr>outstanding := k\<rparr>) = log_inv pd H s" "bview (s\<lparr>outstanding := k\<rparr>) = bview s"
  "log_inv pd H (s\<lparr>committing := c\<rparr>) = log_inv pd H s" "bview (s\<lparr>committing := c\<rparr>) = bview s"
  "log_area (s\<lparr>outstanding := k\<rparr>) = log_area s" "log_area (s\<lparr>committing := c\<rparr>) = log_area s"
  "disk (s\<lparr>outstanding := k\<rparr>) = disk s" "disk (s\<lparr>committing := c\<rparr>) = disk s"
  for s :: "'z log_st_scheme"
  by (simp_all add: log_inv_def binv_def bview_def disk_def log_geo_def homes_def log_area_def)

lemma wakeup_step: "bstep s (wakeup ch s)" "dhist (wakeup ch s) = dhist s" "bufs (wakeup ch s) = bufs s"
  using woken_wakeup [of s ch] by (simp_all add: bstep_def wakeup_def wakeup1_def)

lemma log_inv_wakeup:
  fixes s :: "'z log_st_scheme"
  assumes "log_inv pd H s"
  shows "log_inv pd H (wakeup ch s)"
proof -
  have "binv pd H (wakeup ch s)"
    using assms binv_bstep [OF _ wakeup_step(1,2), of pd H s H ch] by (auto simp: log_inv_def binv_def wakeup_step(3))
  then show ?thesis using log_inv_bstep [OF assms wakeup_step(1,2)] by (simp add: wakeup_step(3))
qed

lemma bview_length: "binv pd H s \<Longrightarrow> n < FSSIZE \<Longrightarrow> length (bview s n) = BSIZE"
proof (cases "find (\<lambda>b. bdev (bufs s b) = 1 \<and> sector_of (bufs s b) = n) [0..<NBUF]")
  case (Some b)
  assume "binv pd H s"
  then show ?thesis using Some find_in [OF Some]
    by (auto simp: binv_def cache_ok_def buf_ok_def bview_def view_def simp del: upt_rec_numeral)
qed (simp add: bview_def view_def binv_def)

text \<open>
  The blocks a transaction changes, each read, changed and logged in turn as \<open>bzero\<close>,
  \<open>bfree\<close>, \<open>iupdate\<close> and \<open>writei\<close> do, and the effect on the content of the disk.
\<close>

definition modify_block :: "uint \<times> (block \<Rightarrow> block) \<Rightarrow> 'z fs_st_scheme \<Rightarrow> (unit, 'z fs_st_scheme) res" where
  "modify_block u s = rbind (bread 1 (fst u) s) (\<lambda>bp s. log_update bp (snd u) s)"

definition modified :: "uint \<times> (block \<Rightarrow> block) \<Rightarrow> (nat \<Rightarrow> block) \<Rightarrow> nat \<Rightarrow> block" where
  "modified u V = V(unat (fst u) := snd u (V (unat (fst u))))"

definition update_ok :: "nat set \<Rightarrow> uint \<times> (block \<Rightarrow> block) \<Rightarrow> bool" where
  "update_ok A u \<longleftrightarrow> unat (fst u) < FSSIZE \<and> unat (fst u) \<notin> A \<and> (\<forall>b. length b = BSIZE \<longrightarrow> length (snd u b) = BSIZE)"

lemma modify_blocks:
  fixes s :: "'z fs_st_scheme"
  assumes "log_inv pd {} s" "room (length us) s" "\<forall>u \<in> set us. update_ok (log_area s) u"
  shows "\<exists>t. rfor us modify_block s = Ok () t \<and> log_inv pd {} t \<and> lstep s t \<and> bview t = fold modified us (bview s) \<and>
    set (homes t) = (unat \<circ> fst) ` set us \<union> set (homes s)"
  using assms
proof (induction us arbitrary: s)
  case (Cons u us)
  have u: "unat (fst u) < FSSIZE" "unat (fst u) \<notin> log_area s" "length (snd u (bview s (unat (fst u)))) = BSIZE"
    using Cons.prems(1,3) bview_length [of pd "{}" s] by (auto simp: update_ok_def log_inv_def)
  have r: "room (card {} + 1) s" using Cons.prems(2) room_mono by fastforce
  obtain v where v: "rbind (bread 1 (fst u) s) (\<lambda>bp s. log_update bp (snd u) s) = Ok () v" "log_inv pd {} v" "lstep s v"
    "bview v = (bview s)(unat (fst u) := snd u (bview s (unat (fst u))))" "keeps_held {} (bufs s) (bufs v)"
    "lh_n v \<le> lh_n s + 1" "lh_n s \<le> lh_n v" "set (homes v) = insert (unat (fst u)) (set (homes s))"
    by (rule txn_modify [where f = "snd u", OF Cons.prems(1) r u(1,2) _ u(3)]) simp
  have "room (length us) v" using room_step [OF _ v(3,6)] Cons.prems(2) by simp
  then obtain t where t: "rfor us modify_block v = Ok () t" "log_inv pd {} t" "lstep v t" "bview t = fold modified us (bview v)"
      "set (homes t) = (unat \<circ> fst) ` set us \<union> set (homes v)"
    using Cons.IH [OF v(2)] Cons.prems(3) lstep_fields(8) [OF v(3)] by auto
  have "bview t = fold modified (u # us) (bview s)" using t(4) v(4) by (simp add: modified_def)
  moreover have "modify_block u s = Ok () v" using v(1) by (simp add: modify_block_def)
  ultimately show ?case using v(8) t lstep_trans [OF v(3) t(3)] by (intro exI [of _ t]) simp
qed simp

lemma log_inv_clean: "log_inv pd {} s \<Longrightarrow> lh_n s = 0 \<Longrightarrow> bview s = disk s 1" for s :: "'z log_st_scheme"
  using bview_fresh [of pd s] by (simp add: log_inv_def homes_def)

text \<open>The last \<open>end_op\<close> commits what has been logged.\<close>

lemma end_op_ok:
  fixes s :: "'z log_st_scheme"
  assumes "log_inv pd {} s" "outstanding s = 1" "\<not> committing s"
  obtains t where "end_op s = Ok () t" "log_inv pd {} t" "lh_n t = 0" "outstanding t = 0" "\<not> committing t"
    "\<forall>n. n \<notin> log_area s \<longrightarrow> disk t 1 n = bview s n"
proof -
  let ?a = "s\<lparr>outstanding := 0, committing := True\<rparr>"
  have a: "log_inv pd {} ?a" using assms(1) by simp
  have "\<exists>u. commit ?a = Ok () u \<and> log_inv pd {} u \<and> lh_n u = 0 \<and> outstanding u = 0 \<and> (\<forall>n. n \<notin> log_area s \<longrightarrow> disk u 1 n = bview s n)"
  proof (cases "lh_n s = 0")
    case True
    then show ?thesis using a log_inv_clean [OF a] by (simp add: commit_def)
  next
    case False
    then have n: "0 < lh_n ?a" by simp
    obtain u where "commit ?a = Ok () u" "log_inv pd {} u" "lh_n u = 0" "\<forall>n. n \<notin> log_area ?a \<longrightarrow> disk u 1 n = bview ?a n \<and> bview u n = bview ?a n"
      using commit_disk [OF a n] by blast
    moreover have "outstanding u = 0"
    proof -
      have i: "binv pd {} ?a" "log_geo ?a" "dirty (bufs ?a) = set (homes ?a)" using a by (auto simp: log_inv_def)
      obtain t v where t: "commit ?a = Ok () t" "bstep ?a v" "bstep (v\<lparr>lh_n := 0\<rparr>) t"
        using commit_ok [OF i n] by blast
      then show ?thesis using bstep_log(6) [OF t(2)] bstep_log(6) [OF t(3)] \<open>commit ?a = Ok () u\<close> by simp
    qed
    ultimately show ?thesis by auto
  qed
  then obtain u where u: "commit ?a = Ok () u" "log_inv pd {} u" "lh_n u = 0" "outstanding u = 0"
    "\<forall>n. n \<notin> log_area s \<longrightarrow> disk u 1 n = bview s n" by blast
  let ?u = "u\<lparr>committing := False\<rparr>"
  let ?t = "wakeup ChLog ?u"
  have run: "end_op s = Ok () ?t" using assms(2,3) u(1) by (simp add: end_op_def Let_def)
  note w = wakeup_step [where s = ?u and ch = ChLog]
  have "log_inv pd {} ?u" using u(2) by simp
  then have "log_inv pd {} ?t" by (rule log_inv_wakeup)
  moreover have "disk ?t = disk u" using disk_same [OF w(1,2)] by simp
  ultimately show thesis using run u bstep_log [OF w(1)] by (intro that [of ?t]) simp_all
qed

text \<open>
  C2: The blocks of a transaction reach the disk together. With the log idle, \<open>begin_op\<close>, up to
  MAXOPBLOCKS changes of blocks outside the log and \<open>end_op\<close> return; before \<open>end_op\<close> the disk
  is unchanged, in a state from which \<open>commit\<close> is atomic, and after it the disk outside the log
  holds exactly the changed blocks and the log is idle again.
\<close>

theorem transaction_atomic:
  fixes s :: "'z fs_st_scheme"
  assumes "log_inv pd {} s" "lh_n s = 0" "outstanding s = 0" "\<not> committing s" "int MAXOPBLOCKS < sint (log_size s)"
    "length us \<le> MAXOPBLOCKS" "\<forall>u \<in> set us. update_ok (log_area s) u"
  shows "\<exists>a b t. begin_op s = Ok () a \<and> rfor us modify_block a = Ok () b \<and> disk b = disk s \<and> log_inv pd {} b \<and>
     bview b = fold modified us (disk s 1) \<and> end_op b = Ok () t \<and> log_inv pd {} t \<and>
     lh_n t = 0 \<and> outstanding t = 0 \<and> \<not> committing t \<and> (\<forall>n. n \<notin> log_area s \<longrightarrow> disk t 1 n = fold modified us (disk s 1) n)"
proof -
  let ?a = "s\<lparr>outstanding := 1\<rparr>"
  have a: "begin_op s = Ok () ?a" using assms(2-4) by (simp add: begin_op_def)
  have "log_inv pd {} ?a" "room (length us) ?a" "\<forall>u \<in> set us. update_ok (log_area ?a) u" using assms by (auto simp: room_def)
  from modify_blocks [OF this] obtain b where b: "rfor us modify_block ?a = Ok () b" "log_inv pd {} b" "lstep ?a b"
    "bview b = fold modified us (bview ?a)" by blast
  have v: "bview b = fold modified us (disk s 1)" unfolding b(4) using log_inv_clean [OF assms(1,2)] by simp
  have o: "outstanding b = 1" "\<not> committing b" "log_area b = log_area s" "disk b = disk s"
    using lstep_fields [OF b(3)] assms(4) by simp_all
  obtain t where t: "end_op b = Ok () t" "log_inv pd {} t" "lh_n t = 0" "outstanding t = 0" "\<not> committing t"
    "\<forall>n. n \<notin> log_area b \<longrightarrow> disk t 1 n = bview b n"
    by (rule end_op_ok [OF b(2) o(1,2)])
  then show ?thesis using a b(1,2) o(3,4) by (intro exI [of _ ?a] exI [of _ b] exI [of _ t]) (simp add: v)
qed

lemma rfor_append: "rfor (xs @ ys) f s = rbind (rfor xs f s) (\<lambda>_ s. rfor ys f s)"
proof (induction xs arbitrary: s)
  case (Cons x xs)
  then show ?case by (cases "f x s") simp_all
qed simp

lemma modify_full:
  fixes s :: "'z fs_st_scheme"
  assumes "log_inv pd {} s" "room 0 s" "int (lh_n s) + 1 = sint (log_size s)" "unat (fst u) < FSSIZE"
  shows "modify_block u s = Panic ''too big a transaction''"
proof -
  have r: "lh_n s + card {} < LOGSIZE" using assms(2) by (simp add: room_def)
  obtain b t where t: "bread 1 (fst u) s = Ok b t" "b \<notin> {}" "log_inv pd {b} t" "bstep s t" "dhist t = dhist s" "bview t = bview s"
    "blockno (bufs t b) = fst u" "data (bufs t b) = bview s (unat (fst u))" "keeps_held {} (bufs s) (bufs t)" "fresh b t"
    by (rule txn_read [OF assms(1) r assms(4)]) simp
  then show ?thesis using assms(3) bstep_log [OF t(4)] by (simp add: modify_block_def log_update_def log_write_def bupd_def)
qed

text \<open>
  C40: The reservation of \<open>begin_op\<close> does not cover the log. On an idle log of LOGSIZE blocks three
  operations are admitted, each entitled to MAXOPBLOCKS blocks; but when they log their thirty
  different blocks, \<open>log_write\<close> panics on the last, since the header takes one block of the log.
\<close>

theorem log_reservation_overflow:
  fixes s :: "'z fs_st_scheme"
  assumes "log_inv pd {} s" "lh_n s = 0" "outstanding s = 0" "\<not> committing s" "log_size s = of_nat LOGSIZE"
    "length us = 3 * MAXOPBLOCKS" "distinct (map fst us)" "\<forall>u \<in> set us. update_ok (log_area s) u"
  shows "\<exists>a. rbind (begin_op s) (\<lambda>_ s. rbind (begin_op s) (\<lambda>_ s. begin_op s)) = Ok () a \<and>
    (\<exists>b. rfor (butlast us) modify_block a = Ok () b \<and> log_inv pd {} b) \<and>
    rfor us modify_block a = Panic ''too big a transaction''"
proof -
  let ?a = "s\<lparr>outstanding := 3\<rparr>"
  have a: "rbind (begin_op s) (\<lambda>_ s. rbind (begin_op s) (\<lambda>_ s. begin_op s)) = Ok () ?a"
    using assms(2-4) by (simp add: begin_op_def)
  have "us \<noteq> []" using assms(6) by auto
  then have us: "us = butlast us @ [last us]" "length (butlast us) = 29" using assms(6) by simp_all
  have sz: "sint (log_size s) = 30" using assms(5) by simp
  have "log_inv pd {} ?a" "room (length (butlast us)) ?a" "\<forall>u \<in> set (butlast us). update_ok (log_area ?a) u"
    using assms(1,2,8) us(2) sz by (auto simp: room_def dest: in_set_butlastD)
  from modify_blocks [OF this] obtain b where b: "rfor (butlast us) modify_block ?a = Ok () b" "log_inv pd {} b" "lstep ?a b"
    "set (homes b) = (unat \<circ> fst) ` set (butlast us) \<union> set (homes ?a)" by blast
  have "distinct (map fst (butlast us))" using assms(7) by (metis distinct_butlast map_butlast)
  then have "distinct (map (unat \<circ> fst) (butlast us))" by (auto simp: distinct_map inj_on_def word_unat_eq_iff)
  then have "card (set (homes b)) = 29"
    using b(4) assms(2) us(2) distinct_card [of "map (unat \<circ> fst) (butlast us)"] by (simp add: homes_def)
  moreover have "card (set (homes b)) = lh_n b"
    using b(2) length_homes [of b] distinct_card [of "homes b"] by (simp add: log_inv_def log_geo_def)
  ultimately have n: "lh_n b = 29" by simp
  note f = lstep_fields [OF b(3)]
  have l: "unat (fst (last us)) < FSSIZE" using assms(6,8) by (metis last_in_set list.size(3) mult_is_0 update_ok_def zero_neq_numeral)
  have "modify_block (last us) b = Panic ''too big a transaction''"
    by (rule modify_full [OF b(2) _ _ l]) (use n f sz in \<open>simp_all add: room_def\<close>)
  then have "rfor us modify_block ?a = Panic ''too big a transaction''"
    using b(1) rfor_append [of "butlast us" "[last us]" modify_block ?a] us(1) by simp
  then show ?thesis using a b(1,2) by (intro exI [of _ ?a] exI [of _ b] conjI)
qed

section \<open>Witnesses\<close>

text \<open>
  A file system of 1000 blocks with 30 blocks of log from block 2, whose header is empty, and
  a bitmap in block 58 that has the first 64 blocks in use.
\<close>

definition ex_sb :: superblock where
  "ex_sb = \<lparr>sb_size = 1000, sb_nblocks = 941, sb_ninodes = 200, sb_nlog = 30, sb_logstart = 2, sb_inodestart = 32, sb_bmapstart = 58\<rparr>"

definition ex_bitmap :: block where
  "ex_bitmap = replicate 8 255 @ replicate 504 0"

definition ex_inode :: inode where
  "ex_inode = \<lparr>idev = 1, inum = 2, iref = 1, ilk = \<lparr>slocked = True, spid = 2\<rparr>, ivalid = True, itype = 2, imajor = 0,
     iminor = 0, inlink = 1, isize = 1024, iaddrs = [60, 61] @ replicate 11 0\<rparr>"

definition ex_fs0 :: fs_st where
  "ex_fs0 = log_st.extend (con_st.extend (ide_st.extend
       (ex_ide\<lparr>bufs := \<lambda>_. ex_buf\<lparr>bdev := 0\<rparr>, dhist := [(1, 2, replicate BSIZE 0), (1, 58, ex_bitmap)]\<rparr>)
       (con_st.fields False True True [] [] [] 0 0 (\<lambda>_. 0) (replicate 128 0) 0xFFFFFFFE 0xFFFFFFFE 0xFFFFFFFE True))
       (log_st.fields 2 30 0 False 1 0 (replicate LOGSIZE 0)))
     (fs_st.fields ex_sb (\<lambda>_. ex_inode))"

definition ex_fs :: fs_st where
  "ex_fs = binit ex_fs0"

lemma ex_fs_fields:
  "lh_n ex_fs = 0" "outstanding ex_fs = 0" "\<not> committing ex_fs" "log_size ex_fs = 30" "log_start ex_fs = 2" "log_dev ex_fs = 1"
  "lh_block ex_fs = replicate LOGSIZE 0" "sb ex_fs = ex_sb" "inodes ex_fs = (\<lambda>_. ex_inode)" "cproc ex_fs = Some (Slot 1)"
  by (simp_all add: ex_fs_def binit_def Let_def ex_fs0_def ex_ide_def proc_st.defs ide_st.defs con_st.defs log_st.defs fs_st.defs)

lemma zero_header: "le32 0 0 0 0 = 0"
  by code_simp

lemma ex_fs_ok: "log_inv 2 {} ex_fs" "disk ex_fs 1 = (\<lambda>_. replicate BSIZE 9)(2 := replicate BSIZE 0, 58 := ex_bitmap)"
    "log_area ex_fs = {2..<32}"
proof -
  have d: "disk ex_fs0 1 = (\<lambda>_. replicate BSIZE 9)(2 := replicate BSIZE 0, 58 := ex_bitmap)"
    by (simp add: disk_def ex_fs0_def ex_ide_def proc_st.defs ide_st.defs con_st.defs log_st.defs write_to_def)
  have a: "running ex_fs0 2" "havedisk1 ex_fs0" "ide_idle ex_fs0" "\<not> ide_fault ex_fs0"
    "\<forall>b < NBUF. refcnt (bufs ex_fs0 b) = 0 \<and> bdev (bufs ex_fs0 b) = 0 \<and> \<not> bdirty (bufs ex_fs0 b)"
    by (simp_all add: ex_fs0_def ex_ide_def proc_st.defs ide_st.defs con_st.defs log_st.defs ex_buf_def running_def ex_ptable)
  have l: "\<forall>n < FSSIZE. length (disk ex_fs0 1 n) = BSIZE" unfolding d by (simp add: ex_bitmap_def)
  note i = binit_ok [OF a(1-4) l a(5), folded ex_fs_def]
  show e: "disk ex_fs 1 = (\<lambda>_. replicate BSIZE 9)(2 := replicate BSIZE 0, 58 := ex_bitmap)"
    unfolding d [symmetric] by (simp add: ex_fs_def disk_def binit_def Let_def)
  show "log_area ex_fs = {2..<32}" by (simp add: log_area_def ex_fs_fields)
  have "dirty (bufs ex_fs) = {}" using i(4) by (auto simp: dirty_def)
  moreover have "hdr_n (disk ex_fs 1 (unat (log_start ex_fs))) = 0"
    unfolding e by (simp add: ex_fs_fields hdr_n_def get32_def zero_header)
  ultimately show "log_inv 2 {} ex_fs" using i(1) by (simp add: log_inv_def log_geo_def homes_def ex_fs_fields)
qed

definition ex_updates :: "(uint \<times> (block \<Rightarrow> block)) list" where
  "ex_updates = [(100, \<lambda>_. replicate BSIZE 1), (101, \<lambda>b. b[0 := 7])]"

lemma ex_updates_ok: "\<forall>u \<in> set ex_updates. update_ok (log_area ex_fs) u"
  by (simp add: ex_updates_def update_ok_def ex_fs_ok(3))

theorem transaction_atomic_witness:
  "\<exists>a b t. begin_op ex_fs = Ok () a \<and> rfor ex_updates modify_block a = Ok () b \<and> end_op b = Ok () t \<and>
     disk t 1 100 = replicate BSIZE 1 \<and> disk t 1 101 = (replicate BSIZE 9)[0 := 7] \<and> disk t 1 102 = replicate BSIZE 9"
proof -
  have p: "int MAXOPBLOCKS < sint (log_size ex_fs)" "length ex_updates \<le> MAXOPBLOCKS" by (simp_all add: ex_fs_fields ex_updates_def)
  have e: "fold modified ex_updates (disk ex_fs 1) 100 = replicate BSIZE 1"
    "fold modified ex_updates (disk ex_fs 1) 101 = (replicate BSIZE 9)[0 := 7]"
    "fold modified ex_updates (disk ex_fs 1) 102 = replicate BSIZE 9"
    unfolding ex_fs_ok(2) by (simp_all add: ex_updates_def modified_def)
  show ?thesis
    using transaction_atomic [OF ex_fs_ok(1) ex_fs_fields(1-3) p ex_updates_ok] e by (auto simp: ex_fs_ok(3))
qed

text \<open>
  The same transaction when the machine stops before the commit's first write, where \<^const>\<open>ex_fs\<close>
  is a machine started on that disk, and when it stops after the last one.
\<close>

theorem log_crash_safe_witness:
  "\<exists>s t v w :: fs_st. commit s = Ok () t \<and> crashed 2 s False (disk ex_fs 1) \<and> rebooted 2 s (disk ex_fs 1) ex_fs \<and>
     recover_from_log ex_fs = Ok () v \<and> disk v 1 100 = replicate BSIZE 9 \<and>
     crashed 2 s True (disk t 1) \<and> rebooted 2 s (disk t 1) t \<and> recover_from_log t = Ok () w \<and> disk w 1 100 = replicate BSIZE 1"
proof -
  let ?a = "ex_fs\<lparr>outstanding := 1\<rparr>"
  have "log_inv 2 {} ?a" "room (length ex_updates) ?a" "\<forall>u \<in> set ex_updates. update_ok (log_area ?a) u"
    using ex_fs_ok(1) ex_updates_ok by (simp_all add: room_def ex_fs_fields ex_updates_def)
  from modify_blocks [OF this] obtain s where s: "log_inv 2 {} s" "lstep ?a s" "bview s = fold modified ex_updates (bview ?a)"
      "set (homes s) = (unat \<circ> fst) ` set ex_updates \<union> set (homes ?a)" by blast
  have n: "0 < lh_n s" using s(4) by (cases "lh_n s") (auto simp: homes_def ex_updates_def)
  note f = lstep_fields [OF s(2)]
  have v: "bview s 100 = replicate BSIZE 1" unfolding s(3) by (simp add: ex_updates_def modified_def)
  have d: "disk s 1 100 = replicate BSIZE 9" unfolding f(7) op_simps ex_fs_ok(2) by simp
  have li: "binv 2 {} s" "log_geo s" "dirty (bufs s) = set (homes s)" using s(1) by (auto simp: log_inv_def)
  obtain t u where t: "commit s = Ok () t" "binv 2 {} t" "dirty (bufs t) = {}" "bstep s u" "bstep (u\<lparr>lh_n := 0\<rparr>) t"
    "dhist t = dhist s @ map (Pair 1) (commit_writes s)" using commit_ok [OF li n] by blast
  note g = bstep_log [OF t(4)] bstep_log [OF t(5)] bstep_fields(6) [OF t(4)] bstep_fields(6) [OF t(5)]
  have dt: "disk t 1 = fold upd_block (commit_writes s) (disk s 1)"
    using t(6) g fold_write_disk [of "commit_writes s" "disk s"] by (simp add: disk_def)
  have c0: "crashed 2 s False (disk ex_fs 1)" using in_commit [OF t(1,6), of 2 0] f(7) by simp
  have "lh_n s < length (commit_writes s)" by (simp add: commit_writes_def Let_def)
  then have c1: "crashed 2 s True (disk t 1)"
    unfolding dt using in_commit [OF t(1,6), of 2 "length (commit_writes s)"] by simp
  have r0: "rebooted 2 s (disk ex_fs 1) ex_fs"
    using ex_fs_ok(1) f by (simp add: rebooted_def log_inv_def homes_def ex_fs_fields)
  have r1: "rebooted 2 s (disk t 1) t" using t(2,3) g li(2) by (simp add: rebooted_def log_geo_def)
  have "100 \<notin> log_area s" using f(8) by (simp add: ex_fs_ok(3))
  then show ?thesis
    using log_crash_safe [OF s(1) n, THEN conjunct2, rule_format, OF c0 r0]
      log_crash_safe [OF s(1) n, THEN conjunct2, rule_format, OF c1 r1] c0 c1 r0 r1 t(1) v d by metis
qed

theorem log_reservation_overflow_witness:
  "\<exists>a. rbind (begin_op ex_fs) (\<lambda>_ s. rbind (begin_op s) (\<lambda>_ s. begin_op s)) = Ok () a \<and>
     rfor (map (\<lambda>i. (of_nat (100 + i), \<lambda>b. b)) [0..<30]) modify_block a = Panic ''too big a transaction''"
proof -
  let ?us = "map (\<lambda>i. (of_nat (100 + i) :: uint, \<lambda>b :: block. b)) [0..<30]"
  have u: "unat (of_nat (100 + i) :: uint) = 100 + i" if "i < 30" for i by (rule unat_of_nat32) (use that in simp)
  have "i = j" if "i < 30" "j < 30" "(of_nat (100 + i) :: uint) = of_nat (100 + j)" for i j
    using u [OF that(1)] u [OF that(2)] that(3) by (metis add_left_cancel)
  then have "distinct (map fst ?us)" by (auto simp: distinct_map inj_on_def simp del: upt_rec_numeral of_nat_add)
  moreover have "\<forall>u \<in> set ?us. update_ok (log_area ex_fs) u"
    using u by (auto simp: update_ok_def ex_fs_ok(3) simp del: upt_rec_numeral of_nat_add)
  ultimately show ?thesis
    using log_reservation_overflow [OF ex_fs_ok(1) ex_fs_fields(1-3), of ?us] by (auto simp: ex_fs_fields simp del: upt_rec_numeral)
qed

end
