(* ===== verification/FileSys.thy ===== *)
theory FileSys
  imports Txn
begin

text \<open>
  The file system inside a transaction: the block allocator against the set of free blocks.
\<close>

section \<open>The bitmap\<close>

lemma mask_free: "k < 8 \<Longrightarrow> (x :: uchar) AND push_bit k 1 = 0 \<longleftrightarrow> \<not> bit x k"
proof
  assume k: "k < 8" and z: "x AND push_bit k 1 = 0"
  have "bit (x AND push_bit k 1) k = bit x k" using k by (simp add: bit_simps)
  then show "\<not> bit x k" using z by simp
next
  assume "k < 8" "\<not> bit x k"
  then show "x AND push_bit k 1 = 0" by (intro bit_word_eqI) (auto simp: bit_simps)
qed

lemma bit_free_iff: "bit_free b i \<longleftrightarrow> \<not> bit (b ! (i div 8)) (i mod 8)"
  unfolding bit_free_def bit_mask_def by (rule mask_free) simp

lemma bit_mark: "j < 8 \<Longrightarrow> bit ((x :: uchar) OR push_bit k 1) j \<longleftrightarrow> bit x j \<or> j = k"
  by (auto simp: bit_simps)

lemma bit_unmark: "j < 8 \<Longrightarrow> bit ((x :: uchar) AND NOT (push_bit k 1)) j \<longleftrightarrow> bit x j \<and> j \<noteq> k"
  by (auto simp: bit_simps)

lemma bit_index: "i div 8 = j div 8 \<Longrightarrow> i mod 8 = j mod 8 \<Longrightarrow> i = j" for i j :: nat
  by (metis div_mult_mod_eq)

lemma bit_free_set:
  assumes "i div 8 < length b"
  shows "bit_free (set_bit i b) j \<longleftrightarrow> j \<noteq> i \<and> bit_free b j"
  using assms bit_index [of i j]
  by (cases "i div 8 = j div 8") (auto simp: bit_free_iff set_bit_def bit_mask_def bit_mark simp del: push_bit_of_1)

lemma bit_free_clear:
  assumes "i div 8 < length b"
  shows "bit_free (clear_bit i b) j \<longleftrightarrow> j = i \<or> bit_free b j"
  using assms bit_index [of i j]
  by (cases "i div 8 = j div 8") (auto simp: bit_free_iff clear_bit_def bit_mask_def bit_unmark simp del: push_bit_of_1)

lemma clear_set:
  assumes "i div 8 < length b" "bit_free b i"
  shows "clear_bit i (set_bit i b) = b"
proof -
  let ?x = "b ! (i div 8)"
  have "(?x OR push_bit (i mod 8) 1) AND NOT (push_bit (i mod 8) 1) = ?x"
    using assms(2) by (intro bit_word_eqI) (auto simp: bit_simps bit_free_iff)
  then show ?thesis using assms(1) by (simp add: clear_bit_def set_bit_def bit_mask_def del: push_bit_of_1)
qed

lemma length_bits [simp]: "length (set_bit i b) = length b" "length (clear_bit i b) = length b"
  by (simp_all add: set_bit_def clear_bit_def)

section \<open>The allocator\<close>

definition bmap_block :: "'z fs_st_scheme \<Rightarrow> nat" where
  "bmap_block s = unat (sb_bmapstart (sb s))"

definition free_blocks :: "'z fs_st_scheme \<Rightarrow> nat set" where
  "free_blocks s = {k. k < unat (sb_size (sb s)) \<and> bit_free (bview s (bmap_block s)) k}"

text \<open>
  The invariant of the allocator: the log's invariant and the layout of the disk, in which the
  log and the inodes come before the bitmap and only blocks after it are ever free.
\<close>

definition fs_ok :: "cint \<Rightarrow> nat set \<Rightarrow> 'z fs_st_scheme \<Rightarrow> bool" where
  "fs_ok pd H s \<longleftrightarrow> log_inv pd H s \<and> 0 < unat (sb_size (sb s)) \<and> unat (sb_size (sb s)) \<le> FSSIZE \<and>
     bmap_block s < FSSIZE \<and> log_area s \<subseteq> {..<bmap_block s} \<and> free_blocks s \<subseteq> {bmap_block s<..} \<and> 0 \<notin> set (homes s)"

definition not_held :: "nat set \<Rightarrow> nat \<Rightarrow> 'z fs_st_scheme \<Rightarrow> bool" where
  "not_held H n s \<longleftrightarrow> (\<forall>b \<in> H. sector_of (bufs s b) \<noteq> n)"

lemma not_held_blockno: "not_held H n s \<Longrightarrow> n < 2 ^ 32 \<Longrightarrow> \<forall>b \<in> H. blockno (bufs s b) \<noteq> of_nat n"
  by (auto simp: not_held_def sector_of_def unat_of_nat32)

lemma not_held_keeps: "keeps_held H (bufs s) (bufs t) \<Longrightarrow> not_held H n t = not_held H n s"
  by (simp add: not_held_def keeps_held_def content_def sector_of_def)

lemma lstep_fs: "lstep s t \<Longrightarrow> sb t = sb s" "lstep s t \<Longrightarrow> inodes t = inodes s" "lstep s t \<Longrightarrow> bmap_block t = bmap_block s"
  for s :: "'z fs_st_scheme"
  by (auto elim!: lstepE simp: bmap_block_def)

lemma BBLOCK_first: "unat n < 4096 \<Longrightarrow> BBLOCK n x = sb_bmapstart x"
proof -
  assume "unat n < 4096"
  then have "unat (n div 4096) = 0" by (simp add: unat_div)
  then have "n div 4096 = 0" by (simp add: word_unat_eq_iff)
  then show ?thesis by (simp add: BBLOCK_def)
qed

lemma balloc_one:
  assumes "0 < unat (sb_size (sb s))" "unat (sb_size (sb s)) \<le> FSSIZE"
  shows "balloc dev s = balloc_scan dev [0] s"
proof -
  have "(unat (sb_size (sb s)) + (BPB - 1)) div BPB = 1" using assms by auto
  then show ?thesis by (simp add: balloc_def)
qed

lemma find_bits:
  assumes "k < n" "P k" "\<forall>j < k. \<not> P j"
  shows "find P [0..<n] = Some k"
  using assms by (auto simp: find_Some_iff)

lemma free_alloc:
  fixes s :: "'z fs_st_scheme"
  assumes "fs_ok pd H s" "k \<in> free_blocks s"
  shows "k < 1000" "bmap_block s < k" "k \<notin> log_area s" "length (bview s (bmap_block s)) = BSIZE" "unat (of_nat k :: uint) = k" "0 < bmap_block s"
proof -
  show k: "k < 1000" using assms by (auto simp: fs_ok_def free_blocks_def)
  show b: "bmap_block s < k" using assms by (auto simp: fs_ok_def)
  then show "k \<notin> log_area s" using assms(1) by (auto simp: fs_ok_def)
  show "length (bview s (bmap_block s)) = BSIZE" using assms(1) bview_length [of pd H s] by (simp add: fs_ok_def log_inv_def)
  show "unat (of_nat k :: uint) = k" using k by (simp add: unat_of_nat32)
  show "0 < bmap_block s" using assms(1) geo_head [of s] by (auto simp: fs_ok_def log_inv_def)
qed

lemma balloc_none:
  fixes s :: "'z fs_st_scheme"
  assumes "fs_ok pd H s" "room (card H) s" "not_held H (bmap_block s) s" "free_blocks s = {}"
  shows "balloc 1 s = Panic ''balloc: out of blocks''"
proof -
  have s: "log_inv pd H s" "0 < unat (sb_size (sb s))" "unat (sb_size (sb s)) \<le> FSSIZE" "bmap_block s < FSSIZE"
    using assms(1) by (auto simp: fs_ok_def)
  have n: "unat (sb_bmapstart (sb s)) < FSSIZE" "\<forall>b \<in> H. blockno (bufs s b) \<noteq> sb_bmapstart (sb s)"
    using s(4) assms(3) by (auto simp: bmap_block_def not_held_def sector_of_def)
  obtain b u where u: "bread 1 (sb_bmapstart (sb s)) s = Ok b u" "b \<notin> H" "log_inv pd (insert b H) u" "bstep s u" "dhist u = dhist s"
    "bview u = bview s" "blockno (bufs u b) = sb_bmapstart (sb s)" "data (bufs u b) = bview s (unat (sb_bmapstart (sb s)))"
    "keeps_held H (bufs s) (bufs u)" "fresh b u"
    by (rule txn_read [OF s(1) room_lt [OF assms(2)] n]) simp
  have "find (bit_free (data (bufs u b))) [0..<min BPB (unat (sb_size (sb s)))] = None"
    using assms(4) s(3) unfolding find_None_iff u(8) by (auto simp: free_blocks_def bmap_block_def)
  moreover have "sb u = sb s" using lstep_fs(1) [OF lstep_bstep [OF u(4,5)]] .
  moreover obtain t where "brelse b u = Ok () t" by (rule txn_release [OF u(3,2,10)])
  ultimately show ?thesis using u(1) by (simp add: balloc_one [OF s(2,3)] BBLOCK_first)
qed

lemma balloc_ok:
  fixes s :: "'z fs_st_scheme"
  assumes "fs_ok pd H s" "room (card H + 2) s" "not_held H (bmap_block s) s" "k \<in> free_blocks s" "\<forall>j < k. j \<notin> free_blocks s" "not_held H k s"
  obtains t where "balloc 1 s = Ok (of_nat k) t" "log_inv pd H t" "lstep s t" "keeps_held H (bufs s) (bufs t)" "lh_n t \<le> lh_n s + 2"
    "bview t = (bview s)(bmap_block s := set_bit k (bview s (bmap_block s)), k := replicate BSIZE 0)"
    "set (homes t) = {bmap_block s, k} \<union> set (homes s)"
proof -
  let ?m = "bmap_block s" and ?n = "sb_bmapstart (sb s)"
  have s: "log_inv pd H s" "0 < unat (sb_size (sb s))" "unat (sb_size (sb s)) \<le> FSSIZE" "?m < FSSIZE" "?m \<notin> log_area s"
    using assms(1) by (auto simp: fs_ok_def)
  note k = free_alloc [OF assms(1,4)]
  have n: "unat ?n < FSSIZE" "\<forall>b \<in> H. blockno (bufs s b) \<noteq> ?n"
    using s(4) assms(3) by (auto simp: bmap_block_def not_held_def sector_of_def)
  obtain b u where u: "bread 1 ?n s = Ok b u" "b \<notin> H" "log_inv pd (insert b H) u" "bstep s u" "dhist u = dhist s"
    "bview u = bview s" "blockno (bufs u b) = ?n" "data (bufs u b) = bview s (unat ?n)" "keeps_held H (bufs s) (bufs u)" "fresh b u"
    by (rule txn_read [OF s(1) room_lt [OF assms(2)] n]) simp
  note su = lstep_bstep [OF u(4,5)]
  have m: "sector_of (bufs u b) = ?m" "data (bufs u b) = bview s ?m" using u(7,8) by (simp_all add: sector_of_def bmap_block_def)
  have f: "find (bit_free (data (bufs u b))) [0..<min BPB (unat (sb_size (sb s)))] = Some k"
    using assms(4,5) s(3) unfolding m(2) by (intro find_bits) (auto simp: free_blocks_def)
  obtain v where v: "log_update b (set_bit k) u = Ok () v" "log_inv pd H v" "lstep u v"
    "bview v = (bview u)(sector_of (bufs u b) := set_bit k (data (bufs u b)))" "keeps_held H (bufs u) (bufs v)"
    "lh_n v \<le> lh_n u + 1" "lh_n u \<le> lh_n v" "set (homes v) = insert (sector_of (bufs u b)) (set (homes u))"
    by (rule log_update_ok [OF u(3,2), of "set_bit k"])
      (use m k s(5) bstep_geo(3) [OF u(4)] room_bstep [OF u(4)] room_mono [OF assms(2), of 1] in simp_all)
  have sv: "lstep s v" using lstep_trans [OF su v(3)] .
  have "room (card H + 1) v" using room_step [OF _ sv, of "card H + 1"] assms(2) v(6) bstep_log(4) [OF u(4)] by simp
  moreover have "\<forall>c \<in> H. blockno (bufs v c) \<noteq> of_nat k"
    using not_held_blockno [of H k v] not_held_keeps [OF v(5)] not_held_keeps [OF u(9)] assms(6) k(1) by simp
  ultimately obtain t where t: "rbind (bread 1 (of_nat k) v) (\<lambda>bp s. log_update bp (\<lambda>_. replicate BSIZE 0) s) = Ok () t" "log_inv pd H t"
    "lstep v t" "bview t = (bview v)(unat (of_nat k :: uint) := replicate BSIZE 0)" "keeps_held H (bufs v) (bufs t)"
    "lh_n t \<le> lh_n v + 1" "lh_n v \<le> lh_n t" "set (homes t) = insert (unat (of_nat k :: uint)) (set (homes v))"
    using txn_modify [OF v(2), of "of_nat k" "\<lambda>_. replicate BSIZE 0"] k lstep_fields(8) [OF sv] by auto
  have "balloc 1 s = Ok (of_nat k) t"
    using u(1) f v(1) t(1) lstep_fs(1) [OF su] by (simp add: balloc_one [OF s(2,3)] BBLOCK_first bzero_def)
  then show thesis
    using t v u(6,9) m k sv lstep_trans [OF sv t(3)] bstep_log(4) [OF u(4)] bstep_geo(2) [OF u(4)]
    by (intro that [of t]) (auto simp: keeps_held_def)
qed

lemma fs_ok_bitmap:
  fixes s :: "'z fs_st_scheme"
  assumes "fs_ok pd H s" "log_inv pd H' t" "lstep s t" "free_blocks t \<subseteq> {bmap_block s<..}" "0 \<notin> set (homes t)"
  shows "fs_ok pd H' t"
  using assms lstep_fs [OF assms(3)] lstep_fields(8) [OF assms(3)] by (auto simp: fs_ok_def)

lemma free_blocks_upd:
  assumes "sb t = sb s" "bview t (bmap_block s) = x"
  shows "free_blocks t = {k. k < unat (sb_size (sb s)) \<and> bit_free x k}"
  using assms by (simp add: free_blocks_def bmap_block_def)

lemma balloc_fs:
  fixes s :: "'z fs_st_scheme"
  assumes "fs_ok pd H s" "room (card H + 2) s" "not_held H (bmap_block s) s" "\<forall>k \<in> free_blocks s. not_held H k s" "free_blocks s \<noteq> {}"
  obtains k t where "k \<in> free_blocks s" "k = Min (free_blocks s)" "balloc 1 s = Ok (of_nat k) t" "fs_ok pd H t" "lstep s t"
    "keeps_held H (bufs s) (bufs t)" "lh_n t \<le> lh_n s + 2"
    "bview t = (bview s)(bmap_block s := set_bit k (bview s (bmap_block s)), k := replicate BSIZE 0)"
    "set (homes t) = {bmap_block s, k} \<union> set (homes s)" "free_blocks t = free_blocks s - {k}"
proof -
  define k where "k = Min (free_blocks s)"
  have fin: "finite (free_blocks s)" by (simp add: free_blocks_def)
  have k: "k \<in> free_blocks s" "\<forall>j < k. j \<notin> free_blocks s"
    using Min_in [OF fin assms(5)] Min_le [OF fin] by (auto simp: k_def leD)
  note a = free_alloc [OF assms(1) k(1)]
  obtain t where t: "balloc 1 s = Ok (of_nat k) t" "log_inv pd H t" "lstep s t" "keeps_held H (bufs s) (bufs t)" "lh_n t \<le> lh_n s + 2"
    "bview t = (bview s)(bmap_block s := set_bit k (bview s (bmap_block s)), k := replicate BSIZE 0)"
    "set (homes t) = {bmap_block s, k} \<union> set (homes s)"
    by (rule balloc_ok [OF assms(1-3) k assms(4) [rule_format, OF k(1)]])
  have "bview t (bmap_block s) = set_bit k (bview s (bmap_block s))" unfolding t(6) using a(2) by simp
  from free_blocks_upd [OF lstep_fs(1) [OF t(3)] this] have f: "free_blocks t = free_blocks s - {k}"
    using a(1,4) by (auto simp: free_blocks_def bit_free_set)
  have "fs_ok pd H t"
    by (rule fs_ok_bitmap [OF assms(1) t(2,3)]) (use f t(7) a(2,6) assms(1) in \<open>auto simp: fs_ok_def\<close>)
  with t f show thesis by (intro that [OF k(1) k_def t(1)])
qed

text \<open>
  C6: \<open>balloc\<close> allocates the first free block. If the bitmap has a free block, it returns the
  least one, zeroed and marked used, every other block unchanged, and the allocator's invariant
  holds again; if there is none, it panics.
\<close>

theorem balloc_correct:
  fixes s :: "'z fs_st_scheme"
  assumes "fs_ok pd H s" "room (card H + 2) s" "not_held H (bmap_block s) s" "\<forall>k \<in> free_blocks s. not_held H k s"
  shows "if free_blocks s = {} then balloc 1 s = Panic ''balloc: out of blocks''
     else let k = Min (free_blocks s) in
       \<exists>t. balloc 1 s = Ok (of_nat k) t \<and> fs_ok pd H t \<and> free_blocks t = free_blocks s - {k} \<and>
         bview t k = replicate BSIZE 0 \<and> (\<forall>n. n \<noteq> k \<longrightarrow> n \<noteq> bmap_block s \<longrightarrow> bview t n = bview s n)"
proof (cases "free_blocks s = {}")
  case True
  have "room (card H) s" using room_mono [OF assms(2)] by simp
  from balloc_none [OF assms(1) this assms(3) True] True show ?thesis by simp
next
  case False
  obtain k t where t: "k = Min (free_blocks s)" "balloc 1 s = Ok (of_nat k) t" "fs_ok pd H t"
    "bview t = (bview s)(bmap_block s := set_bit k (bview s (bmap_block s)), k := replicate BSIZE 0)"
    "free_blocks t = free_blocks s - {k}"
    by (rule balloc_fs [OF assms False])
  then show ?thesis using False unfolding t(1) [symmetric] Let_def by (auto simp: t(4))
qed

lemma bfree_ok:
  fixes s :: "'z fs_st_scheme"
  assumes "fs_ok pd H s" "room (card H + 1) s" "not_held H (bmap_block s) s" "unat b < unat (sb_size (sb s))" "unat b \<notin> free_blocks s"
  obtains t where "bfree 1 b s = Ok () t" "log_inv pd H t" "lstep s t" "keeps_held H (bufs s) (bufs t)" "lh_n t \<le> lh_n s + 1"
    "bview t = (bview s)(bmap_block s := clear_bit (unat b) (bview s (bmap_block s)))"
    "set (homes t) = insert (bmap_block s) (set (homes s))"
proof -
  let ?m = "bmap_block s" and ?n = "sb_bmapstart (sb s)"
  have s: "log_inv pd H s" "unat (sb_size (sb s)) \<le> FSSIZE" "?m < FSSIZE" "?m \<notin> log_area s"
    using assms(1) by (auto simp: fs_ok_def)
  have len: "length (bview s ?m) = BSIZE" using bview_length [of pd H s] s by (simp add: log_inv_def)
  have n: "unat ?n < FSSIZE" "\<forall>b \<in> H. blockno (bufs s b) \<noteq> ?n"
    using s(3) assms(3) by (auto simp: bmap_block_def not_held_def sector_of_def)
  obtain c u where u: "bread 1 ?n s = Ok c u" "c \<notin> H" "log_inv pd (insert c H) u" "bstep s u" "dhist u = dhist s"
    "bview u = bview s" "blockno (bufs u c) = ?n" "data (bufs u c) = bview s (unat ?n)" "keeps_held H (bufs s) (bufs u)" "fresh c u"
    by (rule txn_read [OF s(1) room_lt [OF assms(2)] n]) simp
  note su = lstep_bstep [OF u(4,5)]
  have m: "sector_of (bufs u c) = ?m" "data (bufs u c) = bview s ?m" using u(7,8) by (simp_all add: sector_of_def bmap_block_def)
  have f: "\<not> bit_free (data (bufs u c)) (unat b)" using assms(4,5) by (simp add: free_blocks_def m(2))
  obtain t where t: "log_update c (clear_bit (unat b)) u = Ok () t" "log_inv pd H t" "lstep u t"
    "bview t = (bview u)(sector_of (bufs u c) := clear_bit (unat b) (data (bufs u c)))" "keeps_held H (bufs u) (bufs t)"
    "lh_n t \<le> lh_n u + 1" "lh_n u \<le> lh_n t" "set (homes t) = insert (sector_of (bufs u c)) (set (homes u))"
    by (rule log_update_ok [OF u(3,2), of "clear_bit (unat b)"])
      (use m len s(4) bstep_geo(3) [OF u(4)] room_bstep [OF u(4)] room_mono [OF assms(2), of 1] in simp_all)
  have "bfree 1 b s = Ok () t"
    using u(1) f t(1) assms(4) s(2) lstep_fs(1) [OF su] by (simp add: bfree_def BBLOCK_first Let_def)
  then show thesis
    using t u(6,9) m lstep_trans [OF su t(3)] bstep_log(4) [OF u(4)] bstep_geo(2) [OF u(4)]
    by (intro that [of t]) (auto simp: keeps_held_def)
qed

lemma bfree_twice:
  fixes s :: "'z fs_st_scheme"
  assumes "fs_ok pd H s" "room (card H) s" "not_held H (bmap_block s) s" "unat b \<in> free_blocks s"
  shows "bfree 1 b s = Panic ''freeing free block''"
proof -
  let ?n = "sb_bmapstart (sb s)"
  have s: "log_inv pd H s" using assms(1) by (auto simp: fs_ok_def)
  have n: "unat ?n < FSSIZE" "\<forall>b \<in> H. blockno (bufs s b) \<noteq> ?n"
    using assms(1,3) by (auto simp: bmap_block_def not_held_def sector_of_def fs_ok_def)
  obtain c u where u: "bread 1 ?n s = Ok c u" "c \<notin> H" "log_inv pd (insert c H) u" "bstep s u" "dhist u = dhist s"
    "bview u = bview s" "blockno (bufs u c) = ?n" "data (bufs u c) = bview s (unat ?n)" "keeps_held H (bufs s) (bufs u)" "fresh c u"
    by (rule txn_read [OF s room_lt [OF assms(2)] n]) simp
  then show ?thesis using assms(4) free_alloc(1) [OF assms(1,4)]
    by (simp add: bfree_def BBLOCK_first Let_def free_blocks_def bmap_block_def)
qed

text \<open>
  C7: \<open>bfree\<close> of a block in use after the bitmap adds exactly it to the
  free blocks, changes no other block and keeps the allocator's invariant; freeing a free block
  panics; and freeing the block that \<open>balloc\<close> has just given restores the bitmap.
\<close>

theorem bfree_correct:
  fixes s :: "'z fs_st_scheme"
  assumes "fs_ok pd H s" "room (card H + 1) s" "not_held H (bmap_block s) s" "unat b < unat (sb_size (sb s))"
    "bmap_block s < unat b"
  shows "if unat b \<in> free_blocks s then bfree 1 b s = Panic ''freeing free block''
     else \<exists>t. bfree 1 b s = Ok () t \<and> fs_ok pd H t \<and> free_blocks t = insert (unat b) (free_blocks s) \<and>
       (\<forall>n. n \<noteq> bmap_block s \<longrightarrow> bview t n = bview s n) \<and>
       (\<forall>x. bview s (bmap_block s) = set_bit (unat b) x \<longrightarrow> bit_free x (unat b) \<longrightarrow> bview t (bmap_block s) = x)"
proof (cases "unat b \<in> free_blocks s")
  case True
  have "room (card H) s" using room_mono [OF assms(2)] by simp
  from bfree_twice [OF assms(1) this assms(3) True] True show ?thesis by simp
next
  case False
  let ?m = "bmap_block s"
  obtain t where t: "bfree 1 b s = Ok () t" "log_inv pd H t" "lstep s t" "keeps_held H (bufs s) (bufs t)" "lh_n t \<le> lh_n s + 1"
    "bview t = (bview s)(?m := clear_bit (unat b) (bview s ?m))" "set (homes t) = insert ?m (set (homes s))"
    by (rule bfree_ok [OF assms(1-4) False])
  have len: "length (bview s ?m) = BSIZE" using bview_length [of pd H s] assms(1) by (simp add: fs_ok_def log_inv_def)
  have bl: "unat b div 8 < BSIZE" using assms(1,4) by (auto simp: fs_ok_def)
  have "bview t ?m = clear_bit (unat b) (bview s ?m)" unfolding t(6) by simp
  from free_blocks_upd [OF lstep_fs(1) [OF t(3)] this] have f: "free_blocks t = insert (unat b) (free_blocks s)"
    using assms(4) bl len by (auto simp: free_blocks_def bit_free_clear)
  have ok: "fs_ok pd H t"
    by (rule fs_ok_bitmap [OF assms(1) t(2,3)]) (use f t(7) assms(1,5) geo_head [of s] in \<open>auto simp: fs_ok_def log_inv_def\<close>)
  have "clear_bit (unat b) (bview s ?m) = x" if "bview s ?m = set_bit (unat b) x" "bit_free x (unat b)" for x
    using clear_set [of "unat b" x] that bl len by simp
  then show ?thesis using False t(1) f ok by (auto simp: t(6))
qed

section \<open>Witnesses\<close>

definition ex_txn :: fs_st where
  "ex_txn = ex_fs\<lparr>outstanding := 1\<rparr>"

lemma ex_bit_free: "k < 1000 \<Longrightarrow> bit_free ex_bitmap k \<longleftrightarrow> 64 \<le> k"
proof -
  assume "k < 1000"
  then have e: "ex_bitmap ! (k div 8) = (if k < 64 then - 1 else 0)" by (auto simp: ex_bitmap_def nth_append)
  have "bit (- 1 :: uchar) (k mod 8)" by (simp add: bit_simps)
  then show ?thesis unfolding bit_free_iff e by simp
qed

lemma ex_txn_ok: "bview ex_txn = (\<lambda>_. replicate BSIZE 9)(2 := replicate BSIZE 0, 58 := ex_bitmap)" "bmap_block ex_txn = 58"
  "free_blocks ex_txn = {64..<1000}" "fs_ok 2 {} ex_txn" "room k ex_txn \<longleftrightarrow> k < 30" "log_area ex_txn = {2..<32}"
  "sb ex_txn = ex_sb" "inodes ex_txn = (\<lambda>_. ex_inode)"
proof -
  show v: "bview ex_txn = (\<lambda>_. replicate BSIZE 9)(2 := replicate BSIZE 0, 58 := ex_bitmap)"
    using log_inv_clean [OF ex_fs_ok(1) ex_fs_fields(1)] ex_fs_ok(2) by (simp add: ex_txn_def)
  show b: "bmap_block ex_txn = 58" "sb ex_txn = ex_sb" "inodes ex_txn = (\<lambda>_. ex_inode)"
    by (simp_all add: bmap_block_def ex_txn_def ex_fs_fields ex_sb_def)
  show f: "free_blocks ex_txn = {64..<1000}"
    using ex_bit_free by (auto simp: free_blocks_def b v) (auto simp: ex_sb_def)
  show l: "log_area ex_txn = {2..<32}" by (simp add: ex_txn_def ex_fs_ok(3))
  have "log_inv 2 {} ex_txn" "homes ex_txn = []" using ex_fs_ok(1) by (simp_all add: ex_txn_def homes_def ex_fs_fields)
  then show "fs_ok 2 {} ex_txn" unfolding fs_ok_def b f l by (auto simp: ex_sb_def)
  show "room k ex_txn \<longleftrightarrow> k < 30" by (simp add: room_def ex_txn_def ex_fs_fields)
qed

theorem balloc_correct_witness: "\<exists>t. balloc 1 ex_txn = Ok 64 t \<and> bview t 64 = replicate BSIZE 0"
proof -
  have m: "Min (free_blocks ex_txn) = 64" unfolding ex_txn_ok(3) by (rule Min_eqI) auto
  have "free_blocks ex_txn \<noteq> {}" "room (card {} + 2) ex_txn" by (simp_all add: ex_txn_ok)
  with balloc_correct [OF ex_txn_ok(4), unfolded m] show ?thesis by (auto simp: not_held_def Let_def)
qed

theorem bfree_correct_witness: "\<exists>t. bfree 1 60 ex_txn = Ok () t \<and> free_blocks t = insert 60 {64..<1000}"
proof -
  have "(60 :: nat) \<notin> free_blocks ex_txn" "room (card {} + 1) ex_txn" by (simp_all add: ex_txn_ok)
  with bfree_correct [OF ex_txn_ok(4), of 60] show ?thesis by (auto simp: not_held_def ex_txn_ok ex_sb_def)
qed

end
