(* ===== verification/FileData.thy ===== *)
theory FileData
  imports FileSys
begin

text \<open>
  The content of a file: \<open>bmap\<close> finds or allocates the blocks of a file without changing its
  bytes.
\<close>

section \<open>Files\<close>

text \<open>The address of the \<open>i\<close>th block of a file, 0 if it has none, and the bytes of the file.\<close>

definition file_addr :: "(nat \<Rightarrow> block) \<Rightarrow> inode \<Rightarrow> nat \<Rightarrow> uint" where
  "file_addr V x i =
     (if i < NDIRECT then iaddrs x ! i
      else if iaddrs x ! NDIRECT = 0 then 0 else get32 (V (unat (iaddrs x ! NDIRECT))) (4 * (i - NDIRECT)))"

definition file_byte :: "(nat \<Rightarrow> block) \<Rightarrow> inode \<Rightarrow> nat \<Rightarrow> uchar" where
  "file_byte V x i = (let a = file_addr V x (i div BSIZE) in if a = 0 then 0 else V (unat a) ! (i mod BSIZE))"

definition in_use :: "'z fs_st_scheme \<Rightarrow> nat \<Rightarrow> bool" where
  "in_use s n \<longleftrightarrow> bmap_block s < n \<and> n < unat (sb_size (sb s)) \<and> n \<notin> free_blocks s"

text \<open>The blocks of a file are in use, and all different.\<close>

definition file_wf :: "'z fs_st_scheme \<Rightarrow> inode \<Rightarrow> bool" where
  "file_wf s x \<longleftrightarrow> idev x = 1 \<and> length (iaddrs x) = NDIRECT + 1 \<and>
     (iaddrs x ! NDIRECT \<noteq> 0 \<longrightarrow> in_use s (unat (iaddrs x ! NDIRECT))) \<and>
     (\<forall>i < MAXFILE. file_addr (bview s) x i \<noteq> 0 \<longrightarrow>
        in_use s (unat (file_addr (bview s) x i)) \<and> file_addr (bview s) x i \<noteq> iaddrs x ! NDIRECT \<and>
        (\<forall>j < MAXFILE. file_addr (bview s) x j = file_addr (bview s) x i \<longrightarrow> j = i))"

abbreviation (input) faddr :: "'z fs_st_scheme \<Rightarrow> nat \<Rightarrow> nat \<Rightarrow> uint" where
  "faddr s ip \<equiv> file_addr (bview s) (inodes s ip)"

abbreviation (input) fbyte :: "'z fs_st_scheme \<Rightarrow> nat \<Rightarrow> nat \<Rightarrow> uchar" where
  "fbyte s ip \<equiv> file_byte (bview s) (inodes s ip)"

abbreviation (input) ind :: "'z fs_st_scheme \<Rightarrow> nat \<Rightarrow> uint" where
  "ind s ip \<equiv> iaddrs (inodes s ip) ! NDIRECT"

lemma iupd_simps [simp]:
  "log_inv pd H (iupd ip f s) = log_inv pd H s" "bview (iupd ip f s) = bview s" "disk (iupd ip f s) = disk s"
  "homes (iupd ip f s) = homes s" "log_area (iupd ip f s) = log_area s" "sb (iupd ip f s) = sb s" "bmap_block (iupd ip f s) = bmap_block s"
  "free_blocks (iupd ip f s) = free_blocks s" "fs_ok pd H (iupd ip f s) = fs_ok pd H s" "in_use (iupd ip f s) = in_use s"
  "room k (iupd ip f s) = room k s" "lh_n (iupd ip f s) = lh_n s" "bufs (iupd ip f s) = bufs s" "file_wf (iupd ip f s) = file_wf s"
  "inodes (iupd ip f s) = (inodes s)(ip := f (inodes s ip))"
proof -
  have r: "running (iupd ip f s) pd = running s pd" for pd by (rule running_cong) (simp_all add: iupd_def)
  show b: "bview (iupd ip f s) = bview s" "disk (iupd ip f s) = disk s" "sb (iupd ip f s) = sb s" "homes (iupd ip f s) = homes s"
    "log_area (iupd ip f s) = log_area s" "room k (iupd ip f s) = room k s" "lh_n (iupd ip f s) = lh_n s" "bufs (iupd ip f s) = bufs s"
    "bmap_block (iupd ip f s) = bmap_block s" "inodes (iupd ip f s) = (inodes s)(ip := f (inodes s ip))"
    by (simp_all add: iupd_def bview_def disk_def homes_def log_area_def room_def bmap_block_def)
  show l: "log_inv pd H (iupd ip f s) = log_inv pd H s"
    using r by (simp add: log_inv_def binv_def log_geo_def b) (simp add: iupd_def)
  show f: "free_blocks (iupd ip f s) = free_blocks s" by (simp add: free_blocks_def b)
  show "fs_ok pd H (iupd ip f s) = fs_ok pd H s" by (simp add: fs_ok_def l b f)
  show i: "in_use (iupd ip f s) = in_use s" by (simp add: fun_eq_iff in_use_def b f)
  show "file_wf (iupd ip f s) = file_wf s" by (simp add: fun_eq_iff file_wf_def b i)
qed

text \<open>What the operations on a file may change of the rest of the state.\<close>

definition fstep :: "nat \<Rightarrow> 'z fs_st_scheme \<Rightarrow> 'z fs_st_scheme \<Rightarrow> bool" where
  "fstep ip s t \<longleftrightarrow> (\<exists>u al. lstep s u \<and> t = iupd ip (\<lambda>x. x\<lparr>iaddrs := al\<rparr>) u)"

lemma fstep_lstep: "lstep s t \<Longrightarrow> fstep ip s t" for s :: "'z fs_st_scheme"
proof -
  have "t = iupd ip (\<lambda>x. x\<lparr>iaddrs := iaddrs (inodes t ip)\<rparr>) t" by (simp add: iupd_def)
  then show "lstep s t \<Longrightarrow> ?thesis" unfolding fstep_def by blast
qed

lemma lstep_iupd: "lstep (iupd ip f s) t \<Longrightarrow> \<exists>u. lstep s u \<and> t = iupd ip (\<lambda>_. f (inodes s ip)) u" for s :: "'z fs_st_scheme"
proof -
  assume "lstep (iupd ip f s) t"
  then obtain p bf n bl where t: "t = (iupd ip f s)\<lparr>ptable := p, bufs := bf, lh_n := n, lh_block := bl\<rparr>" by (rule lstepE)
  let ?u = "s\<lparr>ptable := p, bufs := bf, lh_n := n, lh_block := bl\<rparr>"
  have "t = iupd ip (\<lambda>_. f (inodes s ip)) ?u" unfolding t by (simp add: iupd_def)
  then show ?thesis using lstepI by blast
qed

lemma fstep_trans: "fstep ip s t \<Longrightarrow> fstep ip t u \<Longrightarrow> fstep ip s u" for s :: "'z fs_st_scheme"
proof -
  assume "fstep ip s t" "fstep ip t u"
  then obtain a al b bl where a: "lstep s a" "t = iupd ip (\<lambda>x. x\<lparr>iaddrs := al\<rparr>) a" "lstep t b" "u = iupd ip (\<lambda>x. x\<lparr>iaddrs := bl\<rparr>) b"
    unfolding fstep_def by blast
  obtain c where c: "lstep a c" "b = iupd ip (\<lambda>_. (inodes a ip)\<lparr>iaddrs := al\<rparr>) c" using lstep_iupd [OF a(3) [unfolded a(2)]] by blast
  have "inodes c = inodes a" using lstep_fs(2) [OF c(1)] .
  then have "u = iupd ip (\<lambda>x. x\<lparr>iaddrs := bl\<rparr>) c" unfolding a(4) c(2) by (simp add: iupd_def)
  then show ?thesis using lstep_trans [OF a(1) c(1)] unfolding fstep_def by blast
qed

lemma fstep_fields:
  assumes "fstep ip s t"
  shows "sb t = sb s" "log_area t = log_area s" "bmap_block t = bmap_block s" "log_size t = log_size s" "outstanding t = outstanding s"
    "\<exists>al. inodes t = (inodes s)(ip := (inodes s ip)\<lparr>iaddrs := al\<rparr>)" "dhist t = dhist s"
proof -
  obtain u al where u: "lstep s u" "t = iupd ip (\<lambda>x. x\<lparr>iaddrs := al\<rparr>) u" using assms unfolding fstep_def by blast
  show "sb t = sb s" "log_area t = log_area s" "bmap_block t = bmap_block s" "\<exists>al. inodes t = (inodes s)(ip := (inodes s ip)\<lparr>iaddrs := al\<rparr>)"
    "log_size t = log_size s" "outstanding t = outstanding s" "dhist t = dhist s"
    using lstep_fs [OF u(1)] lstep_fields [OF u(1)] by (auto simp: u(2)) (auto simp: iupd_def)
qed

section \<open>Allocating a block\<close>

text \<open>The blocks that are logged, with the bitmap and the indirect block of the file.\<close>

definition logset :: "nat \<Rightarrow> 'z fs_st_scheme \<Rightarrow> nat set" where
  "logset ip s = set (homes s) \<union> {bmap_block s, unat (ind s ip)}"

definition has_room :: "nat \<Rightarrow> nat \<Rightarrow> 'z fs_st_scheme \<Rightarrow> bool" where
  "has_room ip k s \<longleftrightarrow> card (logset ip s) + k < LOGSIZE \<and> int (card (logset ip s) + k) < sint (log_size s) \<and> 1 \<le> outstanding s"

lemma has_room_room:
  fixes s :: "'z fs_st_scheme"
  assumes "log_inv pd H s" "has_room ip k s"
  shows "room k s"
proof -
  have "lh_n s = card (set (homes s))"
    using assms(1) length_homes [of s] distinct_card [of "homes s"] by (simp add: log_inv_def log_geo_def)
  also have "\<dots> \<le> card (logset ip s)" by (rule card_mono) (auto simp: logset_def)
  finally show ?thesis using assms(2) by (simp add: has_room_def room_def)
qed

lemma has_room_le:
  assumes "has_room ip k s" "card (logset ip t) + j \<le> card (logset ip s) + k" "log_size t = log_size s" "outstanding t = outstanding s"
  shows "has_room ip j t"
  using assms by (simp add: has_room_def)

definition keeps_file :: "cint \<Rightarrow> nat \<Rightarrow> 'z fs_st_scheme \<Rightarrow> 'z fs_st_scheme \<Rightarrow> bool" where
  "keeps_file pd ip s t \<longleftrightarrow> fs_ok pd {} t \<and> fstep ip s t \<and> file_wf t (inodes t ip) \<and>
     (\<forall>i < MAXFILE. faddr t ip i = faddr s ip i \<or> faddr s ip i = 0 \<and> unat (faddr t ip i) \<in> free_blocks s) \<and>
     (\<forall>i. i div BSIZE < MAXFILE \<longrightarrow> fbyte t ip i = fbyte s ip i) \<and> free_blocks t \<subseteq> free_blocks s \<and>
     (\<forall>n. n \<noteq> bmap_block s \<longrightarrow> n \<notin> free_blocks s \<longrightarrow> n \<noteq> unat (ind s ip) \<longrightarrow> bview t n = bview s n) \<and>
     (ind t ip = ind s ip \<or> ind s ip = 0 \<and> unat (ind t ip) \<in> free_blocks s)"

lemma keeps_file_refl: "fs_ok pd {} s \<Longrightarrow> file_wf s (inodes s ip) \<Longrightarrow> keeps_file pd ip s s"
  by (simp add: keeps_file_def fstep_lstep)

lemma keeps_file_trans:
  fixes s :: "'z fs_st_scheme"
  assumes "keeps_file pd ip s t" "keeps_file pd ip t u"
  shows "keeps_file pd ip s u"
proof -
  have f: "free_blocks t \<subseteq> free_blocks s" "free_blocks u \<subseteq> free_blocks t" "bmap_block t = bmap_block s"
    using assms fstep_fields(3) by (auto simp: keeps_file_def)
  have "bview u n = bview s n" if "n \<noteq> bmap_block s" "n \<notin> free_blocks s" "n \<noteq> unat (ind s ip)" for n
  proof -
    have "n \<noteq> unat (ind t ip)" using assms(1) that by (auto simp: keeps_file_def)
    then have "bview u n = bview t n" using assms(2) that f by (auto simp: keeps_file_def)
    also have "\<dots> = bview s n" using assms(1) that by (auto simp: keeps_file_def)
    finally show ?thesis .
  qed
  moreover have "ind u ip = ind s ip \<or> ind s ip = 0 \<and> unat (ind u ip) \<in> free_blocks s"
    using assms f(1) by (auto simp: keeps_file_def)
  moreover have "faddr u ip i = faddr s ip i \<or> faddr s ip i = 0 \<and> unat (faddr u ip i) \<in> free_blocks s" if "i < MAXFILE" for i
  proof -
    have "faddr t ip i = faddr s ip i \<or> faddr s ip i = 0 \<and> unat (faddr t ip i) \<in> free_blocks s"
      "faddr u ip i = faddr t ip i \<or> faddr t ip i = 0 \<and> unat (faddr u ip i) \<in> free_blocks t"
      using assms that by (auto simp: keeps_file_def)
    then show ?thesis using f(1) by auto
  qed
  moreover have "\<forall>i. i div BSIZE < MAXFILE \<longrightarrow> fbyte u ip i = fbyte s ip i" using assms by (auto simp: keeps_file_def)
  ultimately show ?thesis using assms fstep_trans [of ip s t u] f by (auto simp: keeps_file_def)
qed

text \<open>Taking a free block \<open>k\<close> changes no address and no byte of a file.\<close>

lemma addr_alloc:
  assumes "file_wf s x" "k \<in> free_blocks s" "W = (bview s)(bmap_block s := m, k := z)"
  shows "file_addr W x i = file_addr (bview s) x i"
    "i div BSIZE < MAXFILE \<Longrightarrow> file_byte W x i = file_byte (bview s) x i"
proof -
  have u: "W n = bview s n" if "in_use s n" for n using that assms(2,3) by (auto simp: in_use_def)
  show a: "file_addr W x i = file_addr (bview s) x i" for i
    using assms(1) u by (auto simp: file_wf_def file_addr_def)
  show "file_byte W x i = file_byte (bview s) x i" if "i div BSIZE < MAXFILE"
    using assms(1) u that unfolding file_byte_def a by (simp add: file_wf_def Let_def)
qed

text \<open>Giving the free block \<open>k\<close>, now zero, to the file as a direct or as the indirect block.\<close>

lemma in_use_alloc:
  fixes s :: "'z fs_st_scheme"
  assumes "fs_ok pd H s" "k \<in> free_blocks s" "free_blocks t = free_blocks s - {k}" "lstep s t"
  shows "in_use s n \<Longrightarrow> in_use t n" "in_use t k"
  using assms(3) free_alloc [OF assms(1,2)] lstep_fs [OF assms(4)] assms(2)
  by (auto simp: in_use_def free_blocks_def)

text \<open>
  A free block that becomes the block \<open>bn\<close> of the file, or its indirect block, keeps the file
  well-formed and its bytes.
\<close>

lemma give_block:
  assumes "file_wf s x" "\<forall>n. in_use s n \<longrightarrow> in_use t n" "k \<in> free_blocks s" "in_use t k" "unat (of_nat k :: uint) = k" "0 < k"
    "idev y = 1" "length (iaddrs y) = NDIRECT + 1" "bview t k = replicate BSIZE 0"
    "\<forall>n. in_use s n \<longrightarrow> n \<noteq> unat (iaddrs x ! NDIRECT) \<longrightarrow> bview t n = bview s n"
    "(\<forall>i < MAXFILE. file_addr (bview t) y i = (if i = bn then of_nat k else file_addr (bview s) x i)) \<and>
       file_addr (bview s) x bn = 0 \<and> bn < MAXFILE \<and> iaddrs y ! NDIRECT = iaddrs x ! NDIRECT \<or>
     (\<forall>i < MAXFILE. file_addr (bview t) y i = file_addr (bview s) x i) \<and> iaddrs x ! NDIRECT = 0 \<and> iaddrs y ! NDIRECT = of_nat k"
  shows "file_wf t y" "\<forall>i. i div BSIZE < MAXFILE \<longrightarrow> file_byte (bview t) y i = file_byte (bview s) x i"
    "\<forall>i < MAXFILE. file_addr (bview t) y i = file_addr (bview s) x i \<or> file_addr (bview s) x i = 0 \<and> unat (file_addr (bview t) y i) \<in> free_blocks s"
proof -
  define w where "w = (of_nat k :: uint)"
  have w: "unat w = k" "w \<noteq> 0" using assms(5,6) by (auto simp: w_def)
  note cs = assms(11) [folded w_def]
  have nk: "\<not> in_use s k" using assms(3) by (simp add: in_use_def)
  then have new: "file_addr (bview s) x i \<noteq> w" "iaddrs x ! NDIRECT \<noteq> w" if "i < MAXFILE" for i
    using assms(1) that w by (auto simp: file_wf_def)
  have a: "in_use s (unat (file_addr (bview s) x i))" "file_addr (bview s) x i \<noteq> iaddrs x ! NDIRECT"
    "\<forall>j < MAXFILE. file_addr (bview s) x j = file_addr (bview s) x i \<longrightarrow> j = i" if "i < MAXFILE" "file_addr (bview s) x i \<noteq> 0" for i
    using assms(1) that by (auto simp: file_wf_def)
  have i: "iaddrs x ! NDIRECT \<noteq> 0 \<longrightarrow> in_use s (unat (iaddrs x ! NDIRECT))" using assms(1) by (simp add: file_wf_def)
  show "\<forall>i < MAXFILE. file_addr (bview t) y i = file_addr (bview s) x i \<or> file_addr (bview s) x i = 0 \<and> unat (file_addr (bview t) y i) \<in> free_blocks s"
    using cs w(1) assms(3) by (auto split: if_splits)
  have "file_byte (bview t) y j = file_byte (bview s) x j" if j: "j div BSIZE < MAXFILE" for j
  proof (cases "file_addr (bview s) x (j div BSIZE) = 0")
    case True
    then have "file_addr (bview t) y (j div BSIZE) = 0 \<or> file_addr (bview t) y (j div BSIZE) = w" using cs j by auto
    then show ?thesis using True w(1) assms(9) by (auto simp: file_byte_def Let_def)
  next
    case False
    then have "file_addr (bview t) y (j div BSIZE) = file_addr (bview s) x (j div BSIZE)" using cs j by auto
    moreover have "unat (file_addr (bview s) x (j div BSIZE)) \<noteq> unat (iaddrs x ! NDIRECT)"
      using a(2) [OF j False] by (simp add: word_unat_eq_iff)
    ultimately show ?thesis using False a(1) [OF j False] assms(10) by (simp add: file_byte_def Let_def)
  qed
  then show "\<forall>i. i div BSIZE < MAXFILE \<longrightarrow> file_byte (bview t) y i = file_byte (bview s) x i" by blast
  show "file_wf t y"
    using cs
  proof
    assume h: "(\<forall>i < MAXFILE. file_addr (bview t) y i = (if i = bn then w else file_addr (bview s) x i)) \<and>
       file_addr (bview s) x bn = 0 \<and> bn < MAXFILE \<and> iaddrs y ! NDIRECT = iaddrs x ! NDIRECT"
    have "in_use t (unat (file_addr (bview t) y i)) \<and> file_addr (bview t) y i \<noteq> iaddrs y ! NDIRECT \<and>
        (\<forall>j < MAXFILE. file_addr (bview t) y j = file_addr (bview t) y i \<longrightarrow> j = i)"
      if "i < MAXFILE" "file_addr (bview t) y i \<noteq> 0" for i
      using h that new(1) new(2) [OF that(1)] a [OF that(1)] assms(2,4) w by (cases "i = bn") auto
    moreover have "iaddrs y ! NDIRECT \<noteq> 0 \<longrightarrow> in_use t (unat (iaddrs y ! NDIRECT))" using h i assms(2) by simp
    ultimately show ?thesis unfolding file_wf_def using assms(7,8) by blast
  next
    assume h: "(\<forall>i < MAXFILE. file_addr (bview t) y i = file_addr (bview s) x i) \<and> iaddrs x ! NDIRECT = 0 \<and> iaddrs y ! NDIRECT = w"
    have "in_use t (unat (file_addr (bview t) y i)) \<and> file_addr (bview t) y i \<noteq> iaddrs y ! NDIRECT \<and>
        (\<forall>j < MAXFILE. file_addr (bview t) y j = file_addr (bview t) y i \<longrightarrow> j = i)"
      if "i < MAXFILE" "file_addr (bview t) y i \<noteq> 0" for i
      using h that new(1) [OF that(1)] a [OF that(1)] assms(2) by auto
    moreover have "iaddrs y ! NDIRECT \<noteq> 0 \<longrightarrow> in_use t (unat (iaddrs y ! NDIRECT))" using h w(1) assms(4) by simp
    ultimately show ?thesis unfolding file_wf_def using assms(7,8) by blast
  qed
qed

text \<open>Allocating a direct block or the indirect block.\<close>

lemma zero_get32: "i + 4 \<le> BSIZE \<Longrightarrow> get32 (replicate BSIZE 0) i = 0"
  by (simp add: get32_def zero_header)

lemma alloc_slot:
  fixes s :: "'z fs_st_scheme"
  assumes "fs_ok pd {} s" "file_wf s (inodes s ip)" "has_room ip 2 s" "j \<le> NDIRECT" "iaddrs (inodes s ip) ! j = 0" "free_blocks s \<noteq> {}"
  obtains a t where
    "rbind (balloc (idev (inodes s ip)) s) (\<lambda>addr s. Ok addr (iupd ip (\<lambda>x. x\<lparr>iaddrs := (iaddrs x)[j := addr]\<rparr>) s)) = Ok a t"
    "keeps_file pd ip s t" "a \<noteq> 0" "iaddrs (inodes t ip) ! j = a" "card (free_blocks s) \<le> card (free_blocks t) + 1"
    "card (insert (unat a) (logset ip t)) \<le> card (logset ip s) + (if j = NDIRECT then 0 else 1)"
proof -
  let ?x = "inodes s ip" and ?m = "bmap_block s"
  have x: "idev ?x = 1" "length (iaddrs ?x) = NDIRECT + 1" using assms(2) by (auto simp: file_wf_def)
  have li: "log_inv pd {} s" using assms(1) by (simp add: fs_ok_def)
  have r: "room (card {} + 2) s" using has_room_room [OF li assms(3)] by (simp only: card.empty add_0)
  obtain k u where u: "k \<in> free_blocks s" "k = Min (free_blocks s)" "balloc 1 s = Ok (of_nat k) u" "fs_ok pd {} u" "lstep s u"
    "keeps_held {} (bufs s) (bufs u)" "lh_n u \<le> lh_n s + 2"
    "bview u = (bview s)(?m := set_bit k (bview s ?m), k := replicate BSIZE 0)"
    "set (homes u) = {?m, k} \<union> set (homes s)" "free_blocks u = free_blocks s - {k}"
    by (rule balloc_fs [OF assms(1) r _ _ assms(6)]) (simp_all add: not_held_def)
  note k = free_alloc [OF assms(1) u(1)]
  note f = lstep_fs [OF u(5)]
  let ?y = "?x\<lparr>iaddrs := (iaddrs ?x)[j := of_nat k]\<rparr>"
  let ?t = "iupd ip (\<lambda>x. x\<lparr>iaddrs := (iaddrs x)[j := of_nat k]\<rparr>) u"
  have a0: "(of_nat k :: uint) \<noteq> 0" using k by (metis not_less0 unat_0)
  have run: "rbind (balloc (idev ?x) s) (\<lambda>addr s. Ok addr (iupd ip (\<lambda>x. x\<lparr>iaddrs := (iaddrs x)[j := addr]\<rparr>) s)) = Ok (of_nat k) ?t"
    using u(3) x(1) by simp
  note sh = addr_alloc [OF assms(2) u(1) u(8)]
  have vk: "bview u k = replicate BSIZE 0" unfolding u(8) by simp
  have al: "j < NDIRECT \<Longrightarrow> i < MAXFILE \<Longrightarrow> file_addr (bview u) ?y i = (if i = j then of_nat k else file_addr (bview s) ?x i)" for i
    using sh(1) [of i] x(2) by (auto simp: file_addr_def nth_list_update)
  have ai: "j = NDIRECT \<Longrightarrow> i < MAXFILE \<Longrightarrow> file_addr (bview u) ?y i = file_addr (bview s) ?x i" for i
    using x(2) a0 k(5) vk assms(5) zero_get32 [of "4 * (i - NDIRECT)"] by (auto simp: file_addr_def nth_list_update)
  have cs: "(\<forall>i < MAXFILE. file_addr (bview u) ?y i = (if i = j then of_nat k else file_addr (bview s) ?x i)) \<and>
       file_addr (bview s) ?x j = 0 \<and> j < MAXFILE \<and> iaddrs ?y ! NDIRECT = iaddrs ?x ! NDIRECT \<or>
     (\<forall>i < MAXFILE. file_addr (bview u) ?y i = file_addr (bview s) ?x i) \<and> iaddrs ?x ! NDIRECT = 0 \<and> iaddrs ?y ! NDIRECT = of_nat k"
  proof (cases "j < NDIRECT")
    case True
    then show ?thesis using al [OF True] assms(5) by (intro disjI1) (simp add: file_addr_def)
  next
    case False
    then show ?thesis using ai assms(4,5) x(2) by (intro disjI2) simp
  qed
  have iu: "\<forall>n. in_use s n \<longrightarrow> in_use u n" "in_use u k" using in_use_alloc [OF assms(1) u(1,10,5)] by auto
  have same: "\<forall>n. in_use s n \<longrightarrow> n \<noteq> unat (iaddrs ?x ! NDIRECT) \<longrightarrow> bview u n = bview s n"
    using u(1) unfolding u(8) by (auto simp: in_use_def)
  have y: "idev ?y = 1" "length (iaddrs ?y) = NDIRECT + 1" using x by simp_all
  have k0: "0 < k" using k(2) by simp
  note g = give_block [OF assms(2) iu(1) u(1) iu(2) k(5) k0 y vk same cs]
  have "keeps_file pd ip s ?t"
    unfolding keeps_file_def
  proof (intro conjI)
    show "fstep ip s ?t" unfolding fstep_def using u(5) f(2) by (intro exI [of _ u] exI [of _ "(iaddrs ?x)[j := of_nat k]"]) (simp add: iupd_def)
    show "ind ?t ip = ind s ip \<or> ind s ip = 0 \<and> unat (ind ?t ip) \<in> free_blocks s"
      using x(2) u(1) k(5) assms(4,5) f(2) by (cases "j = NDIRECT") simp_all
    show "\<forall>n. n \<noteq> ?m \<longrightarrow> n \<notin> free_blocks s \<longrightarrow> n \<noteq> unat (ind s ip) \<longrightarrow> bview ?t n = bview s n"
      using u(1,8) by auto
  qed (use g u(4,10) f(2) in \<open>simp_all add: Diff_subset\<close>)
  moreover have "card (free_blocks s) \<le> card (free_blocks ?t) + 1"
  proof -
    have "finite (free_blocks s)" by (simp add: free_blocks_def)
    then show ?thesis using u(1,10) by (simp add: card_Diff_singleton)
  qed
  moreover have "card (insert k (logset ip ?t)) \<le> card (logset ip s) + (if j = NDIRECT then 0 else 1)"
  proof (cases "j = NDIRECT")
    case True
    have "insert k (logset ip ?t) = insert k (insert ?m (set (homes s)))"
      using True x(2) u(9) f k(5) by (auto simp: logset_def)
    moreover have "logset ip s = insert 0 (insert ?m (set (homes s)))" using True assms(5) by (auto simp: logset_def)
    moreover have "0 \<notin> insert ?m (set (homes s))" using k(6) assms(1) by (auto simp: fs_ok_def)
    ultimately show ?thesis using True card_insert_le_m1 [of _ "insert ?m (set (homes s))" k] by (simp add: card_insert_if)
  next
    case False
    have "insert k (logset ip ?t) = insert k (logset ip s)" using False x(2) u(9) f by (auto simp: logset_def)
    then show ?thesis using False card_insert_le_m1 [of _ "logset ip s" k] by (simp add: card_insert_if)
  qed
  ultimately show thesis using run a0 x(2) assms(4) k(5) f(2) by (intro that [OF run]) simp_all
qed

text \<open>Reading blocks changes nothing of a file.\<close>

lemma keeps_file_read:
  fixes s :: "'z fs_st_scheme"
  assumes "fs_ok pd {} s" "file_wf s (inodes s ip)" "bstep s t" "dhist t = dhist s" "bview t = bview s" "log_inv pd {} t"
  shows "keeps_file pd ip s t" "free_blocks t = free_blocks s" "logset ip t = logset ip s"
proof -
  note l = lstep_bstep [OF assms(3,4)] and h = bstep_geo(2) [OF assms(3)]
  show f: "free_blocks t = free_blocks s" using lstep_fs [OF l] assms(5) by (simp add: free_blocks_def)
  show "logset ip t = logset ip s" using h lstep_fs [OF l] by (simp add: logset_def)
  have "fs_ok pd {} t" by (rule fs_ok_bitmap [OF assms(1,6) l]) (use assms(1) f h in \<open>auto simp: fs_ok_def\<close>)
  moreover have "file_wf t (inodes s ip)" using assms(2,5) f lstep_fs [OF l] by (simp add: file_wf_def in_use_def)
  ultimately show "keeps_file pd ip s t" using assms(5) f lstep_fs [OF l] fstep_lstep [OF l] by (simp add: keeps_file_def)
qed

lemma in_use_block: "fs_ok pd H s \<Longrightarrow> in_use s n \<Longrightarrow> n < FSSIZE \<and> n \<notin> log_area s \<and> n \<noteq> bmap_block s \<and> 0 < n"
  by (auto simp: fs_ok_def in_use_def)

text \<open>The entry \<open>i\<close> of the indirect block.\<close>

definition ind_entry :: "nat \<Rightarrow> nat \<Rightarrow> uint \<Rightarrow> 'z fs_st_scheme \<Rightarrow> (uint, 'z fs_st_scheme) res" where
  "ind_entry ip i addr s =
     rbind (bread (idev (inodes s ip)) addr s) (\<lambda>bp s.
     rbind (let addr = get32 (data (bufs s bp)) (4 * i)
            in if addr = 0
               then rbind (balloc (idev (inodes s ip)) s) (\<lambda>addr s.
                    rbind (log_write bp (bupd bp (\<lambda>x. x\<lparr>data := put32 (4 * i) addr (data x)\<rparr>) s)) (\<lambda>_ s. Ok addr s))
               else Ok addr s) (\<lambda>addr s.
     rbind (brelse bp s) (\<lambda>_ s. Ok addr s)))"

lemma ind_entry_present:
  fixes s :: "'z fs_st_scheme"
  assumes "fs_ok pd {} s" "file_wf s (inodes s ip)" "ind s ip \<noteq> 0" "i < NINDIRECT" "faddr s ip (NDIRECT + i) \<noteq> 0"
  obtains t where "ind_entry ip i (ind s ip) s = Ok (faddr s ip (NDIRECT + i)) t" "bstep s t" "dhist t = dhist s" "bview t = bview s" "log_inv pd {} t"
proof -
  have x: "idev (inodes s ip) = 1" "in_use s (unat (ind s ip))" using assms(2,3) by (auto simp: file_wf_def)
  have li: "log_inv pd {} s" using assms(1) by (simp add: fs_ok_def)
  have n: "unat (ind s ip) < FSSIZE" using in_use_block [OF assms(1) x(2)] by simp
  have r: "lh_n s + card {} < LOGSIZE" using li by (simp add: log_inv_def log_geo_def)
  obtain b u where u: "bread 1 (ind s ip) s = Ok b u" "b \<notin> {}" "log_inv pd (insert b {}) u" "bstep s u" "dhist u = dhist s"
    "bview u = bview s" "blockno (bufs u b) = ind s ip" "data (bufs u b) = bview s (unat (ind s ip))" "keeps_held {} (bufs s) (bufs u)" "fresh b u"
    by (rule txn_read [OF li r n]) simp
  obtain t where t: "brelse b u = Ok () t" "log_inv pd {} t" "bstep u t" "dhist t = dhist u" "bview t = bview u" "keeps_held {} (bufs u) (bufs t)"
    by (rule txn_release [OF u(3,2,10)])
  have "ind_entry ip i (ind s ip) s = Ok (faddr s ip (NDIRECT + i)) t"
    using x(1) u(1,8) t(1) assms(3,5) by (simp add: ind_entry_def file_addr_def Let_def)
  with t u bstep_trans [OF u(4) t(3)] show thesis by (intro that [of t]) simp_all
qed

lemma ind_entry_absent:
  fixes s :: "'z fs_st_scheme"
  assumes "fs_ok pd {} s" "file_wf s (inodes s ip)" "room 3 s" "ind s ip \<noteq> 0" "i < NINDIRECT" "faddr s ip (NDIRECT + i) = 0" "free_blocks s \<noteq> {}"
  obtains k t where "ind_entry ip i (ind s ip) s = Ok (of_nat k) t" "k \<in> free_blocks s" "log_inv pd {} t" "lstep s t"
    "bview t = (bview s)(bmap_block s := set_bit k (bview s (bmap_block s)), k := replicate BSIZE 0,
       unat (ind s ip) := put32 (4 * i) (of_nat k) (bview s (unat (ind s ip))))"
    "set (homes t) = {bmap_block s, k, unat (ind s ip)} \<union> set (homes s)"
proof -
  let ?n = "unat (ind s ip)" and ?m = "bmap_block s"
  have x: "idev (inodes s ip) = 1" "in_use s ?n" using assms(2,4) by (auto simp: file_wf_def)
  have li: "log_inv pd {} s" using assms(1) by (simp add: fs_ok_def)
  note n = in_use_block [OF assms(1) x(2)]
  have r: "lh_n s + card {} < LOGSIZE" using li by (simp add: log_inv_def log_geo_def)
  obtain b u where u: "bread 1 (ind s ip) s = Ok b u" "b \<notin> {}" "log_inv pd (insert b {}) u" "bstep s u" "dhist u = dhist s"
    "bview u = bview s" "blockno (bufs u b) = ind s ip" "data (bufs u b) = bview s ?n" "keeps_held {} (bufs s) (bufs u)" "fresh b u"
    by (rule txn_read [OF li r conjunct1 [OF n]]) simp
  note su = lstep_bstep [OF u(4,5)]
  note fu = lstep_fs [OF su]
  have sec: "sector_of (bufs u b) = ?n" using u(7) by (simp add: sector_of_def)
  have fr: "free_blocks u = free_blocks s" using fu u(6) by (simp add: free_blocks_def)
  have ok: "fs_ok pd {b} u"
    by (rule fs_ok_bitmap [OF assms(1) u(3) su]) (use assms(1) fr bstep_geo(2) [OF u(4)] in \<open>auto simp: fs_ok_def\<close>)
  have ru: "room (card {b} + 2) u" using room_bstep [OF u(4)] assms(3) by (simp add: numeral_3_eq_3)
  have nh: "not_held {b} (bmap_block u) u" "\<forall>k \<in> free_blocks u. not_held {b} k u"
    using sec n x(2) fu(3) fr by (auto simp: not_held_def in_use_def)
  have ne: "free_blocks u \<noteq> {}" using fr assms(7) by simp
  obtain k v where v: "k \<in> free_blocks u" "k = Min (free_blocks u)" "balloc 1 u = Ok (of_nat k) v" "fs_ok pd {b} v" "lstep u v"
    "keeps_held {b} (bufs u) (bufs v)" "lh_n v \<le> lh_n u + 2"
    "bview v = (bview u)(bmap_block u := set_bit k (bview u (bmap_block u)), k := replicate BSIZE 0)"
    "set (homes v) = {bmap_block u, k} \<union> set (homes u)" "free_blocks v = free_blocks u - {k}"
    by (rule balloc_fs [OF ok ru nh ne])
  note sv = lstep_trans [OF su v(5)]
  have cv: "sector_of (bufs v b) = ?n" "data (bufs v b) = bview s ?n"
    using v(6) sec u(8) by (simp_all add: keeps_held_def content_def sector_of_def)
  have rv: "room 1 v" using assms(3) v(7) bstep_log(4) [OF u(4)] lstep_fields [OF sv] by (simp add: room_def)
  have len: "length (bview s ?n) = BSIZE" using bview_length [of pd "{}" s] li n by (simp add: log_inv_def)
  obtain t where t: "log_update b (put32 (4 * i) (of_nat k)) v = Ok () t" "log_inv pd {} t" "lstep v t"
    "bview t = (bview v)(sector_of (bufs v b) := put32 (4 * i) (of_nat k) (data (bufs v b)))" "keeps_held {} (bufs v) (bufs t)"
    "lh_n t \<le> lh_n v + 1" "lh_n v \<le> lh_n t" "set (homes t) = insert (sector_of (bufs v b)) (set (homes v))"
    by (rule log_update_ok [OF _ u(2), of pd v "put32 (4 * i) (of_nat k)"])
      (use v(4) cv n len rv lstep_fields(8) [OF sv] assms(5) in \<open>simp_all add: fs_ok_def\<close>)
  have "get32 (data (bufs u b)) (4 * i) = 0" using assms(4,6) u(8) by (simp add: file_addr_def)
  then have "ind_entry ip i (ind s ip) s = Ok (of_nat k) t"
    using x(1) u(1) v(3) t(1) fu(2) by (cases "log_write b (bupd b (\<lambda>x. x\<lparr>data := put32 (4 * i) (of_nat k) (data x)\<rparr>) v)")
      (simp_all add: ind_entry_def log_update_def Let_def)
  then show thesis
    using v(1) fr t(2,4,8) v(8,9) u(6) cv fu(3) bstep_geo(2) [OF u(4)] lstep_trans [OF sv t(3)]
    by (intro that [of k t]) auto
qed

lemma ind_entry_ok:
  fixes s :: "'z fs_st_scheme"
  assumes "fs_ok pd {} s" "file_wf s (inodes s ip)" "has_room ip 3 s" "ind s ip \<noteq> 0" "i < NINDIRECT" "free_blocks s \<noteq> {}"
  obtains a t where "ind_entry ip i (ind s ip) s = Ok a t" "keeps_file pd ip s t" "a \<noteq> 0" "faddr t ip (NDIRECT + i) = a"
    "card (free_blocks s) \<le> card (free_blocks t) + 1" "card (insert (unat a) (logset ip t)) \<le> card (logset ip s) + 1"
proof -
  have li: "log_inv pd {} s" using assms(1) by (simp add: fs_ok_def)
  have r: "room 3 s" using has_room_room [OF li assms(3)] .
  show thesis
  proof (cases "faddr s ip (NDIRECT + i) = 0")
    case False
    obtain t where t: "ind_entry ip i (ind s ip) s = Ok (faddr s ip (NDIRECT + i)) t" "bstep s t" "dhist t = dhist s"
      "bview t = bview s" "log_inv pd {} t" by (rule ind_entry_present [OF assms(1,2,4,5) False])
    note k = keeps_file_read [OF assms(1,2) t(2,3,4,5)]
    have "inodes t = inodes s" using lstep_fs(2) [OF lstep_bstep [OF t(2,3)]] .
    then show thesis using that [OF t(1) k(1) False] t(4) k(2,3) by (simp add: card_insert_if logset_def)
  next
    case True
    let ?n = "unat (ind s ip)" and ?m = "bmap_block s" and ?x = "inodes s ip"
    obtain k t where t: "ind_entry ip i (ind s ip) s = Ok (of_nat k) t" "k \<in> free_blocks s" "log_inv pd {} t" "lstep s t"
      "bview t = (bview s)(?m := set_bit k (bview s ?m), k := replicate BSIZE 0, ?n := put32 (4 * i) (of_nat k) (bview s ?n))"
      "set (homes t) = {?m, k, ?n} \<union> set (homes s)"
      by (rule ind_entry_absent [OF assms(1,2) r assms(4,5) True assms(6)])
    note k = free_alloc [OF assms(1) t(2)] and f = lstep_fs [OF t(4)]
    have x: "in_use s ?n" "idev ?x = 1" "length (iaddrs ?x) = NDIRECT + 1" using assms(2,4) by (auto simp: file_wf_def)
    note n = in_use_block [OF assms(1) x(1)]
    have nk: "?n \<noteq> k" using x(1) t(2) by (auto simp: in_use_def)
    have len: "length (bview s ?n) = BSIZE" using bview_length [of pd "{}" s] li n by (simp add: log_inv_def)
    have vm: "bview t ?m = set_bit k (bview s ?m)" "bview t k = replicate BSIZE 0" "bview t ?n = put32 (4 * i) (of_nat k) (bview s ?n)"
      unfolding t(5) using n nk k(2) by auto
    have fr: "free_blocks t = free_blocks s - {k}"
      using free_blocks_upd [OF f(1) vm(1)] k(1,4) by (auto simp: free_blocks_def bit_free_set)
    have ok: "fs_ok pd {} t" by (rule fs_ok_bitmap [OF assms(1) t(3,4)]) (use fr t(6) k(2,6) n assms(1) in \<open>auto simp: fs_ok_def\<close>)
    have iu: "\<forall>n. in_use s n \<longrightarrow> in_use t n" "in_use t k" using in_use_alloc [OF assms(1) t(2) fr t(4)] by auto
    have same: "\<forall>n. in_use s n \<longrightarrow> n \<noteq> unat (iaddrs ?x ! NDIRECT) \<longrightarrow> bview t n = bview s n"
      using t(2) unfolding t(5) by (auto simp: in_use_def)
    have a: "file_addr (bview t) ?x j = (if j = NDIRECT + i then of_nat k else file_addr (bview s) ?x j)" if "j < MAXFILE" for j
    proof (cases "j < NDIRECT \<or> j = NDIRECT + i")
      case True
      then show ?thesis using vm(3) assms(4,5) len by (auto simp: file_addr_def)
    next
      case False
      then have "4 * (j - NDIRECT) + 4 \<le> 4 * i \<or> 4 * i + 4 \<le> 4 * (j - NDIRECT)" "4 * (j - NDIRECT) + 4 \<le> BSIZE" using that by auto
      then show ?thesis using False vm(3) assms(4,5) len get32_put32_other [of "4 * i" "bview s ?n" "4 * (j - NDIRECT)" "of_nat k"]
        by (simp add: file_addr_def)
    qed
    have cs: "(\<forall>j < MAXFILE. file_addr (bview t) ?x j = (if j = NDIRECT + i then of_nat k else file_addr (bview s) ?x j)) \<and>
       file_addr (bview s) ?x (NDIRECT + i) = 0 \<and> NDIRECT + i < MAXFILE \<and> iaddrs ?x ! NDIRECT = iaddrs ?x ! NDIRECT \<or>
     (\<forall>i < MAXFILE. file_addr (bview t) ?x i = file_addr (bview s) ?x i) \<and> iaddrs ?x ! NDIRECT = 0 \<and> iaddrs ?x ! NDIRECT = of_nat k"
      using a True assms(5) by simp
    have k0: "0 < k" using k(2) by simp
    note g = give_block [OF assms(2) iu(1) t(2) iu(2) k(5) k0 x(2,3) vm(2) same cs]
    have "\<forall>n. n \<noteq> ?m \<longrightarrow> n \<notin> free_blocks s \<longrightarrow> n \<noteq> ?n \<longrightarrow> bview t n = bview s n" using t(2) unfolding t(5) by auto
    then have "keeps_file pd ip s t" unfolding keeps_file_def using ok fstep_lstep [OF t(4)] g fr f(2) by auto
    moreover have "(of_nat k :: uint) \<noteq> 0" using k(5) k0 by auto
    moreover have "faddr t ip (NDIRECT + i) = of_nat k" using a [of "NDIRECT + i"] f(2) assms(5) by simp
    moreover have "card (free_blocks s) \<le> card (free_blocks t) + 1"
    proof -
      have "finite (free_blocks s)" by (simp add: free_blocks_def)
      then show ?thesis using t(2) fr by (simp add: card_Diff_singleton)
    qed
    moreover have "card (insert k (logset ip t)) \<le> card (logset ip s) + 1"
    proof -
      have "insert k (logset ip t) = insert k (logset ip s)" using t(6) f by (auto simp: logset_def)
      then show ?thesis by (simp add: card_insert_if logset_def)
    qed
    ultimately show thesis using that [OF t(1)] k(5) by simp
  qed
qed

lemma bmap_unfold:
  assumes "bn < MAXFILE"
  shows "bn < NDIRECT \<Longrightarrow> bmap ip (of_nat bn) s =
     (let addr = iaddrs (inodes s ip) ! bn
      in if addr = 0
         then rbind (balloc (idev (inodes s ip)) s) (\<lambda>addr s. Ok addr (iupd ip (\<lambda>x. x\<lparr>iaddrs := (iaddrs x)[bn := addr]\<rparr>) s))
         else Ok addr s)"
    "NDIRECT \<le> bn \<Longrightarrow> bmap ip (of_nat bn) s =
     rbind (let addr = iaddrs (inodes s ip) ! NDIRECT
            in if addr = 0
               then rbind (balloc (idev (inodes s ip)) s) (\<lambda>addr s. Ok addr (iupd ip (\<lambda>x. x\<lparr>iaddrs := (iaddrs x)[NDIRECT := addr]\<rparr>) s))
               else Ok addr s) (ind_entry ip (bn - NDIRECT))"
proof -
  have u: "unat (of_nat bn :: uint) = bn" using assms by (simp add: unat_of_nat32)
  show "bmap ip (of_nat bn) s =
     (let addr = iaddrs (inodes s ip) ! bn
      in if addr = 0
         then rbind (balloc (idev (inodes s ip)) s) (\<lambda>addr s. Ok addr (iupd ip (\<lambda>x. x\<lparr>iaddrs := (iaddrs x)[bn := addr]\<rparr>) s))
         else Ok addr s)" if "bn < NDIRECT"
    unfolding bmap_def u using that u by (simp add: word_less_nat_alt)
  show "bmap ip (of_nat bn) s =
     rbind (let addr = iaddrs (inodes s ip) ! NDIRECT
            in if addr = 0
               then rbind (balloc (idev (inodes s ip)) s) (\<lambda>addr s. Ok addr (iupd ip (\<lambda>x. x\<lparr>iaddrs := (iaddrs x)[NDIRECT := addr]\<rparr>) s))
               else Ok addr s) (ind_entry ip (bn - NDIRECT))" if "NDIRECT \<le> bn"
  proof -
    have d: "unat (of_nat bn - of_nat NDIRECT :: uint) = bn - NDIRECT" using that u by (simp add: unat_sub word_le_nat_alt)
    then have "\<not> (of_nat bn :: uint) < of_nat NDIRECT" "of_nat bn - of_nat NDIRECT < (of_nat NINDIRECT :: uint)"
      using that u assms by (simp_all add: word_less_nat_alt)
    then show ?thesis unfolding bmap_def Let_def d ind_entry_def [abs_def] by simp
  qed
qed

text \<open>\<open>bmap\<close>: with two free blocks and room in the log it gives a block; and one that is there is only looked up.\<close>

lemma bmap_ok:
  fixes s :: "'z fs_st_scheme"
  assumes "fs_ok pd {} s" "file_wf s (inodes s ip)" "has_room ip 3 s" "bn < MAXFILE" "2 \<le> card (free_blocks s)"
  obtains a t where "bmap ip (of_nat bn) s = Ok a t" "keeps_file pd ip s t" "a \<noteq> 0" "faddr t ip bn = a"
    "card (free_blocks s) \<le> card (free_blocks t) + 2" "card (insert (unat a) (logset ip t)) \<le> card (logset ip s) + 1"
proof (cases "bn < NDIRECT")
  case True
  show thesis
  proof (cases "iaddrs (inodes s ip) ! bn = 0")
    case False
    have "card (insert n (logset ip s)) \<le> card (logset ip s) + 1" for n by (simp add: card_insert_if logset_def)
    then show thesis using False True bmap_unfold(1) [OF assms(4) True, of ip s] keeps_file_refl [OF assms(1,2)]
      by (intro that [of "iaddrs (inodes s ip) ! bn" s]) (simp_all add: file_addr_def)
  next
    case z: True
    have r: "has_room ip 2 s" using assms(3) by (simp add: has_room_def)
    have ne: "free_blocks s \<noteq> {}" using assms(5) by auto
    obtain a t where t: "rbind (balloc (idev (inodes s ip)) s) (\<lambda>addr s. Ok addr (iupd ip (\<lambda>x. x\<lparr>iaddrs := (iaddrs x)[bn := addr]\<rparr>) s)) = Ok a t"
      "keeps_file pd ip s t" "a \<noteq> 0" "iaddrs (inodes t ip) ! bn = a" "card (free_blocks s) \<le> card (free_blocks t) + 1"
      "card (insert (unat a) (logset ip t)) \<le> card (logset ip s) + (if bn = NDIRECT then 0 else 1)"
      by (rule alloc_slot [OF assms(1,2) r _ z ne]) (use True in simp)
    show thesis using t True z bmap_unfold(1) [OF assms(4) True, of ip s] by (intro that [of a t]) (simp_all add: file_addr_def)
  qed
next
  case False
  then have le: "NDIRECT \<le> bn" "bn - NDIRECT < NINDIRECT" "NDIRECT + (bn - NDIRECT) = bn" using assms(4) by auto
  let ?e = "let addr = iaddrs (inodes s ip) ! NDIRECT
            in if addr = 0
               then rbind (balloc (idev (inodes s ip)) s) (\<lambda>addr s. Ok addr (iupd ip (\<lambda>x. x\<lparr>iaddrs := (iaddrs x)[NDIRECT := addr]\<rparr>) s))
               else Ok addr s"
  obtain u where u: "?e = Ok (ind u ip) u" "keeps_file pd ip s u" "ind u ip \<noteq> 0" "card (free_blocks s) \<le> card (free_blocks u) + 1"
    "card (logset ip u) \<le> card (logset ip s)"
  proof (cases "ind s ip = 0")
    case nz: False
    show thesis using nz keeps_file_refl [OF assms(1,2)] by (intro that [of s]) simp_all
  next
    case z: True
    have r: "has_room ip 2 s" using assms(3) by (simp add: has_room_def)
    have ne: "free_blocks s \<noteq> {}" using assms(5) by auto
    obtain a t where t: "rbind (balloc (idev (inodes s ip)) s) (\<lambda>addr s. Ok addr (iupd ip (\<lambda>x. x\<lparr>iaddrs := (iaddrs x)[NDIRECT := addr]\<rparr>) s)) = Ok a t"
      "keeps_file pd ip s t" "a \<noteq> 0" "iaddrs (inodes t ip) ! NDIRECT = a" "card (free_blocks s) \<le> card (free_blocks t) + 1"
      "card (insert (unat a) (logset ip t)) \<le> card (logset ip s) + (if NDIRECT = NDIRECT then 0 else 1)"
      by (rule alloc_slot [OF assms(1,2) r order_refl z ne])
    have "unat a \<in> logset ip t" using t(4) by (simp add: logset_def)
    then show thesis using t z by (intro that [of t]) (simp_all add: insert_absorb)
  qed
  have ku: "fs_ok pd {} u" "file_wf u (inodes u ip)" using u(2) by (auto simp: keeps_file_def)
  have "has_room ip 3 u"
    using has_room_le [OF assms(3), of u 3] u(2,5) fstep_fields [of ip s u] by (simp add: keeps_file_def)
  moreover have "free_blocks u \<noteq> {}" using assms(5) u(4) by auto
  ultimately obtain a t where t: "ind_entry ip (bn - NDIRECT) (ind u ip) u = Ok a t" "keeps_file pd ip u t" "a \<noteq> 0"
    "faddr t ip (NDIRECT + (bn - NDIRECT)) = a" "card (free_blocks u) \<le> card (free_blocks t) + 1"
    "card (insert (unat a) (logset ip t)) \<le> card (logset ip u) + 1"
    by (rule ind_entry_ok [OF ku _ u(3) le(2)])
  show thesis
    using t u(4,5) le(3) keeps_file_trans [OF u(2) t(2)] bmap_unfold(2) [OF assms(4) le(1), of ip s] u(1)
    by (intro that [of a t]) simp_all
qed

lemma bmap_mapped:
  fixes s :: "'z fs_st_scheme"
  assumes "fs_ok pd {} s" "file_wf s (inodes s ip)" "bn < MAXFILE" "faddr s ip bn \<noteq> 0"
  obtains t where "bmap ip (of_nat bn) s = Ok (faddr s ip bn) t" "bstep s t" "dhist t = dhist s" "bview t = bview s" "log_inv pd {} t"
proof (cases "bn < NDIRECT")
  case True
  have "log_inv pd {} s" using assms(1) by (simp add: fs_ok_def)
  then show thesis using True assms(4) bmap_unfold(1) [OF assms(3) True, of ip s]
    by (intro that [of s]) (simp_all add: file_addr_def)
next
  case False
  then have le: "NDIRECT \<le> bn" "bn - NDIRECT < NINDIRECT" "NDIRECT + (bn - NDIRECT) = bn" using assms(3) by auto
  have i: "ind s ip \<noteq> 0" "faddr s ip (NDIRECT + (bn - NDIRECT)) \<noteq> 0" using assms(4) False by (auto simp: file_addr_def split: if_splits)
  obtain t where t: "ind_entry ip (bn - NDIRECT) (ind s ip) s = Ok (faddr s ip (NDIRECT + (bn - NDIRECT))) t" "bstep s t"
    "dhist t = dhist s" "bview t = bview s" "log_inv pd {} t"
    by (rule ind_entry_present [OF assms(1,2) i(1) le(2) i(2)])
  then show thesis using i(1) le(3) bmap_unfold(2) [OF assms(3) le(1), of ip s] by (intro that [of t]) simp_all
qed

end
