(* ===== verification/FileIO.thy ===== *)
theory FileIO
  imports FileData
begin

text \<open>
  \<open>readi\<close> and \<open>writei\<close> against the sequence of the bytes of a file.
\<close>

section \<open>Reading\<close>

lemma fs_ok_fields: "fs_ok pd H s \<Longrightarrow> log_inv pd H s" "fs_ok pd H s \<Longrightarrow> lh_n s < LOGSIZE"
  by (simp_all add: fs_ok_def log_inv_def log_geo_def)

lemma block_split: "j < BSIZE - i mod BSIZE \<Longrightarrow> (i + j) div BSIZE = i div BSIZE \<and> (i + j) mod BSIZE = i mod BSIZE + j" for i j :: nat
proof -
  assume "j < BSIZE - i mod BSIZE"
  then have "i mod BSIZE + j < BSIZE" by simp
  moreover have "i + j = i div BSIZE * BSIZE + (i mod BSIZE + j)" by (metis add.assoc div_mult_mod_eq)
  ultimately show ?thesis by (metis add.commute div_mult_self3 div_less add.right_neutral mod_mult_self3 mod_less zero_neq_numeral)
qed

lemma block_end: "i mod BSIZE + n \<le> BSIZE \<Longrightarrow> i + n \<le> (i div BSIZE + 1) * BSIZE" for i n :: nat
proof -
  assume h: "i mod BSIZE + n \<le> BSIZE"
  define q r where "q = i div BSIZE" and "r = i mod BSIZE"
  have "i = BSIZE * q + r" by (simp add: q_def r_def)
  then show ?thesis using h unfolding q_def [symmetric] r_def [symmetric] by simp
qed

lemma map_byte_block:
  assumes "file_addr V x (i div BSIZE) = a" "a \<noteq> 0" "length (V (unat a)) = BSIZE" "m \<le> BSIZE - i mod BSIZE"
  shows "map (file_byte V x) [i..<i + m] = take m (drop (i mod BSIZE) (V (unat a)))"
proof (rule nth_equalityI)
  show "length (map (file_byte V x) [i..<i + m]) = length (take m (drop (i mod BSIZE) (V (unat a))))" using assms(3,4) by simp
  fix j assume "j < length (map (file_byte V x) [i..<i + m])"
  then have j: "j < m" by simp
  then have "(i + j) div BSIZE = i div BSIZE" "(i + j) mod BSIZE = i mod BSIZE + j" using block_split [of j i] assms(4) by auto
  then show "map (file_byte V x) [i..<i + m] ! j = take m (drop (i mod BSIZE) (V (unat a))) ! j"
    using j assms by (simp add: file_byte_def)
qed

lemma file_blocks_len:
  fixes s :: "'z fs_st_scheme"
  assumes "fs_ok pd {} s" "file_wf s (inodes s ip)" "i < MAXFILE" "faddr s ip i \<noteq> 0"
  shows "length (bview s (unat (faddr s ip i))) = BSIZE" "unat (faddr s ip i) < FSSIZE" "unat (faddr s ip i) \<notin> log_area s" "idev (inodes s ip) = 1"
    "in_use s (unat (faddr s ip i))"
proof -
  show "idev (inodes s ip) = 1" using assms(2) by (simp add: file_wf_def)
  show u: "in_use s (unat (faddr s ip i))" using assms(2-4) by (auto simp: file_wf_def)
  show "unat (faddr s ip i) < FSSIZE" "unat (faddr s ip i) \<notin> log_area s" using in_use_block [OF assms(1) u] by auto
  then show "length (bview s (unat (faddr s ip i))) = BSIZE" using bview_length [of pd "{}" s] assms(1) by (simp add: fs_ok_def log_inv_def)
qed

lemma readi_loop_ok:
  fixes s :: "'z fs_st_scheme"
  assumes "fs_ok pd {} s" "file_wf s (inodes s ip)" "off + n \<le> MAXFILE * BSIZE" "\<forall>j. off \<le> j \<longrightarrow> j < off + n \<longrightarrow> faddr s ip (j div BSIZE) \<noteq> 0"
  shows "\<exists>t. readi_loop ip off n s = Ok (map (fbyte s ip) [off..<off + n]) t \<and> bstep s t \<and> dhist t = dhist s \<and> bview t = bview s \<and> log_inv pd {} t"
  using assms
proof (induction n arbitrary: off s rule: less_induct)
  case (less n)
  show ?case
  proof (cases "n = 0")
    case True
    then show ?thesis using fs_ok_fields [OF less.prems(1)] by (simp add: readi_loop.simps)
  next
    case False
    let ?bn = "off div BSIZE" and ?m = "min n (BSIZE - off mod BSIZE)"
    have bn: "?bn < MAXFILE" "faddr s ip ?bn \<noteq> 0" using less.prems(3,4) False by auto
    note b = file_blocks_len [OF less.prems(1,2) bn]
    obtain u where u: "bmap ip (of_nat ?bn) s = Ok (faddr s ip ?bn) u" "bstep s u" "dhist u = dhist s" "bview u = bview s" "log_inv pd {} u"
      by (rule bmap_mapped [OF less.prems(1,2) bn])
    have iu: "inodes u = inodes s" using lstep_fs(2) [OF lstep_bstep [OF u(2,3)]] .
    have lu: "lh_n u + card {} < LOGSIZE" using u(5) by (simp add: log_inv_def log_geo_def)
    obtain c v where v: "bread 1 (faddr s ip ?bn) u = Ok c v" "c \<notin> {}" "log_inv pd (insert c {}) v" "bstep u v" "dhist v = dhist u"
      "bview v = bview u" "blockno (bufs v c) = faddr s ip ?bn" "data (bufs v c) = bview u (unat (faddr s ip ?bn))"
      "keeps_held {} (bufs u) (bufs v)" "fresh c v"
      by (rule txn_read [OF u(5) lu b(2)]) simp
    obtain w where w: "brelse c v = Ok () w" "log_inv pd {} w" "bstep v w" "dhist w = dhist v" "bview w = bview v" "keeps_held {} (bufs v) (bufs w)"
      by (rule txn_release [OF v(3,2,10)])
    have sw: "bstep s w" "dhist w = dhist s" "bview w = bview s"
      using bstep_trans [OF u(2) bstep_trans [OF v(4) w(3)]] u v w by simp_all
    note k = keeps_file_read [OF less.prems(1,2) sw w(2)]
    have iw: "inodes w = inodes s" using lstep_fs(2) [OF lstep_bstep [OF sw(1,2)]] .
    have m: "?m \<le> n" "0 < ?m" "?m \<le> BSIZE - off mod BSIZE" using False by auto
    have kw: "fs_ok pd {} w" "file_wf w (inodes w ip)" using k(1) by (auto simp: keeps_file_def)
    have rest: "off + ?m + (n - ?m) \<le> MAXFILE * BSIZE" "\<forall>j. off + ?m \<le> j \<longrightarrow> j < off + ?m + (n - ?m) \<longrightarrow> faddr w ip (j div BSIZE) \<noteq> 0"
      using less.prems(3,4) m(1) iw sw(3) by auto
    obtain t where t: "readi_loop ip (off + ?m) (n - ?m) w = Ok (map (fbyte w ip) [off + ?m..<off + ?m + (n - ?m)]) t"
      "bstep w t" "dhist t = dhist w" "bview t = bview w" "log_inv pd {} t"
      using less.IH [OF _ kw rest] m False by (metis diff_less neq0_conv)
    have chunk: "take ?m (drop (off mod BSIZE) (data (bufs v c))) = map (fbyte s ip) [off..<off + ?m]"
      using map_byte_block [OF refl bn(2) b(1) m(3)] v(8) u(4) by simp
    have "[off..<off + ?m] @ [off + ?m..<off + ?m + (n - ?m)] = [off..<off + n]"
      using m(1) upt_add_eq_append [of off "off + ?m" "n - ?m"] by simp
    then have all: "map (fbyte s ip) [off..<off + ?m] @ map (fbyte w ip) [off + ?m..<off + ?m + (n - ?m)] = map (fbyte s ip) [off..<off + n]"
      using iw sw(3) by (metis map_append)
    have iv: "inodes v = inodes s" using lstep_fs(2) [OF lstep_bstep [OF v(4,5)]] iu by simp
    have "readi_loop ip off n s = Ok (map (fbyte s ip) [off..<off + n]) t"
      unfolding readi_loop.simps [of ip off n s]
      using False u(1) v(1) w(1) t(1) b(4) iu all by (simp add: chunk Let_def del: upt_add_eq_append)
    then show ?thesis using t sw bstep_trans [OF sw(1) t(2)] by auto
  qed
qed

section \<open>Writing\<close>

text \<open>All blocks of a file.\<close>

definition file_set :: "'z fs_st_scheme \<Rightarrow> nat \<Rightarrow> nat set" where
  "file_set s ip = insert (unat (ind s ip)) ((\<lambda>i. unat (faddr s ip i)) ` {..<MAXFILE})"

text \<open>
  The effect of writing to a file: \<open>g\<close> gives the new bytes, other bytes and all other blocks
  that were not free are as before.
\<close>

definition wrote :: "cint \<Rightarrow> nat \<Rightarrow> (nat \<Rightarrow> uchar option) \<Rightarrow> 'z fs_st_scheme \<Rightarrow> 'z fs_st_scheme \<Rightarrow> bool" where
  "wrote pd ip g s t \<longleftrightarrow> fs_ok pd {} t \<and> fstep ip s t \<and> file_wf t (inodes t ip) \<and>
     (\<forall>i < MAXFILE. faddr t ip i = faddr s ip i \<or> faddr s ip i = 0 \<and> unat (faddr t ip i) \<in> free_blocks s) \<and>
     (\<forall>i. i div BSIZE < MAXFILE \<longrightarrow> fbyte t ip i = (case g i of Some b \<Rightarrow> b | None \<Rightarrow> fbyte s ip i)) \<and>
     (\<forall>i b. g i = Some b \<longrightarrow> faddr t ip (i div BSIZE) \<noteq> 0) \<and> free_blocks t \<subseteq> free_blocks s \<and>
     (\<forall>n. n \<noteq> bmap_block s \<longrightarrow> n \<notin> free_blocks s \<longrightarrow> n \<notin> file_set s ip \<longrightarrow> bview t n = bview s n) \<and>
     (ind t ip = ind s ip \<or> ind s ip = 0 \<and> unat (ind t ip) \<in> free_blocks s)"

lemma wrote_set: "wrote pd ip g s t \<Longrightarrow> file_set t ip \<subseteq> file_set s ip \<union> free_blocks s"
proof -
  assume h: "wrote pd ip g s t"
  have "unat (faddr t ip i) \<in> file_set s ip \<union> free_blocks s" if "i < MAXFILE" for i
    using h that by (cases "faddr t ip i = faddr s ip i") (auto simp: wrote_def file_set_def)
  moreover have "unat (ind t ip) \<in> file_set s ip \<union> free_blocks s" using h by (auto simp: wrote_def file_set_def)
  ultimately show ?thesis by (auto simp: file_set_def)
qed

lemma wrote_trans:
  fixes s :: "'z fs_st_scheme"
  assumes "wrote pd ip g s t" "wrote pd ip h t u" "\<forall>i b. g i = Some b \<longrightarrow> i div BSIZE < MAXFILE"
  shows "wrote pd ip (\<lambda>i. case h i of Some b \<Rightarrow> Some b | None \<Rightarrow> g i) s u"
proof -
  have f: "free_blocks t \<subseteq> free_blocks s" "free_blocks u \<subseteq> free_blocks t" "bmap_block t = bmap_block s"
    using assms(1,2) fstep_fields(3) by (auto simp: wrote_def)
  have a: "faddr u ip i = faddr s ip i \<or> faddr s ip i = 0 \<and> unat (faddr u ip i) \<in> free_blocks s" if "i < MAXFILE" for i
  proof -
    have "faddr t ip i = faddr s ip i \<or> faddr s ip i = 0 \<and> unat (faddr t ip i) \<in> free_blocks s"
      "faddr u ip i = faddr t ip i \<or> faddr t ip i = 0 \<and> unat (faddr u ip i) \<in> free_blocks t"
      using assms(1,2) that by (auto simp: wrote_def)
    then show ?thesis using f(1) by auto
  qed
  have n: "faddr u ip i \<noteq> 0" if "i < MAXFILE" "faddr t ip i \<noteq> 0" for i using assms(2) that by (auto simp: wrote_def)
  have o: "bview u n = bview s n" if "n \<noteq> bmap_block s" "n \<notin> free_blocks s" "n \<notin> file_set s ip" for n
  proof -
    have "n \<notin> file_set t ip" using wrote_set [OF assms(1)] that by blast
    then have "bview u n = bview t n" using assms(2) that f by (auto simp: wrote_def)
    also have "\<dots> = bview s n" using assms(1) that by (auto simp: wrote_def)
    finally show ?thesis .
  qed
  have i: "ind u ip = ind s ip \<or> ind s ip = 0 \<and> unat (ind u ip) \<in> free_blocks s" using assms(1,2) f(1) by (auto simp: wrote_def)
  have b: "fbyte u ip i = (case (case h i of Some b \<Rightarrow> Some b | None \<Rightarrow> g i) of Some b \<Rightarrow> b | None \<Rightarrow> fbyte s ip i)" if "i div BSIZE < MAXFILE" for i
    using assms(1,2) that by (cases "h i") (simp_all add: wrote_def)
  have z: "faddr u ip (i div BSIZE) \<noteq> 0" if "(case h i of Some b \<Rightarrow> Some b | None \<Rightarrow> g i) = Some b" for i b
  proof (cases "h i")
    case None
    then show ?thesis using that assms(1,3) n [of "i div BSIZE"] by (auto simp: wrote_def)
  qed (use assms(2) in \<open>auto simp: wrote_def\<close>)
  show ?thesis
    unfolding wrote_def using assms(1,2) fstep_trans [of ip s t u] f a b o i z by (auto simp: wrote_def)
qed

text \<open>The bytes \<open>bs\<close> from offset \<open>off\<close> on.\<close>

definition span :: "nat \<Rightarrow> uchar list \<Rightarrow> nat \<Rightarrow> uchar option" where
  "span off bs i = (if off \<le> i \<and> i < off + length bs then Some (bs ! (i - off)) else None)"

lemma put_block:
  fixes s :: "'z fs_st_scheme"
  assumes "fs_ok pd {} s" "file_wf s (inodes s ip)" "room 1 s" "off div BSIZE < MAXFILE" "faddr s ip (off div BSIZE) \<noteq> 0"
    "off mod BSIZE + length bs \<le> BSIZE"
  obtains t where "rbind (bread 1 (faddr s ip (off div BSIZE)) s) (\<lambda>bp s. log_update bp (put_bytes (off mod BSIZE) bs) s) = Ok () t"
    "wrote pd ip (span off bs) s t" "free_blocks t = free_blocks s" "logset ip t = insert (unat (faddr s ip (off div BSIZE))) (logset ip s)"
proof -
  let ?bn = "off div BSIZE" and ?o = "off mod BSIZE"
  let ?a = "faddr s ip ?bn" and ?f = "put_bytes (off mod BSIZE) bs" and ?x = "inodes s ip"
  note b = file_blocks_len [OF assms(1,2,4,5)]
  have r: "room (card {} + 1) s" using assms(3) by simp
  obtain t where t: "rbind (bread 1 ?a s) (\<lambda>bp s. log_update bp ?f s) = Ok () t" "log_inv pd {} t" "lstep s t"
    "bview t = (bview s)(unat ?a := ?f (bview s (unat ?a)))" "keeps_held {} (bufs s) (bufs t)" "lh_n t \<le> lh_n s + 1"
    "lh_n s \<le> lh_n t" "set (homes t) = insert (unat ?a) (set (homes s))"
    by (rule txn_modify [where f = ?f, OF fs_ok_fields(1) [OF assms(1)] r b(2,3)]) (use b(1) assms(6) in simp_all)
  note f = lstep_fs [OF t(3)]
  have nb: "unat ?a \<noteq> bmap_block s" "0 < unat ?a" using b(5) in_use_block [OF assms(1) b(5)] by auto
  then have fr: "free_blocks t = free_blocks s" using f t(4) by (simp add: free_blocks_def)
  have ok: "fs_ok pd {} t" by (rule fs_ok_bitmap [OF assms(1) t(2,3)]) (use fr t(8) nb assms(1) in \<open>auto simp: fs_ok_def\<close>)
  have i: "?a \<noteq> ind s ip" using assms(2,4,5) by (auto simp: file_wf_def)
  then have ad: "faddr t ip j = faddr s ip j" for j using f(2) t(4) by (simp add: file_addr_def word_unat_eq_iff)
  then have wf: "file_wf t (inodes t ip)" using assms(2) f fr by (simp add: file_wf_def in_use_def)
  have bt: "fbyte t ip j = (case span off bs j of Some b \<Rightarrow> b | None \<Rightarrow> fbyte s ip j)" if j: "j div BSIZE < MAXFILE" for j
  proof (cases "j div BSIZE = ?bn")
    case True
    have m: "j mod BSIZE < BSIZE" by simp
    have e: "off \<le> j \<longleftrightarrow> ?o \<le> j mod BSIZE" "j < off + length bs \<longleftrightarrow> j mod BSIZE < ?o + length bs" "j - off = j mod BSIZE - ?o"
      using True div_mult_mod_eq [of j BSIZE] div_mult_mod_eq [of off BSIZE] by arith+
    have "fbyte t ip j = ?f (bview s (unat ?a)) ! (j mod BSIZE)"
      using True ad assms(5) t(4) unfolding file_byte_def by (simp add: Let_def)
    also have "\<dots> = (if ?o \<le> j mod BSIZE \<and> j mod BSIZE < ?o + length bs then bs ! (j mod BSIZE - ?o) else bview s (unat ?a) ! (j mod BSIZE))"
      using b(1) assms(6) m by (intro nth_put_bytes) simp_all
    finally show ?thesis using True assms(5) e by (simp add: span_def file_byte_def Let_def)
  next
    case False
    have "off + length bs \<le> (?bn + 1) * BSIZE" using block_end [OF assms(6)] .
    then have "span off bs j = None"
      using False less_mult_imp_div_less [of j "?bn + 1" BSIZE] div_le_mono [of off j BSIZE] by (auto simp: span_def not_less)
    moreover have "fbyte t ip j = fbyte s ip j"
    proof (cases "faddr s ip (j div BSIZE) = 0")
      case nz: False
      have "faddr s ip (j div BSIZE) \<noteq> ?a" using assms(2,4,5) j False nz by (auto simp: file_wf_def)
      then show ?thesis unfolding file_byte_def ad using t(4) by (simp add: Let_def word_unat_eq_iff)
    qed (unfold file_byte_def ad, simp)
    ultimately show ?thesis by simp
  qed
  have sp: "faddr t ip (j div BSIZE) \<noteq> 0" if "span off bs j = Some y" for j y
  proof -
    have "off \<le> j" "j < off + length bs" using that by (auto simp: span_def split: if_splits)
    then have "j div BSIZE = ?bn" using block_split [of "j - off" off] assms(6) by simp
    then show ?thesis using ad assms(5) by simp
  qed
  have "unat ?a \<in> file_set s ip" using assms(4) by (auto simp: file_set_def)
  then have ot: "bview t n = bview s n" if "n \<notin> file_set s ip" for n using t(4) that by auto
  have "wrote pd ip (span off bs) s t"
    unfolding wrote_def using ok fstep_lstep [OF t(3)] wf ad bt sp fr ot f(2) by auto
  moreover have "logset ip t = insert (unat ?a) (logset ip s)" using t(8) f by (auto simp: logset_def)
  ultimately show thesis using t(1) fr by (intro that [of t])
qed

text \<open>The number of blocks that \<open>n\<close> bytes from \<open>off\<close> on touch.\<close>

definition blocks_of :: "nat \<Rightarrow> nat \<Rightarrow> nat" where
  "blocks_of off n = (if n = 0 then 0 else (off + n - 1) div BSIZE - off div BSIZE + 1)"

lemma blocks_of_step:
  assumes "0 < n" "m = min n (BSIZE - off mod BSIZE)"
  shows "blocks_of off n = blocks_of (off + m) (n - m) + 1"
proof (cases "n \<le> BSIZE - off mod BSIZE")
  case True
  then have "(off + (n - 1)) div BSIZE = off div BSIZE" using block_split [of "n - 1" off] assms(1) by simp
  then show ?thesis using True assms by (simp add: blocks_of_def)
next
  case False
  define q r where "q = off div BSIZE" and "r = off mod BSIZE"
  have o: "off = BSIZE * q + r" "r < BSIZE" by (simp_all add: q_def r_def)
  have m: "m = BSIZE - r" "m < n" using False assms(2) by (auto simp: r_def)
  have e: "off + m = BSIZE * (q + 1)" using o m by simp
  have "(off + m) div BSIZE = q + 1" unfolding e by simp
  moreover have "(off + m + (n - m) - 1) div BSIZE = (off + n - 1) div BSIZE" using m(2) by simp
  moreover have "q + 1 \<le> (off + n - 1) div BSIZE" using div_le_mono [of "off + m" "off + n - 1" BSIZE] calculation(1) m(2) by simp
  ultimately show ?thesis using m(2) assms(1) by (simp add: blocks_of_def q_def [symmetric])
qed

lemma keeps_wrote: "keeps_file pd ip s t \<Longrightarrow> wrote pd ip (\<lambda>_. None) s t"
  unfolding keeps_file_def wrote_def by (auto simp: file_set_def)

lemma span_append:
  "(\<lambda>i. case span (off + length as) bs i of Some b \<Rightarrow> Some b | None \<Rightarrow> span off as i) = span off (as @ bs)"
  by (auto simp: span_def fun_eq_iff nth_append)

lemma span_bound: "off + length bs \<le> MAXFILE * BSIZE \<Longrightarrow> \<forall>i b. span off bs i = Some b \<longrightarrow> i div BSIZE < MAXFILE"
  by (auto simp: span_def less_mult_imp_div_less split: if_splits)

lemma writei_loop_ok:
  fixes s :: "'z fs_st_scheme"
  assumes "fs_ok pd {} s" "file_wf s (inodes s ip)" "off + length src \<le> MAXFILE * BSIZE"
    "2 * blocks_of off (length src) \<le> card (free_blocks s)" "has_room ip (blocks_of off (length src) + 3) s"
  shows "\<exists>t. writei_loop ip off src s = Ok () t \<and> wrote pd ip (span off src) s t \<and>
     card (logset ip t) \<le> card (logset ip s) + blocks_of off (length src)"
  using assms
proof (induction "length src" arbitrary: off src s rule: less_induct)
  case less
  show ?case
  proof (cases "src = []")
    case True
    have "span off [] = (\<lambda>_. None)" by (simp add: span_def fun_eq_iff)
    then show ?thesis using True keeps_wrote [OF keeps_file_refl [OF less.prems(1,2)]] by (simp add: writei_loop.simps)
  next
    case False
    let ?bn = "off div BSIZE" and ?n = "length src"
    define m where "m = min ?n (BSIZE - off mod BSIZE)"
    have n: "0 < ?n" using False by simp
    have m: "m \<le> ?n" "0 < m" "off mod BSIZE + m \<le> BSIZE" using n by (auto simp: m_def min_def)
    note bk = blocks_of_step [OF n m_def]
    have bn: "?bn < MAXFILE" using less.prems(3) n by (intro less_mult_imp_div_less) linarith
    have fr: "2 \<le> card (free_blocks s)" using less.prems(4) bk by simp
    have r: "has_room ip 3 s" using less.prems(5) by (simp add: has_room_def)
    obtain a u where u: "bmap ip (of_nat ?bn) s = Ok a u" "keeps_file pd ip s u" "a \<noteq> 0" "faddr u ip ?bn = a"
      "card (free_blocks s) \<le> card (free_blocks u) + 2" "card (insert (unat a) (logset ip u)) \<le> card (logset ip s) + 1"
      by (rule bmap_ok [OF less.prems(1,2) r bn fr])
    have ku: "fs_ok pd {} u" "file_wf u (inodes u ip)" "fstep ip s u" using u(2) by (auto simp: keeps_file_def)
    note fu = fstep_fields [OF ku(3)]
    have lu: "card (logset ip u) \<le> card (insert (unat a) (logset ip u))" by (rule card_mono) (auto simp: logset_def)
    have ru: "room 1 u"
      using has_room_room [OF fs_ok_fields(1) [OF ku(1)] has_room_le [OF less.prems(5), of u 1]] u(6) lu fu(4,5) bk by simp
    have tk: "length (take m src) = m" using m by simp
    obtain v where v: "rbind (bread 1 (faddr u ip ?bn) u) (\<lambda>bp s. log_update bp (put_bytes (off mod BSIZE) (take m src)) s) = Ok () v"
      "wrote pd ip (span off (take m src)) u v" "free_blocks v = free_blocks u"
      "logset ip v = insert (unat (faddr u ip ?bn)) (logset ip u)"
      by (rule put_block [OF ku(1,2) ru bn, of "take m src"]) (use u(3,4) m tk in simp_all)
    have kv: "fs_ok pd {} v" "file_wf v (inodes v ip)" "fstep ip u v" using v(2) by (auto simp: wrote_def)
    note fv = fstep_fields [OF kv(3)]
    have rest: "off + m + length (drop m src) \<le> MAXFILE * BSIZE" using less.prems(3) m by simp
    have nb: "blocks_of off ?n = blocks_of (off + m) (length (drop m src)) + 1" using bk m by simp
    have cv: "card (logset ip v) \<le> card (logset ip s) + 1" using u(4,6) v(4) by simp
    have "has_room ip (blocks_of (off + m) (length (drop m src)) + 3) v"
      by (rule has_room_le [OF less.prems(5)]) (use cv nb fu(4,5) fv(4,5) in simp_all)
    moreover have "2 * blocks_of (off + m) (length (drop m src)) \<le> card (free_blocks v)" using less.prems(4) nb u(5) v(3) by simp
    moreover have "length (drop m src) < ?n" using m by simp
    ultimately obtain t where t: "writei_loop ip (off + m) (drop m src) v = Ok () t" "wrote pd ip (span (off + m) (drop m src)) v t"
      "card (logset ip t) \<le> card (logset ip v) + blocks_of (off + m) (length (drop m src))"
      using less.hyps [of "drop m src" v "off + m"] kv(1,2) rest by blast
    have "rbind (bmap ip (of_nat ?bn) s) (\<lambda>addr s. rbind (bread (idev (inodes s ip)) addr s) (\<lambda>bp s.
        let m = min (length src) (BSIZE - off mod BSIZE)
        in rbind (log_update bp (put_bytes (off mod BSIZE) (take m src)) s) (\<lambda>_ s. writei_loop ip (off + m) (drop m src) s))) =
      rbind (rbind (bread 1 a u) (\<lambda>bp s. log_update bp (put_bytes (off mod BSIZE) (take m src)) s)) (\<lambda>_ s. writei_loop ip (off + m) (drop m src) s)"
      using u(1) ku(2) by (simp add: rbind_assoc m_def [symmetric] file_wf_def)
    then have run: "writei_loop ip off src s = Ok () t"
      unfolding writei_loop.simps [of ip off src s] using False v(1) t(1) u(4) by simp
    have "wrote pd ip (span off (take m src)) s v" using wrote_trans [OF keeps_wrote [OF u(2)] v(2)] by (simp add: option.case_eq_if cong: if_cong)
    then have "wrote pd ip (span off (take m src @ drop m src)) s t"
      using wrote_trans [OF _ t(2), of "span off (take m src)" s] span_bound [of off "take m src"] less.prems(3) m tk
        span_append [of off "take m src" "drop m src"] by simp
    then show ?thesis using run t(3) cv nb by (intro exI [of _ t]) simp
  qed
qed

section \<open>readi and writei\<close>

lemma length_dinode_put: "length (d_addrs d) = NDIRECT + 1 \<Longrightarrow> i < IPB \<Longrightarrow> length b = BSIZE \<Longrightarrow> length (dinode_put i d b) = BSIZE"
proof -
  assume h: "length (d_addrs d) = NDIRECT + 1" "i < IPB" "length b = BSIZE"
  have "length (concat (map bytes32 as)) = 4 * length as" for as by (induction as) simp_all
  then have "length (dinode_bytes d) = 64" using h(1) by (simp add: dinode_bytes_def)
  then show ?thesis using h(2,3) by (simp add: dinode_put_def)
qed

text \<open>The block of the inode lies before the bitmap and outside the log.\<close>

definition inode_ok :: "'z fs_st_scheme \<Rightarrow> nat \<Rightarrow> bool" where
  "inode_ok s ip \<longleftrightarrow> (let n = unat (IBLOCK (inum (inodes s ip)) (sb s)) in 0 < n \<and> n < bmap_block s \<and> n \<notin> log_area s)"

lemma wf_cong:
  fixes s :: "'z fs_st_scheme"
  assumes "file_wf s x" "lstep s t" "free_blocks t = free_blocks s" "\<forall>n. in_use s n \<longrightarrow> bview t n = bview s n"
  shows "file_wf t x" "i div BSIZE < MAXFILE \<Longrightarrow> file_byte (bview t) x i = file_byte (bview s) x i" "file_addr (bview t) x j = file_addr (bview s) x j"
proof -
  have u: "in_use t = in_use s" using assms(3) lstep_fs [OF assms(2)] by (simp add: fun_eq_iff in_use_def)
  show a: "file_addr (bview t) x j = file_addr (bview s) x j" for j
    using assms(1,4) by (simp add: file_addr_def file_wf_def)
  show "file_wf t x" using assms(1) by (simp add: file_wf_def a u)
  show "file_byte (bview t) x i = file_byte (bview s) x i" if "i div BSIZE < MAXFILE"
    using assms(1,4) that by (simp add: file_byte_def a Let_def file_wf_def)
qed

lemma isize_simps [simp]: "file_addr V (x\<lparr>isize := k\<rparr>) i = file_addr V x i" "file_byte V (x\<lparr>isize := k\<rparr>) j = file_byte V x j"
    "file_wf s (x\<lparr>isize := k\<rparr>) = file_wf s x"
proof -
  show a: "file_addr V (x\<lparr>isize := k\<rparr>) i = file_addr V x i" for V i by (simp add: file_addr_def)
  show "file_byte V (x\<lparr>isize := k\<rparr>) j = file_byte V x j" by (simp add: file_byte_def a)
  show "file_wf s (x\<lparr>isize := k\<rparr>) = file_wf s x" unfolding file_wf_def a by simp
qed

lemma iupdate_ok:
  fixes s :: "'z fs_st_scheme"
  assumes "fs_ok pd {} s" "file_wf s (inodes s ip)" "inode_ok s ip" "room 1 s"
  obtains t where "iupdate ip s = Ok () t" "fs_ok pd {} t" "lstep s t" "free_blocks t = free_blocks s"
    "\<forall>n. n \<noteq> unat (IBLOCK (inum (inodes s ip)) (sb s)) \<longrightarrow> bview t n = bview s n"
proof -
  let ?x = "inodes s ip" and ?n = "IBLOCK (inum (inodes s ip)) (sb s)"
  let ?d = "\<lparr>d_type = itype ?x, d_major = imajor ?x, d_minor = iminor ?x, d_nlink = inlink ?x, d_size = isize ?x, d_addrs = iaddrs ?x\<rparr>"
  have x: "idev ?x = 1" "length (iaddrs ?x) = NDIRECT + 1" using assms(2) by (auto simp: file_wf_def)
  have n: "0 < unat ?n" "unat ?n < bmap_block s" "unat ?n \<notin> log_area s" "unat ?n < FSSIZE"
    using assms(1,3) by (auto simp: inode_ok_def Let_def fs_ok_def)
  have r: "lh_n s + card {} < LOGSIZE" using fs_ok_fields(2) [OF assms(1)] by simp
  obtain b u where u: "bread 1 ?n s = Ok b u" "b \<notin> {}" "log_inv pd (insert b {}) u" "bstep s u" "dhist u = dhist s"
    "bview u = bview s" "blockno (bufs u b) = ?n" "data (bufs u b) = bview s (unat ?n)" "keeps_held {} (bufs s) (bufs u)" "fresh b u"
    by (rule txn_read [OF fs_ok_fields(1) [OF assms(1)] r n(4)]) simp
  note su = lstep_bstep [OF u(4,5)]
  have sec: "sector_of (bufs u b) = unat ?n" using u(7) by (simp add: sector_of_def)
  have "length (bview s (unat ?n)) = BSIZE" using bview_length [of pd "{}" s] n(4) assms(1) by (simp add: fs_ok_def log_inv_def)
  then have len: "length (dinode_put (unat (inum ?x) mod IPB) ?d (data (bufs u b))) = BSIZE"
    using u(8) x(2) length_dinode_put [of ?d] by simp
  obtain t where t: "log_update b (dinode_put (unat (inum ?x) mod IPB) ?d) u = Ok () t" "log_inv pd {} t" "lstep u t"
    "bview t = (bview u)(sector_of (bufs u b) := dinode_put (unat (inum ?x) mod IPB) ?d (data (bufs u b)))" "keeps_held {} (bufs u) (bufs t)"
    "lh_n t \<le> lh_n u + 1" "lh_n u \<le> lh_n t" "set (homes t) = insert (sector_of (bufs u b)) (set (homes u))"
    by (rule log_update_ok [where f = "dinode_put (unat (inum ?x) mod IPB) ?d", OF u(3,2) _ _ len])
      (use sec n(3) assms(4) bstep_geo(3) [OF u(4)] room_bstep [OF u(4)] in simp_all)
  have st: "lstep s t" using lstep_trans [OF su t(3)] .
  have o: "bview t n = bview s n" if "n \<noteq> unat ?n" for n using t(4) sec u(6) that by simp
  have fr: "free_blocks t = free_blocks s" using o n(2) lstep_fs [OF st] by (simp add: free_blocks_def)
  have "fs_ok pd {} t"
    by (rule fs_ok_bitmap [OF assms(1) t(2) st]) (use fr t(8) sec n(1) bstep_geo(2) [OF u(4)] assms(1) in \<open>auto simp: fs_ok_def\<close>)
  moreover have "iupdate ip s = Ok () t" using u(1) t(1) x(1) lstep_fs(2) [OF su] by (simp add: iupdate_def Let_def)
  ultimately show thesis using st fr o by (intro that [of t]) simp_all
qed

lemma readi_ok:
  fixes s :: "'z fs_st_scheme"
  assumes "fs_ok pd {} s" "file_wf s (inodes s ip)" "itype (inodes s ip) \<noteq> T_DEV" "unat (isize (inodes s ip)) \<le> MAXFILE * BSIZE"
    "unat off \<le> unat (isize (inodes s ip))" "unat off + unat n < 2 ^ 32"
    "e = min (unat off + unat n) (unat (isize (inodes s ip)))"
    "\<forall>j. unat off \<le> j \<longrightarrow> j < e \<longrightarrow> faddr s ip (j div BSIZE) \<noteq> 0"
  obtains t where "readi ip off n s = Ok (Some (map (fbyte s ip) [unat off..<e])) t" "bstep s t" "dhist t = dhist s" "bview t = bview s" "log_inv pd {} t"
proof -
  let ?sz = "isize (inodes s ip)"
  have u: "unat (off + n) = unat off + unat n" using assms(6) by (simp add: unat_word_ariths)
  let ?n = "if off + n > ?sz then ?sz - off else n"
  have n: "unat ?n = e - unat off" using assms(5,7) u by (auto simp: word_less_nat_alt unat_sub word_le_nat_alt)
  have e: "unat off + unat ?n = e" using n assms(5,7) by simp
  have b: "unat off + unat ?n \<le> MAXFILE * BSIZE" unfolding e using assms(4,7) by simp
  obtain t where t: "readi_loop ip (unat off) (unat ?n) s = Ok (map (fbyte s ip) [unat off..<unat off + unat ?n]) t" "bstep s t"
    "dhist t = dhist s" "bview t = bview s" "log_inv pd {} t"
    using readi_loop_ok [OF assms(1,2) b, unfolded e] assms(8) e by metis
  have "\<not> off > ?sz" "\<not> off + n < off" using assms(5) u by (auto simp: word_less_nat_alt)
  then have "readi ip off n s = Ok (Some (map (fbyte s ip) [unat off..<e])) t"
    using t(1) assms(3) e unfolding readi_def Let_def by simp
  with t(2-5) show thesis by (intro that)
qed

text \<open>
  C4: \<open>readi\<close> returns the bytes of the file. On a well-formed file whose blocks are allocated up to
  its size, reading \<open>n\<close> bytes at an offset within the size gives exactly the bytes from the
  offset to the end of the range or of the file, direct and indirect blocks alike, and changes
  neither the content of any block nor the disk; an offset beyond the size gives -1.
\<close>

theorem readi_correct:
  fixes s :: "'z fs_st_scheme"
  assumes "fs_ok pd {} s" "file_wf s (inodes s ip)" "itype (inodes s ip) \<noteq> T_DEV" "unat (isize (inodes s ip)) \<le> MAXFILE * BSIZE"
    "\<forall>j < unat (isize (inodes s ip)). faddr s ip (j div BSIZE) \<noteq> 0" "unat off + unat n < 2 ^ 32"
  shows "if unat off \<le> unat (isize (inodes s ip))
    then \<exists>t. readi ip off n s = Ok (Some (map (fbyte s ip) [unat off..<min (unat off + unat n) (unat (isize (inodes s ip)))])) t \<and>
      bview t = bview s \<and> disk t = disk s \<and> fs_ok pd {} t
    else readi ip off n s = Ok None s"
proof (cases "unat off \<le> unat (isize (inodes s ip))")
  case True
  define e where "e = min (unat off + unat n) (unat (isize (inodes s ip)))"
  have m: "\<forall>j. unat off \<le> j \<longrightarrow> j < e \<longrightarrow> faddr s ip (j div BSIZE) \<noteq> 0" using assms(5) by (simp add: e_def)
  obtain t where t: "readi ip off n s = Ok (Some (map (fbyte s ip) [unat off..<e])) t" "bstep s t" "dhist t = dhist s" "bview t = bview s" "log_inv pd {} t"
    by (rule readi_ok [OF assms(1-4) True assms(6) e_def m])
  have "fs_ok pd {} t" using keeps_file_read(1) [OF assms(1,2) t(2-5)] by (simp add: keeps_file_def)
  then show ?thesis using True t disk_same [OF t(2,3)] unfolding e_def by auto
next
  case False
  then show ?thesis using assms(3) by (simp add: readi_def Let_def word_less_nat_alt)
qed

lemma writei_ok:
  fixes s :: "'z fs_st_scheme"
  assumes "fs_ok pd {} s" "file_wf s (inodes s ip)" "inode_ok s ip" "itype (inodes s ip) \<noteq> T_DEV" "unat off \<le> unat (isize (inodes s ip))"
    "unat off + length src \<le> MAXFILE * BSIZE" "2 * blocks_of (unat off) (length src) \<le> card (free_blocks s)"
    "has_room ip (blocks_of (unat off) (length src) + 3) s"
  obtains t al where "writei ip src off s = Ok (int (length src)) t" "fs_ok pd {} t" "file_wf t (inodes t ip)"
    "inodes t = (inodes s)(ip := (inodes s ip)\<lparr>iaddrs := al, isize := of_nat (max (unat (isize (inodes s ip))) (unat off + length src))\<rparr>)"
    "\<forall>i < MAXFILE * BSIZE. fbyte t ip i = (case span (unat off) src i of Some b \<Rightarrow> b | None \<Rightarrow> fbyte s ip i)"
    "\<forall>i b. span (unat off) src i = Some b \<longrightarrow> faddr t ip (i div BSIZE) \<noteq> 0"
    "\<forall>n. n \<noteq> bmap_block s \<longrightarrow> n \<notin> free_blocks s \<longrightarrow> n \<notin> file_set s ip \<longrightarrow> n \<noteq> unat (IBLOCK (inum (inodes s ip)) (sb s)) \<longrightarrow> bview t n = bview s n"
proof -
  let ?x = "inodes s ip" and ?n = "of_nat (length src) :: uint" and ?e = "unat off + length src"
  obtain u where u: "writei_loop ip (unat off) src s = Ok () u" "wrote pd ip (span (unat off) src) s u"
    "card (logset ip u) \<le> card (logset ip s) + blocks_of (unat off) (length src)"
    using writei_loop_ok [OF assms(1,2,6,7,8)] by blast
  have un: "unat ?n = length src" "unat (off + ?n) = ?e" using assms(6) by (simp_all add: unat_of_nat32 unat_word_ariths)
  have w: "fs_ok pd {} u" "fstep ip s u" "file_wf u (inodes u ip)" using u(2) by (auto simp: wrote_def)
  note f = fstep_fields [OF w(2)]
  obtain al where al: "inodes u = (inodes s)(ip := ?x\<lparr>iaddrs := al\<rparr>)" using f(6) by blast
  have iu: "inodes u ip = ?x\<lparr>iaddrs := al\<rparr>" using al by simp
  have g: "\<not> off > isize ?x" "\<not> off + ?n < off" "\<not> off + ?n > of_nat (MAXFILE * BSIZE)"
    using assms(5,6) un by (auto simp: word_less_nat_alt)
  let ?c = "?n > 0 \<and> off + ?n > isize (inodes u ip)"
  have run: "writei ip src off s = rbind (if ?c then iupdate ip (iupd ip (\<lambda>x. x\<lparr>isize := off + ?n\<rparr>) u) else Ok () u) (\<lambda>_ s. Ok (int (length src)) s)"
    using g assms(4) u(1) unfolding writei_def Let_def by simp
  have c: "?c \<longleftrightarrow> unat (isize ?x) < ?e" using un iu assms(5) by (auto simp: word_less_nat_alt)
  have wb: "\<forall>i < MAXFILE * BSIZE. fbyte u ip i = (case span (unat off) src i of Some b \<Rightarrow> b | None \<Rightarrow> fbyte s ip i)"
    using u(2) by (simp add: wrote_def less_mult_imp_div_less)
  show thesis
  proof (cases ?c)
    case False
    then have m: "max (unat (isize ?x)) ?e = unat (isize ?x)" using c by simp
    have "inodes u = (inodes s)(ip := ?x\<lparr>iaddrs := al, isize := of_nat (max (unat (isize ?x)) ?e)\<rparr>)" unfolding m al by simp
    then show thesis using False run w wb u(2) by (intro that [of u al]) (auto simp: wrote_def)
  next
    case True
    let ?v = "iupd ip (\<lambda>x. x\<lparr>isize := off + ?n\<rparr>) u"
    have v: "fs_ok pd {} ?v" "file_wf ?v (inodes ?v ip)" "inode_ok ?v ip"
      using w(1,3) assms(3) f(1-3) iu by (simp_all add: inode_ok_def)
    have "room 1 ?v"
      using has_room_room [OF fs_ok_fields(1) [OF w(1)] has_room_le [OF assms(8), of u 1]] u(3) f(4,5) by simp
    then obtain t where t: "iupdate ip ?v = Ok () t" "fs_ok pd {} t" "lstep ?v t" "free_blocks t = free_blocks ?v"
      "\<forall>n. n \<noteq> unat (IBLOCK (inum (inodes ?v ip)) (sb ?v)) \<longrightarrow> bview t n = bview ?v n"
      by (rule iupdate_ok [OF v])
    have it: "inodes t ip = ?x\<lparr>iaddrs := al, isize := off + ?n\<rparr>" "inodes t = (inodes s)(ip := ?x\<lparr>iaddrs := al, isize := off + ?n\<rparr>)"
      using lstep_fs(2) [OF t(3)] al by simp_all
    have vt: "inodes ?v ip = inodes t ip" using it(1) iu by simp
    have nu: "\<forall>n. in_use ?v n \<longrightarrow> bview t n = bview ?v n" using t(5) v(3) by (auto simp: inode_ok_def Let_def in_use_def)
    note wf = wf_cong [OF v(2) t(3,4) nu, unfolded vt]
    have same: "file_byte V (inodes t ip) i = file_byte V (inodes u ip) i" "file_addr V (inodes t ip) j = file_addr V (inodes u ip) j" for V i j
      using vt [symmetric] by simp_all
    have m: "off + ?n = of_nat (max (unat (isize ?x)) ?e)" using c True un(2) by (simp add: max_def word_unat_eq_iff)
    have ib: "unat (IBLOCK (inum (inodes ?v ip)) (sb ?v)) = unat (IBLOCK (inum ?x) (sb s))" using iu f(1) by simp
    show thesis
    proof (rule that)
      show "writei ip src off s = Ok (int (length src)) t" using run True t(1) by simp
      show "fs_ok pd {} t" by fact
      show "file_wf t (inodes t ip)" using wf(1) .
      show "inodes t = (inodes s)(ip := ?x\<lparr>iaddrs := al, isize := of_nat (max (unat (isize ?x)) ?e)\<rparr>)" using it(2) m by simp
      show "\<forall>i < MAXFILE * BSIZE. fbyte t ip i = (case span (unat off) src i of Some b \<Rightarrow> b | None \<Rightarrow> fbyte s ip i)"
        using wf(2) wb same(1) by (simp add: less_mult_imp_div_less)
      show "\<forall>i b. span (unat off) src i = Some b \<longrightarrow> faddr t ip (i div BSIZE) \<noteq> 0"
        using wf(3) u(2) same(2) by (simp add: wrote_def)
      show "\<forall>n. n \<noteq> bmap_block s \<longrightarrow> n \<notin> free_blocks s \<longrightarrow> n \<notin> file_set s ip \<longrightarrow> n \<noteq> unat (IBLOCK (inum ?x) (sb s)) \<longrightarrow> bview t n = bview s n"
        using t(5) ib u(2) by (simp add: wrote_def)
    qed
  qed
qed

text \<open>
  C3: \<open>writei\<close> replaces exactly the bytes it is given. On a well-formed file, at an offset within
  the size, with free blocks and room in the log, it returns the number of bytes, allocating
  blocks as needed; afterwards the bytes from the offset on are those written, every other byte of
  the file is as before, the size is that of the longer of old file and written range, the file is
  well-formed, and no block changes but those of the file, blocks that were free, the bitmap and
  the block of the inode.
\<close>

theorem writei_correct:
  fixes s :: "'z fs_st_scheme"
  assumes "fs_ok pd {} s" "file_wf s (inodes s ip)" "inode_ok s ip" "itype (inodes s ip) \<noteq> T_DEV" "unat off \<le> unat (isize (inodes s ip))"
    "unat off + length src \<le> MAXFILE * BSIZE" "2 * blocks_of (unat off) (length src) \<le> card (free_blocks s)"
    "has_room ip (blocks_of (unat off) (length src) + 3) s"
  shows "\<exists>t. writei ip src off s = Ok (int (length src)) t \<and> fs_ok pd {} t \<and> file_wf t (inodes t ip) \<and>
     unat (isize (inodes t ip)) = max (unat (isize (inodes s ip))) (unat off + length src) \<and>
     (\<forall>i < MAXFILE * BSIZE. fbyte t ip i = (if unat off \<le> i \<and> i < unat off + length src then src ! (i - unat off) else fbyte s ip i)) \<and>
     (\<forall>jp. jp \<noteq> ip \<longrightarrow> inodes t jp = inodes s jp) \<and>
     (\<forall>n. n \<noteq> bmap_block s \<longrightarrow> n \<notin> free_blocks s \<longrightarrow> n \<notin> file_set s ip \<longrightarrow>
        n \<noteq> unat (IBLOCK (inum (inodes s ip)) (sb s)) \<longrightarrow> bview t n = bview s n)"
proof -
  let ?m = "max (unat (isize (inodes s ip))) (unat off + length src)"
  obtain t al where t: "writei ip src off s = Ok (int (length src)) t" "fs_ok pd {} t" "file_wf t (inodes t ip)"
    "inodes t = (inodes s)(ip := (inodes s ip)\<lparr>iaddrs := al, isize := of_nat ?m\<rparr>)"
    "\<forall>i < MAXFILE * BSIZE. fbyte t ip i = (case span (unat off) src i of Some b \<Rightarrow> b | None \<Rightarrow> fbyte s ip i)"
    "\<forall>i b. span (unat off) src i = Some b \<longrightarrow> faddr t ip (i div BSIZE) \<noteq> 0"
    "\<forall>n. n \<noteq> bmap_block s \<longrightarrow> n \<notin> free_blocks s \<longrightarrow> n \<notin> file_set s ip \<longrightarrow> n \<noteq> unat (IBLOCK (inum (inodes s ip)) (sb s)) \<longrightarrow> bview t n = bview s n"
    by (rule writei_ok [OF assms])
  have b: "\<forall>i < MAXFILE * BSIZE. fbyte t ip i = (if unat off \<le> i \<and> i < unat off + length src then src ! (i - unat off) else fbyte s ip i)"
    using t(5) by (simp add: span_def)
  have "?m < 2 ^ 32" using assms(6) unsigned_less [of "isize (inodes s ip)"] by simp
  then have z: "unat (isize (inodes t ip)) = ?m" using t(4) by (simp add: unat_of_nat32)
  have o: "\<forall>jp. jp \<noteq> ip \<longrightarrow> inodes t jp = inodes s jp" using t(4) by simp
  show ?thesis by (rule exI [of _ t], intro conjI t(1,2,3,7) z b o)
qed

text \<open>C5: What \<open>writei\<close> has written \<open>readi\<close> reads back, also across block boundaries and into indirect blocks.\<close>

theorem writei_readi_roundtrip:
  fixes s :: "'z fs_st_scheme"
  assumes "fs_ok pd {} s" "file_wf s (inodes s ip)" "inode_ok s ip" "itype (inodes s ip) \<noteq> T_DEV" "unat off \<le> unat (isize (inodes s ip))"
    "unat (isize (inodes s ip)) \<le> MAXFILE * BSIZE" "unat off + length src \<le> MAXFILE * BSIZE"
    "2 * blocks_of (unat off) (length src) \<le> card (free_blocks s)" "has_room ip (blocks_of (unat off) (length src) + 3) s"
  shows "\<exists>t u. writei ip src off s = Ok (int (length src)) t \<and> readi ip off (of_nat (length src)) t = Ok (Some src) u \<and> bview u = bview t"
proof -
  let ?m = "max (unat (isize (inodes s ip))) (unat off + length src)" and ?n = "of_nat (length src) :: uint"
  obtain t al where t: "writei ip src off s = Ok (int (length src)) t" "fs_ok pd {} t" "file_wf t (inodes t ip)"
    "inodes t = (inodes s)(ip := (inodes s ip)\<lparr>iaddrs := al, isize := of_nat ?m\<rparr>)"
    "\<forall>i < MAXFILE * BSIZE. fbyte t ip i = (case span (unat off) src i of Some b \<Rightarrow> b | None \<Rightarrow> fbyte s ip i)"
    "\<forall>i b. span (unat off) src i = Some b \<longrightarrow> faddr t ip (i div BSIZE) \<noteq> 0"
    "\<forall>n. n \<noteq> bmap_block s \<longrightarrow> n \<notin> free_blocks s \<longrightarrow> n \<notin> file_set s ip \<longrightarrow> n \<noteq> unat (IBLOCK (inum (inodes s ip)) (sb s)) \<longrightarrow> bview t n = bview s n"
    by (rule writei_ok [OF assms(1-5,7-9)])
  have z: "unat (isize (inodes t ip)) = ?m" using t(4) assms(6,7) by (simp add: unat_of_nat32)
  have un: "unat ?n = length src" using assms(7) by (simp add: unat_of_nat32)
  have ty: "itype (inodes t ip) \<noteq> T_DEV" using t(4) assms(4) by simp
  have lim: "unat (isize (inodes t ip)) \<le> MAXFILE * BSIZE" "unat off \<le> unat (isize (inodes t ip))" "unat off + unat ?n < 2 ^ 32"
    using z un assms(5-7) by auto
  have e: "unat off + length src = min (unat off + unat ?n) (unat (isize (inodes t ip)))" using z un by simp
  have mp: "\<forall>j. unat off \<le> j \<longrightarrow> j < unat off + length src \<longrightarrow> faddr t ip (j div BSIZE) \<noteq> 0"
    using t(6) by (simp add: span_def)
  obtain u where u: "readi ip off ?n t = Ok (Some (map (fbyte t ip) [unat off..<unat off + length src])) u" "bstep t u" "dhist u = dhist t" "bview u = bview t" "log_inv pd {} u"
    by (rule readi_ok [OF t(2,3) ty lim e mp])
  have "map (fbyte t ip) [unat off..<unat off + length src] = src"
    using t(5) assms(7) by (intro nth_equalityI) (simp_all add: span_def)
  then show ?thesis using t(1) u(1,4) by auto
qed

section \<open>Witnesses\<close>

lemma ex_file: "file_wf ex_txn (inodes ex_txn 0)" "inode_ok ex_txn 0" "itype (inodes ex_txn 0) \<noteq> T_DEV" "isize (inodes ex_txn 0) = 1024"
    "\<forall>j < 1024. faddr ex_txn 0 (j div BSIZE) \<noteq> 0" "has_room 0 k ex_txn \<longleftrightarrow> k < 28" "card (free_blocks ex_txn) = 936"
proof -
  have a: "faddr ex_txn 0 i = (if i = 0 then 60 else if i = 1 then 61 else 0)" if "i < MAXFILE" for i
  proof -
    have "([60, 61] @ replicate 11 0) ! i = (if i = 0 then 60 else if i = 1 then 61 else 0 :: uint)" if "i < 12"
      using that by (auto simp: nth_append nth_Cons split: nat.splits)
    then show ?thesis by (auto simp: file_addr_def ex_txn_ok ex_inode_def)
  qed
  have u: "in_use ex_txn 60" "in_use ex_txn 61" by (simp_all add: in_use_def ex_txn_ok ex_sb_def)
  have l: "length (iaddrs (inodes ex_txn 0)) = NDIRECT + 1" "iaddrs (inodes ex_txn 0) ! NDIRECT = 0" "idev (inodes ex_txn 0) = 1"
    by (simp_all add: ex_txn_ok ex_inode_def)
  have "in_use ex_txn (unat (faddr ex_txn 0 i)) \<and> faddr ex_txn 0 i \<noteq> iaddrs (inodes ex_txn 0) ! NDIRECT \<and>
      (\<forall>j < MAXFILE. faddr ex_txn 0 j = faddr ex_txn 0 i \<longrightarrow> j = i)" if "i < MAXFILE" "faddr ex_txn 0 i \<noteq> 0" for i
    using that a u l(2) by (auto split: if_splits)
  then show "file_wf ex_txn (inodes ex_txn 0)" using l by (simp add: file_wf_def)
  show "inode_ok ex_txn 0" "itype (inodes ex_txn 0) \<noteq> T_DEV" "isize (inodes ex_txn 0) = 1024"
    by (simp_all add: inode_ok_def Let_def ex_txn_ok ex_inode_def IBLOCK_def ex_sb_def)
  have "j div BSIZE = 0 \<or> j div BSIZE = 1" if "j < 1024" for j using that by auto
  then show "\<forall>j < 1024. faddr ex_txn 0 (j div BSIZE) \<noteq> 0" using a by auto
  show "card (free_blocks ex_txn) = 936" by (simp add: ex_txn_ok)
  have "logset 0 ex_txn = {58, 0}" using l(2) by (simp add: logset_def ex_txn_ok homes_def) (simp add: ex_txn_def ex_fs_fields)
  then show "has_room 0 k ex_txn \<longleftrightarrow> k < 28" by (simp add: has_room_def ex_txn_def ex_fs_fields)
qed

theorem readi_correct_witness: "\<exists>t. readi 0 1000 100 ex_txn = Ok (Some (replicate 24 9)) t"
proof -
  have b: "fbyte ex_txn 0 i = 9" if "1000 \<le> i" "i < 1024" for i
  proof -
    have "i div BSIZE = 1" using that by auto
    then show ?thesis by (simp add: file_byte_def file_addr_def Let_def ex_txn_ok ex_inode_def)
  qed
  have "map (fbyte ex_txn 0) [1000..<1024] = replicate 24 9" by (rule nth_equalityI) (simp_all add: b del: upt_rec_numeral)
  then show ?thesis using readi_correct [OF ex_txn_ok(4) ex_file(1,3), of 1000 100] ex_file(4,5) by (auto simp del: upt_rec_numeral)
qed

lemma ex_write: "2 * blocks_of (unat (1000 :: uint)) (length (replicate 100 7)) \<le> card (free_blocks ex_txn)"
    "has_room 0 (blocks_of (unat (1000 :: uint)) (length (replicate 100 7)) + 3) ex_txn"
  by (simp_all add: blocks_of_def ex_file)

theorem writei_correct_witness: "\<exists>t. writei 0 (replicate 100 7) 1000 ex_txn = Ok 100 t \<and> isize (inodes t 0) = 1100"
proof -
  obtain t where "writei 0 (replicate 100 7) 1000 ex_txn = Ok 100 t" "unat (isize (inodes t 0)) = 1100"
    using writei_correct [OF ex_txn_ok(4) ex_file(1-3) _ _ ex_write] ex_file(4) by auto
  then show ?thesis by (auto simp: word_unat_eq_iff)
qed

theorem writei_readi_roundtrip_witness:
  "\<exists>t u. writei 0 (replicate 100 7) 1000 ex_txn = Ok 100 t \<and> readi 0 1000 100 t = Ok (Some (replicate 100 7)) u"
  using writei_readi_roundtrip [OF ex_txn_ok(4) ex_file(1-3) _ _ _ ex_write] ex_file(4) by auto

end
