(* ===== verification/Pipe.thy ===== *)
theory Pipe
  imports Fs
begin

text \<open>
  Pipes, pipe.c: a circular buffer of 512 bytes between a writer and a reader, each of which
  sleeps when it cannot go on and wakes the other. \<open>pipealloc\<close>, which also allocates files, is
  in File.
\<close>

section \<open>State\<close>

text \<open>
  \<open>struct pipe\<close> and \<open>struct file\<close>. A pipe lives in a page of its own; \<open>pipes\<close> gives the pipe
  stored in the page at an address. A file pointer is an index of \<open>ftable.file\<close>.
\<close>

record pipe =
  pdata :: "uchar list"
  nread :: uint
  nwrite :: uint
  readopen :: bool
  writeopen :: bool

datatype ftype = FD_NONE | FD_PIPE | FD_INODE

record kfile =
  ftyp :: ftype
  fref :: int
  readable :: bool
  writable :: bool
  fpipe :: uint
  fip :: nat
  foff :: uint

record file_st = fs_st +
  files :: "nat \<Rightarrow> kfile"
  pipes :: "uint \<Rightarrow> pipe"

abbreviation (input) PIPESIZE :: uint where "PIPESIZE \<equiv> 512"

definition pipe_upd :: "uint \<Rightarrow> (pipe \<Rightarrow> pipe) \<Rightarrow> 'z file_st_scheme \<Rightarrow> 'z file_st_scheme" where
  "pipe_upd p f s = s\<lparr>pipes := (pipes s)(p := f (pipes s p))\<rparr>"

section \<open>Operations\<close>

definition pipeclose :: "uint \<Rightarrow> bool \<Rightarrow> 'z file_st_scheme \<Rightarrow> (unit, 'z file_st_scheme) res" where
  "pipeclose p wr s =
     (let s = (if wr then wakeup (ChPipeRead p) (pipe_upd p (\<lambda>x. x\<lparr>writeopen := False\<rparr>) s)
               else wakeup (ChPipeWrite p) (pipe_upd p (\<lambda>x. x\<lparr>readopen := False\<rparr>) s))
      in if \<not> readopen (pipes s p) \<and> \<not> writeopen (pipes s p) then kfree p s else Ok () s)"

text \<open>
  The loop of \<open>pipewrite\<close> until it has stored everything or finds the buffer full; the value
  is what is left to write. A writer that slept goes on with what is left.
\<close>

fun pipe_fill :: "uchar list \<Rightarrow> pipe \<Rightarrow> uchar list \<times> pipe" where
  "pipe_fill [] x = ([], x)"
| "pipe_fill (c # cs) x =
     (if nwrite x = nread x + PIPESIZE then (c # cs, x)
      else pipe_fill cs (x\<lparr>pdata := (pdata x)[unat (nwrite x mod PIPESIZE) := c], nwrite := nwrite x + 1\<rparr>))"

definition pipewrite :: "uint \<Rightarrow> uchar list \<Rightarrow> 'z file_st_scheme \<Rightarrow> (int, 'z file_st_scheme) res" where
  "pipewrite p addr s =
     (let (rest, x) = pipe_fill addr (pipes s p); s = pipe_upd p (\<lambda>_. x) s
      in if rest = [] then Ok (int (length addr)) (wakeup (ChPipeRead p) s)
         else if \<not> readopen x \<or> myproc_killed s then Ok (- 1) s
         else sleep (ChPipeWrite p) (wakeup (ChPipeRead p) s))"

fun pipe_drain :: "nat \<Rightarrow> pipe \<Rightarrow> uchar list \<times> pipe" where
  "pipe_drain 0 x = ([], x)"
| "pipe_drain (Suc n) x =
     (if nread x = nwrite x then ([], x)
      else case pipe_drain n (x\<lparr>nread := nread x + 1\<rparr>) of (cs, y) \<Rightarrow> (pdata x ! unat (nread x mod PIPESIZE) # cs, y))"

text \<open>The value of \<open>piperead\<close> is the bytes it stores, or \<open>None\<close> for -1.\<close>

definition piperead :: "uint \<Rightarrow> cint \<Rightarrow> 'z file_st_scheme \<Rightarrow> (uchar list option, 'z file_st_scheme) res" where
  "piperead p n s =
     (let x = pipes s p
      in if nread x = nwrite x \<and> writeopen x
         then (if myproc_killed s then Ok None s else sleep (ChPipeRead p) s)
         else let (cs, y) = pipe_drain (nat (sint n)) x
              in Ok (Some cs) (wakeup (ChPipeWrite p) (pipe_upd p (\<lambda>_. y) s)))"

end
