(* ===== verification/PipeFifo.thy ===== *)
theory PipeFifo
  imports Pipe Txn
begin

text \<open>
  A pipe is a bounded first-in first-out queue: refinement of the two operations, and the
  stream of bytes between a writer and a reader under every interleaving of their turns.
\<close>

interpretation pipebuf: circular 512
  by unfold_locales simp

section \<open>The queue of a pipe\<close>

definition pipe_len :: "pipe \<Rightarrow> nat" where
  "pipe_len x = unat (nwrite x - nread x)"

definition pipe_queue :: "pipe \<Rightarrow> uchar list" where
  "pipe_queue x = ring_seq PIPESIZE (pdata x) (nread x) (pipe_len x)"

definition pipe_ok :: "pipe \<Rightarrow> bool" where
  "pipe_ok x \<longleftrightarrow> length (pdata x) = 512 \<and> pipe_len x \<le> 512"

lemma pipe_full: "pipe_ok x \<Longrightarrow> nwrite x = nread x + PIPESIZE \<longleftrightarrow> pipe_len x = 512"
proof -
  have "nwrite x = nread x + PIPESIZE \<longleftrightarrow> nwrite x - nread x = PIPESIZE" by (auto simp: algebra_simps)
  also have "\<dots> \<longleftrightarrow> pipe_len x = 512" by (simp add: pipe_len_def word_unat_eq_iff)
  finally show ?thesis .
qed

lemma pipe_empty: "nread x = nwrite x \<longleftrightarrow> pipe_len x = 0"
  by (auto simp: pipe_len_def)

lemma queue_push:
  assumes "pipe_ok x" "pipe_len x < 512" "y = x\<lparr>pdata := (pdata x)[unat (nwrite x mod PIPESIZE) := c], nwrite := nwrite x + 1\<rparr>"
  shows "pipe_ok y" "pipe_queue y = pipe_queue x @ [c]" "pipe_len y = pipe_len x + 1"
proof -
  have l: "pipe_len y = Suc (pipe_len x)" using assms(2,3) by (simp add: pipe_len_def unat_diff_Suc)
  then show "pipe_len y = pipe_len x + 1" by simp
  show "pipe_ok y" using assms l by (simp add: pipe_ok_def)
  have "nwrite x = nread x + of_nat (pipe_len x)" by (simp add: pipe_len_def)
  then show "pipe_queue y = pipe_queue x @ [c]"
    using pipebuf.push [of "pdata x" "pipe_len x" "nwrite x" "nread x" c] assms l by (simp add: pipe_queue_def pipe_ok_def)
qed

lemma queue_pop:
  assumes "pipe_ok x" "0 < pipe_len x" "y = x\<lparr>nread := nread x + 1\<rparr>"
  shows "pipe_ok y" "pipe_queue x = pdata x ! unat (nread x mod PIPESIZE) # pipe_queue y" "pipe_len y = pipe_len x - 1"
proof -
  have ne: "nwrite x \<noteq> nread x" using assms(2) by (auto simp: pipe_len_def)
  have e: "nwrite x - 1 - nread x = nwrite x - (nread x + 1)" by simp
  have l: "pipe_len x = Suc (pipe_len y)" using unat_diff_pred [OF ne] unfolding e assms(3) pipe_len_def by simp
  then show "pipe_len y = pipe_len x - 1" by simp
  show "pipe_ok y" using assms l by (simp add: pipe_ok_def)
  show "pipe_queue x = pdata x ! unat (nread x mod PIPESIZE) # pipe_queue y"
    unfolding pipe_queue_def l ring_seq_pop using assms(3) by simp
qed

lemma pipe_fill_spec:
  assumes "pipe_ok x"
  shows "let (rest, y) = pipe_fill cs x; k = min (length cs) (512 - pipe_len x)
    in pipe_ok y \<and> pipe_queue y = pipe_queue x @ take k cs \<and> rest = drop k cs \<and> readopen y = readopen x \<and> writeopen y = writeopen x"
  using assms
proof (induction cs arbitrary: x)
  case (Cons c cs)
  show ?case
  proof (cases "pipe_len x = 512")
    case True
    then show ?thesis using Cons.prems pipe_full [OF Cons.prems] by simp
  next
    case False
    let ?y = "x\<lparr>pdata := (pdata x)[unat (nwrite x mod PIPESIZE) := c], nwrite := nwrite x + 1\<rparr>"
    have lt: "pipe_len x < 512" using False Cons.prems by (simp add: pipe_ok_def)
    note y = queue_push [OF Cons.prems lt refl, of c]
    have k: "min (length (c # cs)) (512 - pipe_len x) = Suc (min (length cs) (512 - pipe_len ?y))" using lt y(3) by simp
    show ?thesis using Cons.IH [OF y(1)] pipe_full [OF Cons.prems] False y(2) unfolding k by (simp add: case_prod_beta Let_def)
  qed
qed (simp add: pipe_ok_def)

lemma length_queue: "length (pipe_queue x) = pipe_len x"
  by (simp add: pipe_queue_def)

lemma pipe_drain_spec:
  assumes "pipe_ok x"
  shows "let (cs, y) = pipe_drain n x
    in pipe_ok y \<and> cs = take n (pipe_queue x) \<and> pipe_queue y = drop n (pipe_queue x) \<and> readopen y = readopen x \<and> writeopen y = writeopen x"
  using assms
proof (induction n arbitrary: x)
  case (Suc n)
  show ?case
  proof (cases "pipe_len x = 0")
    case True
    then have "pipe_queue x = []" using length_queue [of x] by simp
    then show ?thesis using Suc.prems True pipe_empty [of x] by simp
  next
    case False
    let ?y = "x\<lparr>nread := nread x + 1\<rparr>"
    have lt: "0 < pipe_len x" using False by simp
    note y = queue_pop [OF Suc.prems lt refl]
    show ?thesis using Suc.IH [OF y(1)] False pipe_empty [of x] unfolding y(2) by (simp add: case_prod_beta Let_def)
  qed
qed simp

section \<open>The operations\<close>

lemma pipes_wakeup [simp]: "pipes (wakeup ch s) = pipes s" for s :: "'z file_st_scheme"
  by (simp add: wakeup_def wakeup1_def)

lemma pget_pipe_upd [simp]: "pget (pipe_upd p f s) r = pget s r"
  by (cases r) (simp_all add: pipe_upd_def)

lemma pipes_upd [simp]: "pipes (pipe_upd p f s) p = f (pipes s p)" "cproc (pipe_upd p f s) = cproc s" "myproc_killed (pipe_upd p f s) = myproc_killed s"
  by (simp_all add: myproc_killed_def split: option.splits) (simp_all add: pipe_upd_def)

lemma pipes_pupd [simp]: "pipes (pupd r f s) = pipes s" for s :: "'z file_st_scheme"
  by (cases r) (simp_all add: pupd_def)

lemma sleep_pipes: "cproc s \<noteq> None \<Longrightarrow> \<exists>t. sleep ch s = Sleep ch t \<and> pipes t = pipes s" for s :: "'z file_st_scheme"
  by (auto simp: sleep_def)

lemma cproc_wakeup: "cproc (wakeup ch s) = cproc s"
  by (simp add: wakeup_def wakeup1_def)

lemma pipewrite_cases:
  fixes s :: "'z file_st_scheme"
  assumes "pipe_ok (pipes s p)" "cproc s \<noteq> None" "k = min (length cs) (512 - length (pipe_queue (pipes s p)))"
  shows "\<exists>t. pipe_ok (pipes t p) \<and> pipe_queue (pipes t p) = pipe_queue (pipes s p) @ take k cs \<and> fst (pipe_fill cs (pipes s p)) = drop k cs \<and>
     pipewrite p cs s =
       (if k = length cs then Ok (int (length cs)) t
        else if \<not> readopen (pipes s p) \<or> myproc_killed s then Ok (- 1) t else Sleep (ChPipeWrite p) t)"
proof -
  obtain rest y where y: "pipe_fill cs (pipes s p) = (rest, y)" by fastforce
  have f: "pipe_ok y" "pipe_queue y = pipe_queue (pipes s p) @ take k cs" "rest = drop k cs" "readopen y = readopen (pipes s p)"
    using pipe_fill_spec [OF assms(1), of cs] y assms(3) by (simp_all add: length_queue Let_def)
  let ?u = "pipe_upd p (\<lambda>_. y) s"
  have k: "rest = [] \<longleftrightarrow> k = length cs" using f(3) assms(3) by auto
  show ?thesis
  proof (cases "k = length cs")
    case True
    then have "pipewrite p cs s = Ok (int (length cs)) (wakeup (ChPipeRead p) ?u)" using y k by (simp add: pipewrite_def)
    then show ?thesis using True f y by (intro exI [of _ "wakeup (ChPipeRead p) ?u"]) simp
  next
    case False
    show ?thesis
    proof (cases "\<not> readopen (pipes s p) \<or> myproc_killed s")
      case True
      then have "pipewrite p cs s = Ok (- 1) ?u" using False y k f(4) by (auto simp: pipewrite_def)
      then show ?thesis using True False f y by (intro exI [of _ ?u]) simp
    next
      case alive: False
      have "cproc (wakeup (ChPipeRead p) ?u) \<noteq> None" using assms(2) by (simp add: cproc_wakeup)
      from sleep_pipes [OF this] obtain t where t: "sleep (ChPipeWrite p) (wakeup (ChPipeRead p) ?u) = (Sleep (ChPipeWrite p) t :: (int, _) res)" "pipes t = pipes ?u" by auto
      then show ?thesis using alive False y k f by (intro exI [of _ t]) (simp add: pipewrite_def)
    qed
  qed
qed

lemma piperead_cases:
  fixes s :: "'z file_st_scheme"
  assumes "pipe_ok (pipes s p)" "cproc s \<noteq> None" "q = pipe_queue (pipes s p)"
  shows "if q = [] \<and> writeopen (pipes s p)
     then (if myproc_killed s then piperead p n s = Ok None s else \<exists>t. piperead p n s = Sleep (ChPipeRead p) t \<and> pipes t = pipes s)
     else \<exists>t. piperead p n s = Ok (Some (take (nat (sint n)) q)) t \<and> pipe_ok (pipes t p) \<and> pipe_queue (pipes t p) = drop (nat (sint n)) q"
proof -
  obtain cs y where y: "pipe_drain (nat (sint n)) (pipes s p) = (cs, y)" by fastforce
  have f: "pipe_ok y" "cs = take (nat (sint n)) q" "pipe_queue y = drop (nat (sint n)) q"
    using pipe_drain_spec [OF assms(1), of "nat (sint n)"] y assms(3) by (simp_all add: Let_def)
  have e: "q = [] \<longleftrightarrow> nread (pipes s p) = nwrite (pipes s p)"
    using length_queue [of "pipes s p"] pipe_empty [of "pipes s p"] assms(3) by (metis length_0_conv)
  show ?thesis
  proof (cases "q = [] \<and> writeopen (pipes s p)")
    case True
    then show ?thesis using e sleep_pipes [OF assms(2)] by (auto simp: piperead_def)
  next
    case False
    then have "piperead p n s = Ok (Some cs) (wakeup (ChPipeWrite p) (pipe_upd p (\<lambda>_. y) s))" using e y by (auto simp: piperead_def)
    then show ?thesis using False f by auto
  qed
qed

section \<open>Properties\<close>

text \<open>
  C8: A pipe is a bounded queue. \<open>pipewrite\<close> appends as many bytes as fit in 512: all of them, and
  it returns their number; or else it returns -1 if the read end is closed or the process was
  killed, and waits otherwise. \<open>piperead\<close> takes bytes from the front, as many as asked for or
  there are; on an empty pipe with a write end it waits, or gives -1 to a killed process. The
  counters may wrap around.
\<close>

theorem pipe_refines:
  fixes s :: "'z file_st_scheme"
  assumes "pipe_ok (pipes s p)" "cproc s \<noteq> None"
  shows "let q = pipe_queue (pipes s p); k = min (length cs) (512 - length q) in
    (\<exists>t. pipe_ok (pipes t p) \<and> pipe_queue (pipes t p) = q @ take k cs \<and>
       pipewrite p cs s =
         (if k = length cs then Ok (int (length cs)) t
          else if \<not> readopen (pipes s p) \<or> myproc_killed s then Ok (- 1) t else Sleep (ChPipeWrite p) t)) \<and>
    (if q = [] \<and> writeopen (pipes s p)
     then (if myproc_killed s then piperead p n s = Ok None s else \<exists>t. piperead p n s = Sleep (ChPipeRead p) t \<and> pipes t = pipes s)
     else \<exists>t. piperead p n s = Ok (Some (take (nat (sint n)) q)) t \<and> pipe_ok (pipes t p) \<and> pipe_queue (pipes t p) = drop (nat (sint n)) q)"
proof -
  have w: "\<exists>t. pipe_ok (pipes t p) \<and> pipe_queue (pipes t p) = pipe_queue (pipes s p) @ take k cs \<and>
       pipewrite p cs s =
         (if k = length cs then Ok (int (length cs)) t
          else if \<not> readopen (pipes s p) \<or> myproc_killed s then Ok (- 1) t else Sleep (ChPipeWrite p) t)"
    if "k = min (length cs) (512 - length (pipe_queue (pipes s p)))" for k
    using pipewrite_cases [OF assms that] by blast
  show ?thesis unfolding Let_def using w [OF refl] piperead_cases [OF assms refl, of n] by blast
qed

text \<open>
  A writer with bytes \<open>w\<close> still to write and a reader that has got the bytes \<open>r\<close>, on one pipe. A
  writer that has waited goes on with what was left over; anything else may happen between
  their turns as long as it leaves the pipe alone.
\<close>

inductive pipe_step :: "uint \<Rightarrow> 'z file_st_scheme \<times> uchar list \<times> uchar list \<Rightarrow> 'z file_st_scheme \<times> uchar list \<times> uchar list \<Rightarrow> bool" for p where
  write_all: "pipewrite p w s = Ok (int (length w)) t \<Longrightarrow> pipe_step p (s, w, r) (t, [], r)"
| write_wait: "pipewrite p w s = Sleep ch t \<Longrightarrow> pipe_step p (s, w, r) (t, fst (pipe_fill w (pipes s p)), r)"
| read_some: "piperead p n s = Ok (Some cs) t \<Longrightarrow> pipe_step p (s, w, r) (t, w, r @ cs)"
| other: "pipes t p = pipes s p \<Longrightarrow> cproc t \<noteq> None \<Longrightarrow> pipe_step p (s, w, r) (t, w, r)"

inductive_cases pipe_stepE: "pipe_step p (s, w, r) (t, w', r')"

text \<open>The processes take turns: the writer until it waits, the reader for up to \<open>n\<close> bytes.\<close>

fun pipe_turns :: "nat \<Rightarrow> nat \<Rightarrow> pipe \<times> uchar list \<times> uchar list \<Rightarrow> pipe \<times> uchar list \<times> uchar list" where
  "pipe_turns n 0 c = c"
| "pipe_turns n (Suc k) (x, w, r) =
     (let (w', y) = pipe_fill w x; (cs, z) = pipe_drain n y in pipe_turns n k (z, w', r @ cs))"

lemma cproc_pupd: "cproc (pupd r f s) = cproc s"
  by (cases r) (simp_all add: pupd_def)

lemma step_cproc:
  fixes s :: "'z file_st_scheme"
  shows "pipewrite p w s = Ok v t \<Longrightarrow> cproc t = cproc s" "pipewrite p w s = Sleep ch t \<Longrightarrow> cproc t = cproc s"
    "piperead p n s = Ok u t \<Longrightarrow> cproc t = cproc s"
  by (auto simp: pipewrite_def piperead_def Let_def sleep_def cproc_wakeup cproc_pupd split: prod.splits if_splits option.splits)

lemma pipe_step_inv:
  fixes s :: "'z file_st_scheme"
  assumes "pipe_step p (s, w, r) (t, w', r')" "pipe_ok (pipes s p)" "cproc s \<noteq> None"
  shows "pipe_ok (pipes t p)" "cproc t \<noteq> None" "r' @ pipe_queue (pipes t p) @ w' = r @ pipe_queue (pipes s p) @ w"
proof -
  let ?k = "min (length w) (512 - length (pipe_queue (pipes s p)))"
  obtain u where u: "pipe_ok (pipes u p)" "pipe_queue (pipes u p) = pipe_queue (pipes s p) @ take ?k w"
    "fst (pipe_fill w (pipes s p)) = drop ?k w"
    "pipewrite p w s =
       (if ?k = length w then Ok (int (length w)) u
        else if \<not> readopen (pipes s p) \<or> myproc_killed s then Ok (- 1) u else Sleep (ChPipeWrite p) u)"
    using pipewrite_cases [OF assms(2,3) refl, of w] by blast
  have "pipe_ok (pipes t p) \<and> cproc t \<noteq> None \<and> r' @ pipe_queue (pipes t p) @ w' = r @ pipe_queue (pipes s p) @ w"
    using assms(1)
  proof (cases rule: pipe_stepE [consumes 1])
    case 1
    then have "?k = length w" "u = t" using u(4) by (auto split: if_splits)
    then show ?thesis using u(1,2) 1 step_cproc(1) [of p w s] assms(3) by auto
  next
    case (2 ch)
    then have "u = t" using u(4) by (auto split: if_splits)
    then show ?thesis using u(1-3) 2 step_cproc(2) [of p w s] assms(3) by auto
  next
    case (3 n cs)
    then show ?thesis using piperead_cases [OF assms(2,3) refl, of n] step_cproc(3) [of p n s] assms(3)
      by (auto split: if_splits)
  qed (use assms(2) in auto)
  then show "pipe_ok (pipes t p)" "cproc t \<noteq> None" "r' @ pipe_queue (pipes t p) @ w' = r @ pipe_queue (pipes s p) @ w" by auto
qed

lemma pipe_steps_inv:
  fixes c d :: "'z file_st_scheme \<times> uchar list \<times> uchar list"
  assumes "(pipe_step p)\<^sup>*\<^sup>* c d" "pipe_ok (pipes (fst c) p)" "cproc (fst c) \<noteq> None"
  shows "pipe_ok (pipes (fst d) p) \<and> cproc (fst d) \<noteq> None \<and>
     snd (snd d) @ pipe_queue (pipes (fst d) p) @ fst (snd d) = snd (snd c) @ pipe_queue (pipes (fst c) p) @ fst (snd c)"
  using assms
proof (induction rule: rtranclp_induct)
  case (step d e)
  obtain s w r t w' r' where "d = (s, w, r)" "e = (t, w', r')" by (metis prod_cases3)
  then show ?case using step pipe_step_inv [of p s w r t w' r'] by auto
qed simp

lemma pipe_turns_done:
  assumes "pipe_ok x" "0 < n" "length (pipe_queue x) + length w \<le> k"
  shows "\<exists>y. pipe_turns n k (x, w, r) = (y, [], r @ pipe_queue x @ w) \<and> pipe_ok y \<and> pipe_queue y = []"
  using assms
proof (induction k arbitrary: x w r)
  case (Suc k)
  obtain w' y where y: "pipe_fill w x = (w', y)" by fastforce
  obtain cs z where z: "pipe_drain n y = (cs, z)" by fastforce
  let ?j = "min (length w) (512 - pipe_len x)"
  have f: "pipe_ok y" "pipe_queue y = pipe_queue x @ take ?j w" "w' = drop ?j w"
    using pipe_fill_spec [OF Suc.prems(1), of w] y by (simp_all add: Let_def)
  have g: "pipe_ok z" "cs = take n (pipe_queue y)" "pipe_queue z = drop n (pipe_queue y)"
    using pipe_drain_spec [OF f(1), of n] z by (simp_all add: Let_def)
  have all: "pipe_queue y @ w' = pipe_queue x @ w" using f(2,3) by simp
  have "length (pipe_queue z) + length w' \<le> k"
  proof (cases "pipe_queue y = []")
    case True
    then have "pipe_len x = 0" "?j = 0 \<or> w = []" using f(2) length_queue [of x] by auto
    then have "w = []" by (auto simp: min_def split: if_splits)
    then show ?thesis using True f(3) g(3) by simp
  next
    case False
    then have "length (pipe_queue z) < length (pipe_queue y)" using g(3) Suc.prems(2) by simp
    moreover have "length (pipe_queue y) + length w' = length (pipe_queue x) + length w" using all by (metis length_append)
    ultimately show ?thesis using Suc.prems(3) by simp
  qed
  from Suc.IH [OF g(1) Suc.prems(2) this, of "r @ cs"] obtain v where
    v: "pipe_turns n k (z, w', r @ cs) = (v, [], (r @ cs) @ pipe_queue z @ w')" "pipe_ok v" "pipe_queue v = []" by blast
  have "(r @ cs) @ pipe_queue z @ w' = r @ pipe_queue x @ w" using g(2,3) all by (metis append.assoc append_take_drop_id)
  then show ?case using v y z by simp
qed simp

text \<open>
  C9: Bytes go through a pipe in order, none lost and none twice. Whatever the writer and the reader
  do, in any order and with anything else in between, what the reader has got followed by the
  queue and by what is still to be written is always the same; and when the two take turns, the
  reader asking for at least one byte, everything has arrived after as many turns as there are
  bytes, for any length and any queue.
\<close>

theorem pipe_stream:
  fixes s t :: "'z file_st_scheme"
  assumes "pipe_ok (pipes s p)" "cproc s \<noteq> None" "(pipe_step p)\<^sup>*\<^sup>* (s, w, []) (t, w', r)" "0 < n"
  shows "r @ pipe_queue (pipes t p) @ w' = pipe_queue (pipes s p) @ w \<and>
    (\<exists>y. pipe_turns n (length (pipe_queue (pipes t p)) + length w') (pipes t p, w', r) = (y, [], pipe_queue (pipes s p) @ w))"
proof -
  have i: "pipe_ok (pipes t p)" "r @ pipe_queue (pipes t p) @ w' = pipe_queue (pipes s p) @ w"
    using pipe_steps_inv [OF assms(3)] assms(1,2) by auto
  from pipe_turns_done [OF i(1) assms(4) order_refl, of w' r] i(2) show ?thesis by auto
qed

section \<open>Witnesses\<close>

text \<open>A process with an empty pipe whose counters are about to wrap around.\<close>

definition ex_pipe :: file_st where
  "ex_pipe = fs_st.extend ex_fs (file_st.fields
     (\<lambda>_. \<lparr>ftyp = FD_NONE, fref = 0, readable = False, writable = False, fpipe = 0, fip = 0, foff = 0\<rparr>)
     (\<lambda>_. \<lparr>pdata = replicate 512 0, nread = 0xFFFFFFFE, nwrite = 0xFFFFFFFE, readopen = True, writeopen = True\<rparr>))"

lemma ex_pipe_ok: "pipe_ok (pipes ex_pipe p)" "cproc ex_pipe \<noteq> None" "pipe_queue (pipes ex_pipe p) = []"
  using ex_fs_fields(10) by (simp_all add: ex_pipe_def fs_st.defs file_st.defs pipe_ok_def pipe_len_def pipe_queue_def)

theorem pipe_refines_witness:
  "\<exists>t. pipewrite 0x80400000 [1, 2, 3] ex_pipe = Ok 3 t \<and> pipe_queue (pipes t 0x80400000) = [1, 2, 3]"
  using pipe_refines [OF ex_pipe_ok(1,2), where p = "0x80400000" and cs = "[1, 2, 3]" and n = 0] by (auto simp: ex_pipe_ok(3) Let_def)

theorem pipe_stream_witness:
  "\<exists>t y. (pipe_step 0x80400000)\<^sup>*\<^sup>* (ex_pipe, [1, 2, 3], []) (t, [], [1, 2]) \<and>
     pipe_turns 1 1 (pipes t 0x80400000, [], [1, 2]) = (y, [], [1, 2, 3])"
proof -
  let ?p = "0x80400000 :: uint"
  obtain u where u: "pipe_ok (pipes u ?p)" "pipe_queue (pipes u ?p) = [1, 2, 3]" "pipewrite ?p [1, 2, 3] ex_pipe = Ok 3 u"
    using pipewrite_cases [OF ex_pipe_ok(1) [of ?p] ex_pipe_ok(2) refl, of "[1, 2, 3]"] by (auto simp: ex_pipe_ok(3))
  have "cproc u \<noteq> None" using step_cproc(1) [OF u(3)] ex_pipe_ok(2) by simp
  then obtain t where t: "piperead ?p 2 u = Ok (Some [1, 2]) t" "pipe_queue (pipes t ?p) = [3]"
    using piperead_cases [OF u(1) _ refl, of 2] by (auto simp: u(2))
  have "pipe_step ?p (ex_pipe, [1, 2, 3], []) (u, [], [])" using write_all [of ?p "[1, 2, 3]" ex_pipe u] u(3) by simp
  moreover have "pipe_step ?p (u, [], []) (t, [], [1, 2])" using read_some [OF t(1), of "[]" "[]"] by simp
  ultimately have r: "(pipe_step ?p)\<^sup>*\<^sup>* (ex_pipe, [1, 2, 3], []) (t, [], [1, 2])" by (meson converse_rtranclp_into_rtranclp r_into_rtranclp)
  have "length (pipe_queue (pipes t ?p)) + length ([] :: uchar list) = 1" by (simp add: t(2))
  with pipe_stream [OF ex_pipe_ok(1) [of ?p] ex_pipe_ok(2) r zero_less_one] ex_pipe_ok(3) [of ?p] r
  show ?thesis by (metis append_Nil)
qed

end
