(* ===== verification/PageTable.thy ===== *)
theory PageTable
  imports Vm
begin

text \<open>
  What the page-table operations of vm.c do: a page directory in raw memory as a function from
  pages to page-table entries, the invariant that keeps directory, tables and free pages
  apart, and the effect of \<open>walkpgdir\<close> and \<open>mappages\<close> on it.
\<close>

section \<open>Addresses and entries\<close>

lemma unat_and_3FF: "unat (x AND 0x3FF) = unat x mod 1024" for x :: uint
proof -
  have "x AND 0x3FF = take_bit 10 x" by (simp add: take_bit_eq_mask mask_eq_exp_minus_1)
  then show ?thesis by (simp add: take_bit_eq_mod unat_mod_distrib)
qed

lemma PDX_unat: "unat (PDX v) = pg v div 1024"
proof -
  have "unat (drop_bit 22 v) = unat v div 4194304" by (simp add: drop_bit_eq_div unat_div_distrib)
  moreover have "unat v div 4194304 < 1024" using unat32_less [of v] by simp
  ultimately show ?thesis by (simp add: PDX_def unat_and_3FF pg_def flip: div_mult2_eq)
qed

lemma PTX_unat: "unat (PTX v) = pg v mod 1024"
proof -
  have "unat (drop_bit 12 v) = unat v div 4096" by (simp add: drop_bit_eq_div unat_div_distrib)
  then show ?thesis by (simp add: PTX_def unat_and_3FF pg_def)
qed

lemma pg_less: "pg v < 1048576"
  using unat32_less [of v] by (simp add: pg_def)

lemma index_less: "PDX v < 1024" "PTX v < 1024"
  using pg_less [of v] by (simp_all add: word_less_nat_alt PDX_unat PTX_unat)

lemma same_page: "pg u = pg v \<longleftrightarrow> PDX u = PDX v \<and> PTX u = PTX v"
  by (metis PDX_unat PTX_unat div_mult_mod_eq word_unat_eq_iff)

lemma entry_offset: "i < 1024 \<Longrightarrow> 4 * i \<le> (4092 :: uint)"
  by (simp add: word_less_nat_alt word_le_nat_alt unat_word_ariths)

lemma entries_apart:
  fixes i j k :: uint
  assumes "i < 1024" "j < 1024" "i \<noteq> j" "k < 4"
  shows "\<not> 4 * j + k - 4 * i < 4"
proof -
  have u: "unat (4 * i) = 4 * unat i" "unat (4 * j + k) = 4 * unat j + unat k"
    using assms by (simp_all add: word_less_nat_alt unat_word_ariths)
  show ?thesis
  proof (cases "4 * i \<le> 4 * j + k")
    case True
    then have "unat (4 * j + k - 4 * i) = 4 * unat j + unat k - 4 * unat i" using u by (simp add: unat_sub)
    moreover have "unat i < unat j" using True u assms(3,4) by (auto simp: word_le_nat_alt word_less_nat_alt word_unat_eq_iff)
    ultimately show ?thesis by (simp add: word_less_nat_alt)
  next
    case False
    then have "unat (4 * j + k) < 4 * unat i" using u by (simp add: word_le_nat_alt)
    moreover have "unat (4 * j + k - 4 * i) = 4294967296 + unat (4 * j + k) - unat (4 * i)"
      using False by (simp add: unat_sub_if' word_le_nat_alt)
    ultimately show ?thesis using u(1) assms(1) by (simp add: word_less_nat_alt)
  qed
qed

lemma load32_store32_entry:
  assumes "i < 1024" "j < 1024"
  shows "load32 (store32 m (p + 4 * i) w) (p + 4 * j) = (if i = j then w else load32 m (p + 4 * j))"
proof (cases "i = j")
  case False
  have "store32 m (p + 4 * i) w (p + 4 * j + k) = m (p + 4 * j + k)" if "k < 4" for k
    using store32_apply entries_apart [OF assms False that] by (simp add: algebra_simps)
  from this [of 0] this [of 1] this [of 2] this [of 3] False show ?thesis by (simp add: load32_def)
qed simp

lemma page_aligned_kernbase: "page_aligned 0x80000000"
  by (simp add: page_aligned_def)

lemma V2P_aligned [simp]: "page_aligned (V2P p) \<longleftrightarrow> page_aligned p"
  unfolding V2P_def page_aligned_dvd_word
  by (metis page_aligned_kernbase page_aligned_dvd_word dvd_add_left_iff diff_add_cancel)

lemma PTE_ADDR_aligned [simp]: "page_aligned (P2V (PTE_ADDR e))"
proof -
  have "PTE_ADDR e = PGROUNDDOWN e" by (simp add: PTE_ADDR_def PGROUNDDOWN_def)
  then show ?thesis using page_aligned_add [OF PGROUNDDOWN_aligned [of e] page_aligned_kernbase] by (simp add: P2V_def)
qed

lemma PTE_ADDR_or: "page_aligned x \<Longrightarrow> f < 4096 \<Longrightarrow> PTE_ADDR (x OR f) = x"
proof -
  assume "page_aligned x" "f < 4096"
  have x: "x AND NOT 0xFFF = x" using PGROUNDDOWN_unat [of x] \<open>page_aligned x\<close>
    by (simp add: PGROUNDDOWN_def page_aligned_dvd word_unat_eq_iff dvd_div_mult_self)
  have "PGROUNDDOWN f = 0" using PGROUNDDOWN_unat [of f] \<open>f < 4096\<close> by (simp add: word_less_nat_alt word_unat_eq_iff)
  then have "f AND NOT 0xFFF = 0" by (simp add: PGROUNDDOWN_def)
  with x show ?thesis by (simp add: PTE_ADDR_def bit.conj_disj_distrib2)
qed

section \<open>A page directory as a function\<close>

definition pde :: "memory \<Rightarrow> uint \<Rightarrow> uint \<Rightarrow> uint" where
  "pde m d v = load32 m (d + 4 * PDX v)"

text \<open>The kernel address of the page table for \<open>v\<close>, and the entry for \<open>v\<close>, 0 if there is no table.\<close>

definition pt_at :: "memory \<Rightarrow> uint \<Rightarrow> uint \<Rightarrow> uint" where
  "pt_at m d v = P2V (PTE_ADDR (pde m d v))"

definition pte :: "memory \<Rightarrow> uint \<Rightarrow> uint \<Rightarrow> uint" where
  "pte m d v = (if pde m d v AND PTE_P \<noteq> 0 then load32 m (pt_at m d v + 4 * PTX v) else 0)"

definition dirs :: "memory \<Rightarrow> uint \<Rightarrow> uint set" where
  "dirs m d = {PDX v |v. pde m d v AND PTE_P \<noteq> 0}"

definition pt_pages :: "memory \<Rightarrow> uint \<Rightarrow> uint set" where
  "pt_pages m d = insert d {pt_at m d v |v. pde m d v AND PTE_P \<noteq> 0}"

definition pt_inv :: "memory \<Rightarrow> uint \<Rightarrow> bool" where
  "pt_inv m d \<longleftrightarrow> page_aligned d \<and>
     (\<forall>u. pde m d u AND PTE_P \<noteq> 0 \<longrightarrow> pt_at m d u \<noteq> 0 \<and> pt_at m d u \<noteq> d \<and>
        (\<forall>v. pde m d v AND PTE_P \<noteq> 0 \<longrightarrow> PDX u \<noteq> PDX v \<longrightarrow> pt_at m d u \<noteq> pt_at m d v))"

lemma pde_cong: "PDX u = PDX v \<Longrightarrow> pde m d u = pde m d v"
  by (simp add: pde_def)

lemma pt_at_cong: "PDX u = PDX v \<Longrightarrow> pt_at m d u = pt_at m d v"
  by (simp add: pt_at_def pde_def)

lemma pt_at_aligned [simp]: "page_aligned (pt_at m d v)"
  by (simp add: pt_at_def)

lemma pt_pages_aligned: "pt_inv m d \<Longrightarrow> p \<in> pt_pages m d \<Longrightarrow> page_aligned p"
  by (auto simp: pt_pages_def pt_inv_def)

lemma in_dirs: "PDX v \<in> dirs m d \<longleftrightarrow> pde m d v AND PTE_P \<noteq> 0"
  by (auto simp: dirs_def pde_def)

lemma pt_at_in_pages: "PDX v \<in> dirs m d \<Longrightarrow> pt_at m d v \<in> pt_pages m d"
  by (auto simp: in_dirs pt_pages_def)

lemma load32_entry_frame:
  assumes "page_aligned q" "i < 1024" "\<And>x. pg x = pg q \<Longrightarrow> m' x = m x"
  shows "load32 m' (q + 4 * i) = load32 m (q + 4 * i)"
  by (rule load32_frame [OF assms(1) entry_offset [OF assms(2)]]) (rule assms(3))

lemma load32_zero_page:
  assumes "page_aligned p" "i < 1024"
  shows "load32 (mem_set m p 0 4096) (p + 4 * i) = 0"
  using offset_small [OF entry_offset [OF assms(2)], of 1] offset_small [OF entry_offset [OF assms(2)], of 2]
    offset_small [OF entry_offset [OF assms(2)], of 3] offset_small [OF entry_offset [OF assms(2)], of 0]
  by (simp add: load32_def mem_set_def add.assoc le32_def le16_def)

text \<open>Memory that agrees on the pages of the table has the same table.\<close>

lemma pt_frame:
  assumes "page_aligned d" "\<And>x. pg x \<in> pg ` pt_pages m d \<Longrightarrow> m' x = m x"
  shows "pde m' d v = pde m d v" "pte m' d v = pte m d v"
proof -
  show d: "pde m' d v = pde m d v" for v
    unfolding pde_def by (rule load32_entry_frame [OF assms(1) index_less(1)]) (auto intro: assms(2) simp: pt_pages_def)
  then have p: "pt_at m' d v = pt_at m d v" for v by (simp add: pt_at_def)
  show "pte m' d v = pte m d v"
  proof (cases "pde m d v AND PTE_P = 0")
    case False
    have "load32 m' (pt_at m d v + 4 * PTX v) = load32 m (pt_at m d v + 4 * PTX v)"
      by (rule load32_entry_frame [OF pt_at_aligned index_less(2)]) (metis False in_dirs pt_at_in_pages imageI assms(2))
    then show ?thesis by (simp add: pte_def d p)
  qed (simp add: pte_def d)
qed

lemma pt_frame_inv:
  assumes "\<And>v. pde m' d v = pde m d v"
  shows "pt_inv m' d = pt_inv m d" "pt_pages m' d = pt_pages m d" "dirs m' d = dirs m d" "pt_at m' d = pt_at m d"
  using assms by (simp_all add: pt_inv_def pt_pages_def dirs_def pt_at_def fun_eq_iff)

text \<open>Writing an entry of a page table that is there.\<close>

lemma set_pte:
  assumes "pt_inv m d" "PDX v \<in> dirs m d" "m' = store32 m (pt_at m d v + 4 * PTX v) w"
  shows "pde m' d u = pde m d u" "pte m' d u = (if pg u = pg v then w else pte m d u)"
    "pg x \<noteq> pg (pt_at m d v) \<Longrightarrow> m' x = m x"
proof -
  have al: "page_aligned d" and nd: "pt_at m d v \<noteq> d" using assms(1,2) by (auto simp: pt_inv_def in_dirs)
  show o: "m' x = m x" if "pg x \<noteq> pg (pt_at m d v)" for x
    using store32_other [OF pt_at_aligned entry_offset [OF index_less(2)] that] assms(3) by simp
  show p: "pde m' d u = pde m d u" for u
    unfolding pde_def by (rule load32_entry_frame [OF al index_less(1)]) (metis o nd al pg_inj pt_at_aligned)
  then have q: "pt_at m' d u = pt_at m d u" for u by (simp add: pt_at_def)
  consider "pde m d u AND PTE_P = 0" | "PDX u = PDX v" | "pde m d u AND PTE_P \<noteq> 0" "PDX u \<noteq> PDX v" by blast
  then show "pte m' d u = (if pg u = pg v then w else pte m d u)"
  proof cases
    case 1
    then have "PDX u \<noteq> PDX v" using assms(2) by (metis in_dirs)
    then show ?thesis using 1 by (simp add: pte_def p same_page)
  next
    case 2
    then have "pt_at m d u = pt_at m d v" "pde m d u AND PTE_P \<noteq> 0" using assms(2) pt_at_cong [OF 2] pde_cong [OF 2] by (simp_all add: in_dirs)
    moreover have "load32 m' (pt_at m d v + 4 * PTX u) = (if PTX u = PTX v then w else load32 m (pt_at m d v + 4 * PTX u))"
      using load32_store32_entry [OF index_less(2) [of v] index_less(2) [of u]] assms(3) by simp
    ultimately show ?thesis using 2 by (simp add: pte_def p q same_page)
  next
    case 3
    then have "pt_at m d u \<noteq> pt_at m d v" using assms(1,2) by (auto simp: pt_inv_def in_dirs)
    then have "load32 m' (pt_at m d u + 4 * PTX u) = load32 m (pt_at m d u + 4 * PTX u)"
      by (intro load32_entry_frame [OF pt_at_aligned index_less(2)]) (metis o pg_inj pt_at_aligned)
    then show ?thesis using 3 by (simp add: pte_def p q same_page)
  qed
qed

text \<open>Adding an empty page table.\<close>

lemma add_table:
  assumes "pt_inv m d" "PDX v \<notin> dirs m d" "page_aligned p" "p \<notin> pt_pages m d" "p \<noteq> 0"
    "m' = store32 (mem_set m p 0 PGSIZE) (d + 4 * PDX v) (V2P p OR PTE_P OR PTE_W OR PTE_U)"
  shows "pde m' d u = (if PDX u = PDX v then V2P p OR 7 else pde m d u)"
    "pt_at m' d u = (if PDX u = PDX v then p else pt_at m d u)"
    "pte m' d u = pte m d u" "dirs m' d = insert (PDX v) (dirs m d)" "pt_pages m' d = insert p (pt_pages m d)" "pt_inv m' d"
    "pg x \<noteq> pg p \<Longrightarrow> pg x \<noteq> pg d \<Longrightarrow> m' x = m x"
proof -
  have al: "page_aligned d" "p \<noteq> d" using assms(1,4) by (auto simp: pt_inv_def pt_pages_def)
  have seven: "V2P p OR PTE_P OR PTE_W OR PTE_U = V2P p OR 7" by (simp add: or.assoc)
  show o: "m' x = m x" if "pg x \<noteq> pg p" "pg x \<noteq> pg d" for x
    using store32_other [OF al(1) entry_offset [OF index_less(1)] that(2)] assms(3) that(1) by (simp add: assms(6) mem_set_other)
  show d: "pde m' d u = (if PDX u = PDX v then V2P p OR 7 else pde m d u)" for u
    using load32_store32_entry [OF index_less(1) [of v] index_less(1) [of u]] assms(3) al entry_offset [OF index_less(1) [of u]]
    by (simp add: pde_def assms(6) seven)
  have "PTE_ADDR (V2P p OR 7) = V2P p" using assms(3) by (intro PTE_ADDR_or) auto
  then show a: "pt_at m' d u = (if PDX u = PDX v then p else pt_at m d u)" for u by (simp add: pt_at_def d P2V_def V2P_def)
  have b: "pde m' d u AND PTE_P \<noteq> 0 \<longleftrightarrow> PDX u = PDX v \<or> pde m d u AND PTE_P \<noteq> 0" for u
    by (simp add: d bit.conj_disj_distrib2)
  show "dirs m' d = insert (PDX v) (dirs m d)" by (auto simp: dirs_def b)
  have n: "pde m d u AND PTE_P = 0" if "PDX u = PDX v" for u using assms(2) that by (metis in_dirs)
  show "pt_pages m' d = insert p (pt_pages m d)" unfolding pt_pages_def b a using n by auto
  have "p \<noteq> pt_at m d u" if "pde m d u AND PTE_P \<noteq> 0" for u using assms(4) that by (auto simp: pt_pages_def)
  then show "pt_inv m' d" using assms(1,5) al n unfolding pt_inv_def b a by auto
  show "pte m' d u = pte m d u"
  proof (cases "PDX u = PDX v")
    case True
    have "load32 m' (p + 4 * PTX u) = load32 (mem_set m p 0 PGSIZE) (p + 4 * PTX u)"
      using assms(3,6) al entry_offset index_less by simp
    also have "\<dots> = 0" by (rule load32_zero_page [OF assms(3) index_less(2)])
    finally show ?thesis using True n by (simp add: pte_def a d bit.conj_disj_distrib2)
  next
    case False
    have "load32 m' (pt_at m d u + 4 * PTX u) = load32 m (pt_at m d u + 4 * PTX u)" if "pde m d u AND PTE_P \<noteq> 0"
      using o that assms(1,3,4) al pg_inj
      by (intro load32_entry_frame [OF pt_at_aligned index_less(2)]) (metis (no_types, lifting) pt_at_aligned pt_at_in_pages in_dirs pt_inv_def)
    then show ?thesis using False by (simp add: pte_def a d)
  qed
qed

section \<open>Walking and mapping\<close>

text \<open>The free pages \<open>ps\<close>, and a page directory whose pages are not free.\<close>

definition vm_inv :: "'z kmem_st_scheme \<Rightarrow> uint \<Rightarrow> uint list \<Rightarrow> bool" where
  "vm_inv s d ps \<longleftrightarrow> kmem_inv s ps \<and> pt_inv (mem s) d \<and> pt_pages (mem s) d \<inter> set ps = {}"

text \<open>
  From \<open>s\<close> to \<open>t\<close> the pages \<open>us\<close>, first in the free list, became page tables of \<open>d\<close>; only the
  pages of the directory changed.
\<close>

definition extends :: "uint \<Rightarrow> 'z kmem_st_scheme \<Rightarrow> uint list \<Rightarrow> 'z kmem_st_scheme \<Rightarrow> uint list \<Rightarrow> uint list \<Rightarrow> bool" where
  "extends d s ps t ps' us \<longleftrightarrow> (\<exists>m f. t = s\<lparr>mem := m, freelist := f\<rparr>) \<and> ps = us @ ps' \<and> vm_inv t d ps' \<and>
     pt_pages (mem t) d = pt_pages (mem s) d \<union> set us \<and>
     (\<forall>x. pg x \<notin> pg ` (pt_pages (mem s) d \<union> set us) \<longrightarrow> mem t x = mem s x)"

lemma extends_refl: "vm_inv s d ps \<Longrightarrow> extends d s ps s ps []"
  by (auto simp: extends_def intro!: exI [of _ "mem s"] exI [of _ "freelist s"])

lemma extends_trans:
  assumes "extends d s ps t ps' us" "extends d t ps' u qs vs"
  shows "extends d s ps u qs (us @ vs)"
proof -
  obtain m f m' f' where "t = s\<lparr>mem := m, freelist := f\<rparr>" "u = t\<lparr>mem := m', freelist := f'\<rparr>"
    using assms unfolding extends_def by blast
  then have "u = s\<lparr>mem := m', freelist := f'\<rparr>" by simp
  then show ?thesis using assms unfolding extends_def by (auto simp: image_Un)
qed

lemma vm_inv_frame:
  assumes "vm_inv s d ps" "freelist t = freelist s" "kend t = kend s"
    "\<And>x. pg x \<in> pg ` (pt_pages (mem s) d \<union> set ps) \<Longrightarrow> mem t x = mem s x"
  shows "vm_inv t d ps" "pt_pages (mem t) d = pt_pages (mem s) d" "pte (mem t) d v = pte (mem s) d v" "dirs (mem t) d = dirs (mem s) d"
proof -
  have al: "page_aligned d" using assms(1) by (simp add: vm_inv_def pt_inv_def)
  show "pte (mem t) d v = pte (mem s) d v" by (rule pt_frame(2) [OF al]) (auto intro!: assms(4))
  have e: "pde (mem t) d v = pde (mem s) d v" for v by (rule pt_frame(1) [OF al]) (auto intro!: assms(4))
  show "pt_pages (mem t) d = pt_pages (mem s) d" "dirs (mem t) d = dirs (mem s) d" using pt_frame_inv [OF e] by auto
  then show "vm_inv t d ps" using assms pt_frame_inv [OF e]
    by (auto simp: vm_inv_def intro!: kmem_inv_frame [OF _ refl assms(2,3)])
qed

lemma walk_none:
  assumes "vm_inv s d []" "PDX v \<notin> dirs (mem s) d"
  shows "walkpgdir d v True s = Ok 0 s"
  using kalloc_inv [of s "[]"] assms by (simp add: walkpgdir_def in_dirs pde_def vm_inv_def)

lemma walk_alloc:
  assumes "vm_inv s d ps" "PDX v \<in> dirs (mem s) d \<or> ps \<noteq> []"
  shows "\<exists>us ps' t. walkpgdir d v True s = Ok (pt_at (mem t) d v + 4 * PTX v) t \<and> extends d s ps t ps' us \<and>
      dirs (mem t) d = insert (PDX v) (dirs (mem s) d) \<and> length us = (if PDX v \<in> dirs (mem s) d then 0 else 1) \<and>
      (\<forall>u. pte (mem t) d u = pte (mem s) d u)"
proof -
  have inv: "kmem_inv s ps" "pt_inv (mem s) d" "pt_pages (mem s) d \<inter> set ps = {}" using assms by (simp_all add: vm_inv_def)
  consider "PDX v \<in> dirs (mem s) d" | p ps' where "PDX v \<notin> dirs (mem s) d" "ps = p # ps'"
    using assms(2) by (cases ps) auto
  then show ?thesis
  proof cases
    case 1
    then have "walkpgdir d v True s = Ok (pt_at (mem s) d v + 4 * PTX v) s"
      by (simp add: walkpgdir_def in_dirs pde_def pt_at_def)
    then show ?thesis using 1 extends_refl [OF assms(1)] by (auto intro!: exI [of _ "[]"] exI [of _ ps] exI [of _ s])
  next
    case 2
    let ?m = "store32 (mem_set (mem s) p 0 PGSIZE) (d + 4 * PDX v) (V2P p OR PTE_P OR PTE_W OR PTE_U)"
    let ?u = "s\<lparr>freelist := load32 (mem s) p\<rparr>"
    let ?t = "?u\<lparr>mem := ?m\<rparr>"
    have p: "page_aligned p" "p \<noteq> 0" "p \<notin> pt_pages (mem s) d" "p \<notin> set ps'"
      using inv 2(2) kpage_nz by (auto simp: kmem_inv_def kpage_def)
    note a = add_table [OF inv(2) 2(1) p(1,3,2) refl]
    have k: "kalloc s = Ok p ?u" "kmem_inv ?u ps'" using kalloc_inv [OF inv(1)] 2(2) by auto
    have al: "\<forall>q \<in> set ps'. page_aligned q" "page_aligned d" using inv(1,2) 2(2) by (auto simp: kmem_inv_def kpage_def pt_inv_def)
    have "d \<notin> set ps'" using inv(3) 2(2) by (auto simp: pt_pages_def)
    then have "pg q \<noteq> pg p \<and> pg q \<noteq> pg d" if "q \<in> set ps'" for q using p(1,4) al pg_inj that by metis
    then have "kmem_inv ?t ps'" using a(7) by (intro kmem_inv_frame [OF k(2) refl]) auto
    then have "vm_inv ?t d ps'" using inv(3) 2(2) p(4) a(5,6) by (auto simp: vm_inv_def)
    then have "extends d s ps ?t ps' [p]" using 2(2) a(5,7) unfolding extends_def
      by (auto simp: pt_pages_def intro!: exI [of _ ?m] exI [of _ "load32 (mem s) p"])
    moreover have "walkpgdir d v True s = Ok (pt_at (mem ?t) d v + 4 * PTX v) ?t"
      using 2(1) k(1) p(2) a(2) [of v] by (simp add: walkpgdir_def in_dirs pde_def)
    ultimately have "\<exists>us qs t. walkpgdir d v True s = Ok (pt_at (mem t) d v + 4 * PTX v) t \<and> extends d s ps t qs us \<and>
      dirs (mem t) d = insert (PDX v) (dirs (mem s) d) \<and> length us = 1 \<and> (\<forall>u. pte (mem t) d u = pte (mem s) d u)"
      using a(3,4) by - (rule exI [of _ "[p]"], rule exI [of _ ps'], rule exI [of _ ?t], simp)
    then show ?thesis using 2 by simp
  qed
qed

lemma entry_nonzero:
  assumes "page_aligned p" "p \<noteq> 0" "i < 1024"
  shows "p + 4 * i \<noteq> 0"
proof
  have "4 * i < 4096" using entry_offset [OF assms(3)] by (simp add: word_le_nat_alt word_less_nat_alt)
  assume "p + 4 * i = 0"
  then have "unat p + unat (4 * i) = 0" using page_offset_unat [OF assms(1) \<open>4 * i < 4096\<close>] by simp
  then show False using assms(2) by (simp add: unat_eq_0)
qed

lemma set_extends:
  assumes "vm_inv s d ps" "PDX v \<in> dirs (mem s) d" "t = s\<lparr>mem := store32 (mem s) (pt_at (mem s) d v + 4 * PTX v) w\<rparr>"
  shows "extends d s ps t ps []" "dirs (mem t) d = dirs (mem s) d" "pte (mem t) d u = (if pg u = pg v then w else pte (mem s) d u)"
proof -
  have inv: "kmem_inv s ps" "pt_inv (mem s) d" "pt_pages (mem s) d \<inter> set ps = {}" using assms(1) by (simp_all add: vm_inv_def)
  have m: "mem t = store32 (mem s) (pt_at (mem s) d v + 4 * PTX v) w" using assms(3) by simp
  note e = set_pte [OF inv(2) assms(2) m]
  note f = pt_frame_inv [of "mem t" d "mem s", OF e(1)]
  show "dirs (mem t) d = dirs (mem s) d" by (rule f(3))
  show "pte (mem t) d u = (if pg u = pg v then w else pte (mem s) d u)" by (rule e(2))
  have "pt_at (mem s) d v \<notin> set ps" using pt_at_in_pages [OF assms(2)] inv(3) by auto
  then have "pg q \<noteq> pg (pt_at (mem s) d v)" if "q \<in> set ps" for q
    using that inv(1) pg_inj [of q "pt_at (mem s) d v"] by (auto simp: kmem_inv_def kpage_def)
  then have "kmem_inv t ps" using e(3) assms(3) by (intro kmem_inv_frame [OF inv(1) refl]) auto
  moreover have "\<forall>x. pg x \<notin> pg ` pt_pages (mem s) d \<longrightarrow> mem t x = mem s x"
    using e(3) pt_at_in_pages [OF assms(2)] by (metis imageI)
  ultimately show "extends d s ps t ps []" unfolding extends_def vm_inv_def using f inv assms(3)
    by (auto intro!: exI [of _ "store32 (mem s) (pt_at (mem s) d v + 4 * PTX v) w"] exI [of _ "freelist s"])
qed

text \<open>
  Pages by number: mapping \<open>n\<close> pages from page \<open>a\<close> on to physical memory from \<open>pa\<close> on, and the
  directory entries that this needs.
\<close>

definition mapped :: "(uint \<Rightarrow> uint) \<Rightarrow> nat \<Rightarrow> nat \<Rightarrow> uint \<Rightarrow> uint \<Rightarrow> uint \<Rightarrow> uint" where
  "mapped f a n pa perm v =
     (if a \<le> pg v \<and> pg v < a + n then (pa + 4096 * of_nat (pg v - a)) OR perm OR PTE_P else f v)"

definition dir_of :: "nat \<Rightarrow> uint" where
  "dir_of p = of_nat (p div 1024)"

lemma dir_of_pg: "dir_of (pg v) = PDX v"
  by (simp add: dir_of_def word_unat_eq_iff PDX_unat unat_of_nat32 order.strict_trans1 [OF div_le_dividend order.strict_trans [OF pg_less]])

lemma mapped_Suc:
  "mapped (mapped f a 1 pa perm) (a + 1) n (pa + 4096) perm = mapped f a (Suc n) pa perm"
proof
  fix v
  have "pa + 4096 + 4096 * of_nat (pg v - Suc a) = pa + 4096 * of_nat (pg v - a)" if "a < pg v"
  proof -
    have "pg v - a = Suc (pg v - Suc a)" using that by simp
    then show ?thesis by (simp add: algebra_simps)
  qed
  then show "mapped (mapped f a 1 pa perm) (a + 1) n (pa + 4096) perm v = mapped f a (Suc n) pa perm v"
    by (cases "pg v = a") (auto simp: mapped_def)
qed

lemma pg_add_pages:
  assumes "page_aligned a" "pg a + k < 1048576"
  shows "page_aligned (a + 4096 * of_nat k)" "pg (a + 4096 * of_nat k) = pg a + k"
proof -
  obtain q where q: "unat a = 4096 * q" using assms(1) by (auto simp: page_aligned_dvd)
  then have "q + k < 1048576" using assms(2) by (simp add: pg_def)
  then have "unat (a + 4096 * of_nat k) = 4096 * (q + k)" using q by (simp add: unat_word_ariths unat_of_nat)
  then show "page_aligned (a + 4096 * of_nat k)" "pg (a + 4096 * of_nat k) = pg a + k"
    using q by (simp_all add: page_aligned_dvd pg_def)
qed

lemma map_one:
  assumes "vm_inv s d ps" "pte (mem s) d a AND PTE_P = 0" "PDX a \<in> dirs (mem s) d \<or> ps \<noteq> []"
  shows "\<exists>t ps' us. (\<forall>n lst. mappages_loop (Suc n) d a lst pa perm s =
        (if a = lst then Ok 0 t else mappages_loop n d (a + PGSIZE) lst (pa + PGSIZE) perm t)) \<and>
      extends d s ps t ps' us \<and> dirs (mem t) d = insert (PDX a) (dirs (mem s) d) \<and>
      length us = (if PDX a \<in> dirs (mem s) d then 0 else 1) \<and> pte (mem t) d = mapped (pte (mem s) d) (pg a) 1 pa perm"
proof -
  from walk_alloc [OF assms(1,3)] obtain us ps' t where
    t: "walkpgdir d a True s = Ok (pt_at (mem t) d a + 4 * PTX a) t" "extends d s ps t ps' us"
      "dirs (mem t) d = insert (PDX a) (dirs (mem s) d)" "length us = (if PDX a \<in> dirs (mem s) d then 0 else 1)"
      "\<forall>u. pte (mem t) d u = pte (mem s) d u" by blast
  let ?v = "t\<lparr>mem := store32 (mem t) (pt_at (mem t) d a + 4 * PTX a) (pa OR perm OR PTE_P)\<rparr>"
  have inv: "vm_inv t d ps'" "PDX a \<in> dirs (mem t) d" using t(2,3) by (auto simp: extends_def)
  note e = set_extends [OF inv, of ?v, OF refl]
  have "pt_at (mem t) d a \<noteq> 0" using inv by (auto simp: vm_inv_def pt_inv_def in_dirs)
  then have nz: "pt_at (mem t) d a + 4 * PTX a \<noteq> 0" by (rule entry_nonzero [OF pt_at_aligned _ index_less(2)])
  have "pte (mem t) d a AND PTE_P = 0" using t(5) assms(2) by simp
  then have "load32 (mem t) (pt_at (mem t) d a + 4 * PTX a) AND PTE_P = 0" using inv(2) by (simp add: pte_def in_dirs)
  then have "mappages_loop (Suc n) d a lst pa perm s =
      (if a = lst then Ok 0 ?v else mappages_loop n d (a + PGSIZE) lst (pa + PGSIZE) perm ?v)" for n lst
    using t(1) nz by (simp add: Let_def)
  moreover have "extends d s ps ?v ps' us" using extends_trans [OF t(2) e(1)] by simp
  moreover have "pte (mem ?v) d = mapped (pte (mem s) d) (pg a) 1 pa perm"
    using e(3) t(5) by (auto simp: fun_eq_iff mapped_def)
  ultimately show ?thesis using t(3,4) e(2)
    by - (rule exI [of _ ?v], rule exI [of _ ps'], rule exI [of _ us], simp)
qed

lemma card_insert_Diff:
  assumes "finite B"
  shows "card (insert x B - A) = (if x \<in> A then 0 else 1) + card (B - insert x A)"
proof (cases "x \<in> A")
  case True
  then show ?thesis by (simp add: insert_absorb)
next
  case False
  then have "insert x B - A = insert x (B - insert x A)" by auto
  then show ?thesis using False assms by simp
qed

abbreviation dir_range :: "nat \<Rightarrow> nat \<Rightarrow> uint set" where
  "dir_range a n \<equiv> dir_of ` {a..<a + n}"

lemma dir_range_Suc: "dir_range (pg a) (Suc n) = insert (PDX a) (dir_range (Suc (pg a)) n)"
proof -
  have "{pg a..<pg a + Suc n} = insert (pg a) {Suc (pg a)..<Suc (pg a) + n}" by auto
  then show ?thesis by (simp add: dir_of_pg)
qed

lemma mappages_loop_spec:
  assumes "vm_inv s d ps" "page_aligned a" "pg a + n < 1048576"
    "\<forall>v. pg a \<le> pg v \<and> pg v \<le> pg a + n \<longrightarrow> pte (mem s) d v AND PTE_P = 0"
  shows "\<exists>r t ps' us k. mappages_loop (Suc n) d a (a + 4096 * of_nat n) pa perm s = Ok r t \<and> extends d s ps t ps' us \<and>
    pte (mem t) d = mapped (pte (mem s) d) (pg a) k pa perm \<and>
    (r = 0 \<and> k = Suc n \<and> dirs (mem t) d = dirs (mem s) d \<union> dir_range (pg a) (Suc n) \<and>
       length us = card (dir_range (pg a) (Suc n) - dirs (mem s) d) \<or>
     r = - 1 \<and> k \<le> n \<and> ps' = [] \<and> length ps < card (dir_range (pg a) (Suc n) - dirs (mem s) d))"
  using assms
proof (induction n arbitrary: a pa s ps)
  case (Suc n)
  have a': "a + 4096 * 1 = a + PGSIZE" "page_aligned (a + PGSIZE)" "pg (a + PGSIZE) = Suc (pg a)"
    using pg_add_pages [of a 1] Suc.prems(2,3) by simp_all
  let ?D = "dir_range (pg a) (Suc (Suc n))" and ?E = "dir_range (Suc (pg a)) (Suc n)"
  have card: "card (?D - dirs (mem s) d) = (if PDX a \<in> dirs (mem s) d then 0 else 1) + card (?E - insert (PDX a) (dirs (mem s) d))"
    unfolding dir_range_Suc by (rule card_insert_Diff) simp
  show ?case
  proof (cases "PDX a \<in> dirs (mem s) d \<or> ps \<noteq> []")
    case False
    then have "mappages_loop (Suc (Suc n)) d a (a + 4096 * of_nat (Suc n)) pa perm s = Ok (- 1) s"
      using walk_none [of s d a] Suc.prems(1) by auto
    then show ?thesis using False card extends_refl [OF Suc.prems(1)]
      by (intro exI [of _ "- 1"] exI [of _ s] exI [of _ ps] exI [of _ 0]) (auto simp: mapped_def fun_eq_iff)
  next
    case True
    with map_one [OF Suc.prems(1) _ True, of pa perm] Suc.prems(4) obtain t qs us where
      t: "\<forall>n lst. mappages_loop (Suc n) d a lst pa perm s =
        (if a = lst then Ok 0 t else mappages_loop n d (a + PGSIZE) lst (pa + PGSIZE) perm t)"
      "extends d s ps t qs us" "dirs (mem t) d = insert (PDX a) (dirs (mem s) d)"
      "length us = (if PDX a \<in> dirs (mem s) d then 0 else 1)" "pte (mem t) d = mapped (pte (mem s) d) (pg a) 1 pa perm"
      by auto
    have ne: "a \<noteq> a + 4096 * of_nat (Suc n)" using pg_add_pages(2) [OF Suc.prems(2,3)] by auto
    have lst: "a + 4096 * of_nat (Suc n) = (a + PGSIZE) + 4096 * of_nat n" by (simp add: algebra_simps)
    have "\<forall>v. Suc (pg a) \<le> pg v \<and> pg v \<le> Suc (pg a) + n \<longrightarrow> pte (mem t) d v AND PTE_P = 0"
      using Suc.prems(4) by (auto simp: t(5) mapped_def)
    moreover have "vm_inv t d qs" using t(2) by (simp add: extends_def)
    ultimately obtain r u rs vs k where u: "mappages_loop (Suc n) d (a + PGSIZE) ((a + PGSIZE) + 4096 * of_nat n) (pa + PGSIZE) perm t = Ok r u"
      "extends d t qs u rs vs" "pte (mem u) d = mapped (pte (mem t) d) (Suc (pg a)) k (pa + PGSIZE) perm"
      "r = 0 \<and> k = Suc n \<and> dirs (mem u) d = dirs (mem t) d \<union> ?E \<and> length vs = card (?E - dirs (mem t) d) \<or>
       r = - 1 \<and> k \<le> n \<and> rs = [] \<and> length qs < card (?E - dirs (mem t) d)"
      using Suc.IH [of t qs "a + PGSIZE" "pa + PGSIZE"] a'(2,3) Suc.prems(3) by auto
    have "mappages_loop (Suc (Suc n)) d a (a + 4096 * of_nat (Suc n)) pa perm s = Ok r u"
      unfolding t(1) [rule_format] using ne u(1) lst by (simp only: if_False)
    moreover have "pte (mem u) d = mapped (pte (mem s) d) (pg a) (Suc k) pa perm"
      using mapped_Suc [of "pte (mem s) d" "pg a" pa perm k] by (simp add: u(3) t(5))
    moreover have len: "length ps = length us + length qs" using t(2) by (simp add: extends_def)
    have "length (us @ vs) = card (?D - dirs (mem s) d) \<longleftrightarrow> length vs = card (?E - dirs (mem t) d)"
      "length ps < card (?D - dirs (mem s) d) \<longleftrightarrow> length qs < card (?E - dirs (mem t) d)"
      unfolding card len t(3) length_append t(4) by simp_all
    moreover have "dirs (mem t) d \<union> ?E = dirs (mem s) d \<union> ?D" unfolding dir_range_Suc t(3) by blast
    ultimately show ?thesis using extends_trans [OF t(2) u(2)] u(4) by (metis Suc_le_mono)
  qed
next
  case 0
  show ?case
  proof (cases "PDX a \<in> dirs (mem s) d \<or> ps \<noteq> []")
    case False
    then show ?thesis using walk_none [of s d a] 0(1) extends_refl [OF 0(1)]
      by (intro exI [of _ "- 1"] exI [of _ s] exI [of _ ps] exI [of _ 0]) (auto simp: mapped_def fun_eq_iff dir_of_pg insert_Diff_if)
  next
    case True
    with map_one [OF 0(1) _ True, of pa perm] 0(4) obtain t qs us where
      "\<forall>n lst. mappages_loop (Suc n) d a lst pa perm s =
        (if a = lst then Ok 0 t else mappages_loop n d (a + PGSIZE) lst (pa + PGSIZE) perm t)"
      "extends d s ps t qs us" "dirs (mem t) d = insert (PDX a) (dirs (mem s) d)"
      "length us = (if PDX a \<in> dirs (mem s) d then 0 else 1)" "pte (mem t) d = mapped (pte (mem s) d) (pg a) 1 pa perm"
      by auto
    then show ?thesis
      by (intro exI [of _ 0] exI [of _ t] exI [of _ qs] exI [of _ us] exI [of _ 1]) (auto simp: dir_of_pg insert_Diff_if)
  qed
qed

lemma PGROUNDDOWN_page:
  assumes "page_aligned p" "i < 4096"
  shows "PGROUNDDOWN (p + i) = p"
proof -
  have "unat (p + i) div 4096 = unat p div 4096" using pg_offset [OF assms] by (simp add: pg_def)
  then show ?thesis using assms(1) by (simp add: word_unat_eq_iff PGROUNDDOWN_unat page_aligned_dvd)
qed

lemma mappages_pages:
  assumes "page_aligned a" "pg a + n < 1048576"
  shows "mappages d a (4096 * of_nat (Suc n)) pa perm s = mappages_loop (Suc n) d a (a + 4096 * of_nat n) pa perm s"
proof -
  have "a + 4096 * of_nat (Suc n) - 1 = (a + 4096 * of_nat n) + 4095" by (simp add: algebra_simps)
  then have "PGROUNDDOWN (a + 4096 * of_nat (Suc n) - 1) = a + 4096 * of_nat n"
    using PGROUNDDOWN_page [OF pg_add_pages(1) [OF assms], of 4095] by (simp only:) simp
  moreover have "PGROUNDDOWN a = a" using PGROUNDDOWN_page [OF assms(1), of 0] by simp
  moreover have "unat (4096 * of_nat n :: uint) div 4096 = n" using assms(2) by (simp add: unat_word_ariths unat_of_nat)
  ultimately show ?thesis by (simp add: mappages_def del: mappages_loop.simps)
qed

text \<open>
  \<open>mappages\<close> on a range of unmapped pages maps them all if there are pages for the page tables
  it needs; otherwise it returns -1 with the first of them mapped.
\<close>

lemma mappages_spec:
  assumes "vm_inv s d ps" "page_aligned a" "pg a + n < 1048576"
    "\<forall>v. pg a \<le> pg v \<and> pg v \<le> pg a + n \<longrightarrow> pte (mem s) d v AND PTE_P = 0"
  shows "\<exists>r t ps' us k. mappages d a (4096 * of_nat (Suc n)) pa perm s = Ok r t \<and> extends d s ps t ps' us \<and>
    pte (mem t) d = mapped (pte (mem s) d) (pg a) k pa perm \<and>
    (r = 0 \<and> k = Suc n \<and> dirs (mem t) d = dirs (mem s) d \<union> dir_range (pg a) (Suc n) \<and>
       length us = card (dir_range (pg a) (Suc n) - dirs (mem s) d) \<or>
     r = - 1 \<and> k \<le> n \<and> ps' = [] \<and> length ps < card (dir_range (pg a) (Suc n) - dirs (mem s) d))"
  unfolding mappages_pages [OF assms(2,3)] by (rule mappages_loop_spec [OF assms])

end
