(* ===== verification/UserMem.thy ===== *)
theory UserMem
  imports PageTable
begin

text \<open>
  Address spaces, vm.c: the kernel part that \<open>setupkvm\<close> builds.
\<close>

section \<open>Pages by address\<close>

lemma PGROUNDDOWN_pg: "PGROUNDDOWN v = 4096 * of_nat (pg v)"
proof -
  have "of_nat (pg v) = v div 4096"
    by (simp add: word_unat_eq_iff unat_div_distrib pg_def unat_of_nat32 order.strict_trans1 [OF div_le_dividend unat32_less])
  then show ?thesis by (simp add: PGROUNDDOWN_div)
qed

lemma below_page: "page_aligned p \<Longrightarrow> v < p \<longleftrightarrow> pg v < pg p"
proof -
  assume "page_aligned p"
  then obtain q where "unat p = 4096 * q" by (auto simp: page_aligned_dvd)
  then show ?thesis by (auto simp: pg_def word_less_nat_alt div_less_iff_less_mult mult.commute)
qed

lemma at_or_above_page: "page_aligned p \<Longrightarrow> p \<le> v \<longleftrightarrow> pg p \<le> pg v"
  using below_page [of p v] by (simp add: not_less [symmetric])

lemma mapped_linear:
  "mapped f a n (4096 * of_nat a - k) perm v =
     (if a \<le> pg v \<and> pg v < a + n then (PGROUNDDOWN v - k) OR perm OR PTE_P else f v)"
  by (simp add: mapped_def PGROUNDDOWN_pg of_nat_diff algebra_simps)

section \<open>The kernel part\<close>

text \<open>
  The entries of every page directory above KERNBASE: physical memory, writable except for the
  kernel text, and the devices.
\<close>

definition kernel_pte :: "uint \<Rightarrow> uint \<Rightarrow> uint" where
  "kernel_pte kd v =
     (if v < KERNBASE then 0
      else if v < P2V PHYSTOP then V2P (PGROUNDDOWN v) OR (if KERNBASE + EXTMEM \<le> v \<and> v < kd then 0 else PTE_W) OR PTE_P
      else if v < DEVSPACE then 0
      else PGROUNDDOWN v OR PTE_W OR PTE_P)"

text \<open>The directory entries these need: 56 for memory and 8 for devices.\<close>

definition kdirs :: "uint set" where
  "kdirs = dir_range 0x80000 0xE000 \<union> dir_range 0xFE000 0x2000"

lemma dir_of_inj: "dir_of p = dir_of q \<longleftrightarrow> p div 1024 = q div 1024" if "p < 1048576" "q < 1048576"
  using that by (simp add: dir_of_def word_unat_eq_iff unat_of_nat)

lemma dir_range_div: "dir_range a n = of_nat ` ((\<lambda>p. p div 1024) ` {a..<a + n})"
  by (simp add: dir_of_def image_image)

lemma div_range: "(\<lambda>p. p div 1024) ` {1024 * i..<1024 * j} = {i..<j :: nat}"
proof
  show "{i..<j} \<subseteq> (\<lambda>p. p div 1024) ` {1024 * i..<1024 * j}" by (force intro!: image_eqI [of _ _ "1024 * _"])
qed (auto simp: less_mult_imp_div_less mult.commute div_le_mono [of "1024 * i" _ 1024, simplified])

lemma kdirs_alt: "kdirs = of_nat ` ({512..<568} \<union> {1016..<1024})"
  unfolding kdirs_def dir_range_div image_Un using div_range [of 512 568] div_range [of 1016 1024] by simp

lemma inj_on_of_nat32: "A \<subseteq> {..<4294967296} \<Longrightarrow> inj_on (of_nat :: nat \<Rightarrow> uint) A"
  by (rule inj_onI) (metis lessThan_iff subsetD unat_of_nat32)

lemma card_kdirs: "card kdirs = 64"
proof -
  have "card kdirs = card ({512..<568} \<union> {1016..<1024 :: nat})"
    unfolding kdirs_alt by (rule card_image) (auto intro!: inj_on_of_nat32)
  also have "\<dots> = 64" by (subst card_Un_disjoint) auto
  finally show ?thesis .
qed

lemma finite_dirs [simp]: "finite (dirs m d)"
  by (rule finite_subset [of _ UNIV]) auto

text \<open>Pages enough for the page tables still to come: then a row of \<open>kmap\<close> can be mapped.\<close>

definition vm_room :: "uint set \<Rightarrow> 'z kmem_st_scheme \<Rightarrow> uint \<Rightarrow> uint list \<Rightarrow> nat \<Rightarrow> bool" where
  "vm_room K s d ps c \<longleftrightarrow> vm_inv s d ps \<and> dirs (mem s) d \<subseteq> K \<and> length ps + card (dirs (mem s) d) = c + card K"

lemma map_room:
  assumes "vm_room K s d ps c" "page_aligned a" "pg a + n < 1048576" "dir_range (pg a) (Suc n) \<subseteq> K"
    "\<forall>v. pg a \<le> pg v \<and> pg v \<le> pg a + n \<longrightarrow> pte (mem s) d v AND PTE_P = 0"
  shows "\<exists>t ps' us. mappages d a (4096 * of_nat (Suc n)) pa perm s = Ok 0 t \<and> extends d s ps t ps' us \<and> vm_room K t d ps' c \<and>
    pte (mem t) d = mapped (pte (mem s) d) (pg a) (Suc n) pa perm \<and> dirs (mem t) d = dirs (mem s) d \<union> dir_range (pg a) (Suc n)"
proof -
  let ?D = "dir_range (pg a) (Suc n)" and ?A = "dirs (mem s) d"
  have r: "vm_inv s d ps" "?A \<subseteq> K" "length ps + card ?A = c + card K" using assms(1) by (auto simp: vm_room_def)
  have fin: "finite K" by (rule finite_subset [of _ UNIV]) auto
  then have "card (?D - ?A) \<le> card (K - ?A)" using assms(4) by (intro card_mono) auto
  also have "\<dots> = card K - card ?A" using r(2) fin by (intro card_Diff_subset) (auto intro: finite_subset)
  finally have le: "card (?D - ?A) \<le> length ps" using r(3) by simp
  have "card (?A \<union> ?D) = card ?A + card (?D - ?A)" by (subst card_Un_disjoint [symmetric]) auto
  with mappages_spec [OF r(1) assms(2,3,5), of pa perm] le obtain t ps' us where
    t: "mappages d a (4096 * of_nat (Suc n)) pa perm s = Ok 0 t" "extends d s ps t ps' us"
      "pte (mem t) d = mapped (pte (mem s) d) (pg a) (Suc n) pa perm" "dirs (mem t) d = ?A \<union> ?D"
      "length us + card ?A = card (dirs (mem t) d)" by fastforce
  moreover from t(2) have "vm_inv t d ps'" "length ps = length us + length ps'" by (auto simp: extends_def)
  ultimately have "vm_room K t d ps' c" using r assms(4) by (auto simp: vm_room_def)
  with t show ?thesis by blast
qed

text \<open>A zeroed page is an empty page directory.\<close>

lemma new_pgdir:
  assumes "kmem_inv s (p # ps)"
  shows "vm_inv (s\<lparr>freelist := load32 (mem s) p, mem := mem_set (mem s) p 0 4096\<rparr>) p ps" (is "vm_inv ?t p ps")
    "dirs (mem_set (mem s) p 0 4096) p = {}" "pte (mem_set (mem s) p 0 4096) p v = 0" "pt_pages (mem_set (mem s) p 0 4096) p = {p}"
proof -
  have p: "page_aligned p" "p \<notin> set ps" "\<forall>q \<in> set ps. page_aligned q" using assms by (auto simp: kmem_inv_def kpage_def)
  have z: "pde (mem_set (mem s) p 0 4096) p v = 0" for v
    unfolding pde_def by (rule load32_zero_page [OF p(1) index_less(1)])
  then show e: "dirs (mem_set (mem s) p 0 4096) p = {}" "pte (mem_set (mem s) p 0 4096) p v = 0" "pt_pages (mem_set (mem s) p 0 4096) p = {p}"
    by (simp_all add: dirs_def pte_def pt_pages_def)
  have k: "kmem_inv (s\<lparr>freelist := load32 (mem s) p\<rparr>) ps" using kalloc_inv [OF assms] by simp
  have "mem ?t x = mem s x" if "\<exists>q \<in> set ps. pg x = pg q" for x
  proof -
    from that have "pg x \<noteq> pg p" using p pg_inj by metis
    then show ?thesis using mem_set_other [OF p(1)] by simp
  qed
  then have "kmem_inv ?t ps" by (intro kmem_inv_frame [OF k refl]) auto
  then show "vm_inv ?t p ps" using p z by (simp add: vm_inv_def e pt_inv_def)
qed

lemma page_number:
  assumes "a < 1048576"
  shows "page_aligned (4096 * of_nat a)" "pg (4096 * of_nat a) = a"
  using pg_add_pages [of 0 a] assms by (simp_all add: pg_def)

lemma kmap_row:
  assumes "vm_room kdirs s d ps c" "0 < n" "a + n \<le> 1048576" "virt = 4096 * of_nat a" "pend - pstart = 4096 * of_nat n"
    "dir_range a n \<subseteq> kdirs" "\<forall>v. a \<le> pg v \<and> pg v < a + n \<longrightarrow> pte (mem s) d v AND PTE_P = 0"
  shows "\<exists>t ps' us. setupkvm_loop ((virt, pstart, pend, perm) # ks) d s = setupkvm_loop ks d t \<and> extends d s ps t ps' us \<and>
    vm_room kdirs t d ps' c \<and> pte (mem t) d = mapped (pte (mem s) d) a n pstart perm \<and> dirs (mem t) d = dirs (mem s) d \<union> dir_range a n"
proof -
  have n: "Suc (n - 1) = n" and a: "a < 1048576" using assms(2,3) by auto
  note p = page_number [OF a]
  have "pg (4096 * of_nat a) + (n - 1) < 1048576" "dir_range (pg (4096 * of_nat a)) (Suc (n - 1)) \<subseteq> kdirs"
    "\<forall>v. pg (4096 * of_nat a) \<le> pg v \<and> pg v \<le> pg (4096 * of_nat a) + (n - 1) \<longrightarrow> pte (mem s) d v AND PTE_P = 0"
    unfolding p(2) n using assms(2,3,6,7) by auto
  from map_room [OF assms(1) p(1) this, of pstart perm] obtain t ps' us where
    t: "mappages d virt (4096 * of_nat n) pstart perm s = Ok 0 t" "extends d s ps t ps' us" "vm_room kdirs t d ps' c"
      "pte (mem t) d = mapped (pte (mem s) d) a n pstart perm" "dirs (mem t) d = dirs (mem s) d \<union> dir_range a n"
    unfolding p(2) n assms(4) by blast
  then have "setupkvm_loop ((virt, pstart, pend, perm) # ks) d s = setupkvm_loop ks d t" by (simp add: assms(5))
  with t show ?thesis by blast
qed

lemma kdirs_range:
  "dir_range a n \<subseteq> kdirs" if "0x80000 \<le> a \<and> a + n \<le> 0x8E000 \<or> 0xFE000 \<le> a \<and> a + n \<le> 0x100000"
  using that by (auto simp: kdirs_def)

lemma setupkvm_spec:
  assumes "kmem_inv s ps" "65 \<le> length ps" "page_aligned (kdata s)" "KERNBASE + EXTMEM < kdata s" "kdata s < P2V PHYSTOP"
  shows "\<exists>t ps' us. setupkvm s = Ok (hd ps) t \<and> (\<exists>m f. t = s\<lparr>mem := m, freelist := f\<rparr>) \<and> vm_room kdirs t (hd ps) ps' (length ps - 65) \<and>
    ps = hd ps # us @ ps' \<and> pt_pages (mem t) (hd ps) = insert (hd ps) (set us) \<and> pte (mem t) (hd ps) = kernel_pte (kdata s) \<and>
    dirs (mem t) (hd ps) = kdirs \<and> (\<forall>x. pg x \<notin> pg ` insert (hd ps) (set us) \<longrightarrow> mem t x = mem s x)"
proof -
  obtain d qs where ps: "ps = d # qs" using assms(2) by (cases ps) auto
  define k where "k = pg (kdata s)"
  have k: "kdata s = 4096 * of_nat k" "0x80100 < k" "k < 0x8E000"
  proof -
    show "kdata s = 4096 * of_nat k" using PGROUNDDOWN_page [OF assms(3), of 0] by (simp add: k_def PGROUNDDOWN_pg)
    show "0x80100 < k" using assms(3,4) below_page [of "kdata s" "0x80100000"] by (simp add: k_def pg_def)
    show "k < 0x8E000" using assms(5) below_page [of "0x8E000000" "kdata s"] by (simp add: k_def pg_def page_aligned_def P2V_def)
  qed
  let ?m = "mem_set (mem s) d 0 4096"
  let ?s = "s\<lparr>freelist := load32 (mem s) d, mem := ?m\<rparr>"
  note new = new_pgdir [OF assms(1) [unfolded ps]]
  have r: "vm_room kdirs ?s d qs (length ps - 65)" "pte (mem ?s) d = (\<lambda>_. 0)" "dirs (mem ?s) d = {}" "pt_pages (mem ?s) d = {d}"
    using new assms(2) by (auto simp: vm_room_def card_kdirs ps fun_eq_iff)
  let ?r4 = "[(DEVSPACE, DEVSPACE, 0, PTE_W)]"
  let ?r3 = "(kdata s, V2P (kdata s), PHYSTOP, PTE_W) # ?r4"
  let ?r2 = "(KERNBASE + EXTMEM, V2P (KERNBASE + EXTMEM), V2P (kdata s), 0) # ?r3"
  have start: "setupkvm s = setupkvm_loop ((KERNBASE, 0, EXTMEM, PTE_W) # ?r2) d ?s"
    using kalloc_inv [OF assms(1)] kpage_nz assms(1) by (auto simp: ps setupkvm_def kmap_def P2V_def kmem_inv_def Let_def simp del: setupkvm_loop.simps)
  obtain t1 p1 u1 where 1: "setupkvm_loop ((KERNBASE, 0, EXTMEM, PTE_W) # ?r2) d ?s = setupkvm_loop ?r2 d t1"
    "extends d ?s qs t1 p1 u1" "vm_room kdirs t1 d p1 (length ps - 65)"
    "pte (mem t1) d = mapped (\<lambda>_. 0) 0x80000 0x100 0 PTE_W" "dirs (mem t1) d = dir_range 0x80000 0x100"
  proof -
    from kdirs_range [of "0x80000" "0x100"] have "dir_range 0x80000 0x100 \<subseteq> kdirs" by simp
    from kmap_row [OF r(1) _ _ _ _ this, of KERNBASE EXTMEM 0 PTE_W ?r2] r(2,3) that show thesis by auto
  qed
  obtain t2 p2 u2 where 2: "setupkvm_loop ?r2 d t1 = setupkvm_loop ?r3 d t2"
    "extends d t1 p1 t2 p2 u2" "vm_room kdirs t2 d p2 (length ps - 65)"
    "pte (mem t2) d = mapped (pte (mem t1) d) 0x80100 (k - 0x80100) 0x100000 0" "dirs (mem t2) d = dirs (mem t1) d \<union> dir_range 0x80100 (k - 0x80100)"
  proof -
    from kdirs_range [of "0x80100" "k - 0x80100"] k have "dir_range 0x80100 (k - 0x80100) \<subseteq> kdirs" by simp
    moreover have "V2P (kdata s) - V2P (KERNBASE + EXTMEM) = 4096 * of_nat (k - 0x80100)"
      using k by (simp add: V2P_def of_nat_diff algebra_simps)
    moreover have "\<forall>v. 0x80100 \<le> pg v \<and> pg v < 0x80100 + (k - 0x80100) \<longrightarrow> pte (mem t1) d v AND PTE_P = 0"
      by (simp add: 1(4) mapped_def)
    ultimately show thesis
      using kmap_row [OF 1(3), of "k - 0x80100" "0x80100" "KERNBASE + EXTMEM" "V2P (kdata s)" "V2P (KERNBASE + EXTMEM)" 0 ?r3] k that
      by (auto simp: V2P_def)
  qed
  obtain t3 p3 u3 where 3: "setupkvm_loop ?r3 d t2 = setupkvm_loop ?r4 d t3"
    "extends d t2 p2 t3 p3 u3" "vm_room kdirs t3 d p3 (length ps - 65)"
    "pte (mem t3) d = mapped (pte (mem t2) d) k (0x8E000 - k) (V2P (kdata s)) PTE_W" "dirs (mem t3) d = dirs (mem t2) d \<union> dir_range k (0x8E000 - k)"
  proof -
    from kdirs_range [of k "0x8E000 - k"] k have "dir_range k (0x8E000 - k) \<subseteq> kdirs" by simp
    moreover have "PHYSTOP - V2P (kdata s) = 4096 * of_nat (0x8E000 - k)"
      using k by (simp add: V2P_def of_nat_diff algebra_simps)
    moreover have "\<forall>v. k \<le> pg v \<and> pg v < k + (0x8E000 - k) \<longrightarrow> pte (mem t2) d v AND PTE_P = 0"
      using k by (simp add: 1(4) 2(4) mapped_def)
    ultimately show thesis
      using kmap_row [OF 2(3), of "0x8E000 - k" k "kdata s" PHYSTOP "V2P (kdata s)" PTE_W ?r4] k that by auto
  qed
  obtain t p4 u4 where 4: "setupkvm_loop ?r4 d t3 = Ok d t"
    "extends d t3 p3 t p4 u4" "vm_room kdirs t d p4 (length ps - 65)"
    "pte (mem t) d = mapped (pte (mem t3) d) 0xFE000 0x2000 DEVSPACE PTE_W" "dirs (mem t) d = dirs (mem t3) d \<union> dir_range 0xFE000 0x2000"
  proof -
    from kdirs_range [of "0xFE000" "0x2000"] have "dir_range 0xFE000 0x2000 \<subseteq> kdirs" by simp
    moreover have "\<forall>v. 0xFE000 \<le> pg v \<and> pg v < 0xFE000 + 0x2000 \<longrightarrow> pte (mem t3) d v AND PTE_P = 0"
      using k by (simp add: 1(4) 2(4) 3(4) mapped_def)
    ultimately show thesis using kmap_row [OF 3(3), of "0x2000" "0xFE000" DEVSPACE 0 DEVSPACE PTE_W "[]"] that by auto
  qed
  have e: "extends d ?s qs t p4 (u1 @ u2 @ u3 @ u4)"
    using extends_trans [OF 1(2) extends_trans [OF 2(2) extends_trans [OF 3(2) 4(2)]]] .
  have "{0x80000..<0x8E000} = {0x80000..<0x80100} \<union> {0x80100..<k} \<union> {k..<0x8E000}" using k by auto
  then have "dirs (mem t) d = kdirs" using k unfolding kdirs_def 1(5) 2(5) 3(5) 4(5) by (simp add: image_Un Un_assoc)
  moreover have "pte (mem t) d = kernel_pte (kdata s)"
  proof
    fix v
    have b: "v < KERNBASE \<longleftrightarrow> pg v < 0x80000" "v < P2V PHYSTOP \<longleftrightarrow> pg v < 0x8E000" "KERNBASE + EXTMEM \<le> v \<longleftrightarrow> 0x80100 \<le> pg v"
      "v < DEVSPACE \<longleftrightarrow> pg v < 0xFE000" "v < kdata s \<longleftrightarrow> pg v < k"
      using below_page [of "0x80000000" v] below_page [of "0x8E000000" v] at_or_above_page [of "0x80100000" v]
        below_page [of "0xFE000000" v] below_page [OF assms(3), of v] by (simp_all add: page_aligned_def pg_def [of "numeral _"] P2V_def k_def)
    show "pte (mem t) d v = kernel_pte (kdata s) v"
      using k pg_less [of v] mapped_linear [of "\<lambda>_. 0" "0x80000" "0x100" KERNBASE PTE_W v]
        mapped_linear [of "pte (mem t1) d" "0x80100" "k - 0x80100" KERNBASE 0 v]
        mapped_linear [of "pte (mem t2) d" k "0x8E000 - k" KERNBASE PTE_W v] mapped_linear [of "pte (mem t3) d" "0xFE000" "0x2000" 0 PTE_W v]
      unfolding kernel_pte_def b by (simp add: 1(4) 2(4) 3(4) 4(4) V2P_def)
  qed
  moreover have "setupkvm s = Ok d t" using start 1(1) 2(1) 3(1) 4(1) by (simp only:)
  moreover have "mem t x = mem s x" if "pg x \<notin> pg ` insert d (set (u1 @ u2 @ u3 @ u4))" for x
  proof -
    have "mem t x = ?m x" using e r(4) that unfolding extends_def by auto
    also have "\<dots> = mem s x" using that assms(1) by (intro mem_set_other) (auto simp: ps kmem_inv_def kpage_def)
    finally show ?thesis .
  qed
  moreover obtain m f where "t = ?s\<lparr>mem := m, freelist := f\<rparr>" using e unfolding extends_def by blast
  ultimately show ?thesis using 4(3) e r(4) unfolding ps list.sel extends_def
    by (intro exI [of _ t] exI [of _ p4] exI [of _ "u1 @ u2 @ u3 @ u4"]) auto
qed

end
