(* ===== verification/UserCopy.thy ===== *)
theory UserCopy
  imports UserMem
begin

text \<open>
  The copy of a process's memory, vm.c \<open>copyuvm\<close>: with enough free pages the child has the same
  bytes with the same permissions in pages of its own, and nothing of the parent changes.
\<close>

section \<open>User memory\<close>

text \<open>The kernel address of the page that \<open>v\<close> is mapped to, and the byte at \<open>v\<close>.\<close>

definition page_of :: "memory \<Rightarrow> uint \<Rightarrow> uint \<Rightarrow> uint" where
  "page_of m d v = P2V (PTE_ADDR (pte m d v))"

definition user_byte :: "memory \<Rightarrow> uint \<Rightarrow> uint \<Rightarrow> uchar" where
  "user_byte m d v = m (page_of m d v + (v - PGROUNDDOWN v))"

lemma pte_page: "pg u = pg v \<Longrightarrow> pte m d u = pte m d v"
  by (simp add: same_page pte_def pde_def pt_at_def)

lemma page_of_aligned [simp]: "page_aligned (page_of m d v)"
  by (simp add: page_of_def)

lemma walk_present:
  "PDX v \<in> dirs (mem s) d \<Longrightarrow> walkpgdir d v alloc s = Ok (pt_at (mem s) d v + 4 * PTX v) s"
  by (simp add: walkpgdir_def in_dirs pde_def pt_at_def)

lemma pte_present_dirs: "pte m d v AND PTE_P \<noteq> 0 \<Longrightarrow> PDX v \<in> dirs m d"
  by (auto simp: pte_def in_dirs split: if_splits)

lemma user_byte_frame:
  assumes "page_aligned d" "\<And>x. pg x \<in> pg ` insert (page_of m d v) (pt_pages m d) \<Longrightarrow> m' x = m x"
  shows "user_byte m' d v = user_byte m d v"
proof -
  have "pte m' d v = pte m d v" by (rule pt_frame(2) [OF assms(1)]) (auto intro: assms(2))
  then have "page_of m' d v = page_of m d v" by (simp add: page_of_def)
  moreover have "pg (page_of m d v + (v - PGROUNDDOWN v)) = pg (page_of m d v)"
    by (rule pg_offset [OF page_of_aligned PGROUNDDOWN_offset])
  ultimately show ?thesis unfolding user_byte_def using assms(2) by simp
qed

section \<open>One page\<close>

text \<open>
  The first \<open>k\<close> pages of the space \<open>p\<close>, as it was in memory \<open>m\<close>, are copied to the pages \<open>fr\<close> of
  the space \<open>d\<close>; everything new is in the pages \<open>P\<close> that were free then.
\<close>

definition copied :: "memory \<Rightarrow> uint set \<Rightarrow> uint \<Rightarrow> (uint \<Rightarrow> uint) \<Rightarrow> uint \<Rightarrow> nat \<Rightarrow> (nat \<Rightarrow> uint) \<Rightarrow> 'z kmem_st_scheme \<Rightarrow> uint list \<Rightarrow> bool" where
  "copied m P p f d k fr s ps \<longleftrightarrow>
     set ps \<union> pt_pages (mem s) d \<subseteq> P \<and> (\<forall>x. pg x \<notin> pg ` P \<longrightarrow> mem s x = m x) \<and>
     inj_on fr {..<k} \<and> fr ` {..<k} \<subseteq> P - set ps - pt_pages (mem s) d \<and>
     (\<forall>v x. pg v < k \<longrightarrow> x < 4096 \<longrightarrow> mem s (fr (pg v) + x) = m (page_of m p v + x)) \<and>
     (\<forall>v. pte (mem s) d v = (if pg v < k then V2P (fr (pg v)) OR PTE_FLAGS (pte m p v) OR PTE_P else f v))"

text \<open>The space \<open>p\<close> that is copied: its pages and tables are not free.\<close>

definition user_space :: "memory \<Rightarrow> uint set \<Rightarrow> uint \<Rightarrow> nat \<Rightarrow> bool" where
  "user_space m P p n \<longleftrightarrow> (\<forall>q \<in> P. page_aligned q) \<and> pt_inv m p \<and> pt_pages m p \<inter> P = {} \<and>
     (\<forall>v. pg v < n \<longrightarrow> pte m p v AND PTE_P \<noteq> 0 \<and> page_of m p v \<notin> P)"

lemma parent_walk:
  assumes "copied m P p f d k fr s ps" "user_space m P p n" "pg v < n"
  shows "walkpgdir p v False s = Ok (pt_at (mem s) p v + 4 * PTX v) s" "load32 (mem s) (pt_at (mem s) p v + 4 * PTX v) = pte m p v"
    "pt_at (mem s) p v + 4 * PTX v \<noteq> 0" "x < 4096 \<Longrightarrow> mem s (page_of m p v + x) = m (page_of m p v + x)"
proof -
  have p: "pt_inv m p" "page_aligned p" "pte m p v AND PTE_P \<noteq> 0" using assms(2,3) by (auto simp: user_space_def pt_inv_def)
  have out: "mem s x = m x" if "pg x \<notin> pg ` P" for x using assms(1) that by (simp add: copied_def)
  have apart: "pg q \<notin> pg ` P" if "page_aligned q" "q \<notin> P" for q
    using that assms(2) pg_inj by (auto simp: user_space_def)
  have "mem s x = m x" if "pg x \<in> pg ` pt_pages m p" for x
  proof (rule out)
    from that obtain q where "q \<in> pt_pages m p" "pg x = pg q" by auto
    then show "pg x \<notin> pg ` P" using apart [of q] pt_pages_aligned [OF p(1)] assms(2) by (auto simp: user_space_def)
  qed
  note e = pt_frame [OF p(2) this]
  have f: "pde (mem s) p v = pde m p v" "pte (mem s) p v = pte m p v" for v using e by auto
  have d: "PDX v \<in> dirs (mem s) p" using pte_present_dirs [of "mem s" p v] f(2) p(3) by simp
  then show "walkpgdir p v False s = Ok (pt_at (mem s) p v + 4 * PTX v) s" by (rule walk_present)
  show "load32 (mem s) (pt_at (mem s) p v + 4 * PTX v) = pte m p v" using f(2) [of v] d by (simp add: pte_def in_dirs)
  have "pt_inv (mem s) p" using pt_frame_inv [OF f(1)] p(1) by simp
  then have "pt_at (mem s) p v \<noteq> 0" using d by (simp add: pt_inv_def in_dirs)
  then show "pt_at (mem s) p v + 4 * PTX v \<noteq> 0" by (rule entry_nonzero [OF pt_at_aligned _ index_less(2)])
  show "mem s (page_of m p v + x) = m (page_of m p v + x)" if "x < 4096"
    using out apart [OF page_of_aligned, of m p v] assms(2,3) pg_offset [OF page_of_aligned that, of m p v] by (auto simp: user_space_def)
qed

lemma copy_step:
  assumes "copied m P p f d k fr s ps" "user_space m P p n" "k < n" "vm_room K s d ps (Suc c)" "dir_of k \<in> K" "k < 0x80000"
    "\<And>v. pg v < 0x80000 \<Longrightarrow> f v = 0" "4096 * of_nat k < sz"
  shows "\<exists>t ps' q. (\<forall>fuel. copyuvm_loop (Suc fuel) p d (4096 * of_nat k) sz s = copyuvm_loop fuel p d (4096 * of_nat k + PGSIZE) sz t) \<and>
    copied m P p f d (Suc k) (fr(k := q)) t ps' \<and> vm_room K t d ps' c \<and> (\<exists>m f. t = s\<lparr>mem := m, freelist := f\<rparr>)"
proof -
  let ?i = "4096 * of_nat k :: uint"
  have k: "page_aligned ?i" "pg ?i = k" using page_number [of k] assms(6) by auto
  note c = assms(1) [unfolded copied_def]
  note w = parent_walk [OF assms(1,2), of ?i, unfolded k(2), OF assms(3)]
  have r: "vm_inv s d ps" "dirs (mem s) d \<subseteq> K" "length ps + card (dirs (mem s) d) = Suc c + card K"
    using assms(4) by (auto simp: vm_room_def)
  have "finite K" by (rule finite_subset [of _ UNIV]) auto
  then have "card (dirs (mem s) d) \<le> card K" using r(2) by (rule card_mono)
  then obtain q qs where ps: "ps = q # qs" using r(3) by (cases ps) auto
  have inv: "kmem_inv s ps" "pt_inv (mem s) d" "pt_pages (mem s) d \<inter> set ps = {}" using r(1) by (simp_all add: vm_inv_def)
  have q: "page_aligned q" "q \<noteq> 0" "q \<notin> pt_pages (mem s) d" "q \<notin> set qs" "\<forall>p \<in> set ps. page_aligned p" "q \<in> P"
    using inv kpage_nz c by (auto simp: ps kmem_inv_def kpage_def)
  let ?e = "pte m p ?i"
  let ?m = "mem_move (mem s) q (page_of m p ?i) PGSIZE"
  let ?u = "s\<lparr>freelist := load32 (mem s) q\<rparr>" and ?v = "s\<lparr>freelist := load32 (mem s) q, mem := ?m\<rparr>"
  have al: "kalloc s = Ok q ?u" "kmem_inv ?u qs" using kalloc_inv [OF inv(1)] by (simp_all add: ps)
  have uinv: "vm_inv ?u d qs" using al(2) inv by (simp add: vm_inv_def ps)
  have mm: "mem ?v x = mem ?u x" if "pg x \<in> pg ` (pt_pages (mem ?u) d \<union> set qs)" for x
  proof -
    from that obtain y where y: "y \<in> pt_pages (mem s) d \<union> set qs" "pg x = pg y" by auto
    then have "page_aligned y" "y \<noteq> q" using q pt_pages_aligned [OF inv(2)] by (auto simp: ps)
    then show ?thesis using mem_move_other [OF q(1)] y(2) pg_inj [OF _ q(1)] by simp
  qed
  have vf: "vm_inv ?v d qs" "pt_pages (mem ?v) d = pt_pages (mem s) d" "pte (mem ?v) d v = pte (mem s) d v" "dirs (mem ?v) d = dirs (mem s) d" for v
    using vm_inv_frame [OF uinv, of ?v, OF _ _ mm] by auto
  have "vm_room K ?v d qs c" using vf r by (simp add: vm_room_def ps)
  moreover have "dir_range (pg ?i) (Suc 0) \<subseteq> K" using assms(5) by (simp add: k(2))
  moreover have "\<forall>v. pg ?i \<le> pg v \<and> pg v \<le> pg ?i + 0 \<longrightarrow> pte (mem ?v) d v AND PTE_P = 0"
    unfolding vf(3) k(2) using c assms(6,7) by auto
  ultimately obtain t ps' us where t: "mappages d ?i 4096 (V2P q) (PTE_FLAGS ?e) ?v = Ok 0 t" "extends d ?v qs t ps' us" "vm_room K t d ps' c"
    "pte (mem t) d = mapped (pte (mem s) d) k 1 (V2P q) (PTE_FLAGS ?e)"
    using map_room [of K ?v d qs c ?i 0 "V2P q" "PTE_FLAGS ?e"] k assms(6) vf(3) [abs_def] by (simp only: k(2) ext [OF vf(3)]) auto
  have "?e AND PTE_P \<noteq> 0" using assms(2,3) k(2) by (auto simp: user_space_def)
  then have "copyuvm_loop (Suc fuel) p d ?i sz s = copyuvm_loop fuel p d (?i + PGSIZE) sz t" for fuel
    using w(1-3) al(1) q(2) t(1) assms(8) by (simp add: Let_def page_of_def)
  moreover have "copied m P p f d (Suc k) (fr(k := q)) t ps'"
  proof -
    have e: "qs = us @ ps'" "pt_pages (mem t) d = pt_pages (mem s) d \<union> set us" "vm_inv t d ps'"
      and out: "\<And>x. pg x \<notin> pg ` (pt_pages (mem s) d \<union> set us) \<Longrightarrow> mem t x = ?m x"
      using t(2) vf(2) by (auto simp: extends_def)
    have aligned: "page_aligned y" if "y \<in> P" for y using that assms(2) by (simp add: user_space_def)
    have apart: "pg y \<notin> pg ` A" if "y \<in> P" "A \<subseteq> P" "y \<notin> A" for y A using that aligned pg_inj by (metis imageE subsetD)
    have sub: "pt_pages (mem s) d \<union> set us \<subseteq> P" "q \<notin> pt_pages (mem s) d \<union> set us" using c q e(1) by (auto simp: ps)
    have other: "mem t x = mem s x" if "pg x \<notin> pg ` (insert q (pt_pages (mem s) d \<union> set us))" for x
      using out [of x] that mem_move_other [OF q(1)] by auto
    have new: "mem t (q + x) = m (page_of m p ?i + x)" if "x < 4096" for x
      using out [of "q + x"] apart [OF q(6) sub] pg_offset [OF q(1) that] w(4) [OF that] that by (simp add: mem_move_def)
    have old: "mem t (fr j + x) = mem s (fr j + x)" if "j < k" "x < 4096" for j x
    proof (rule other)
      have f: "fr j \<in> P" "fr j \<notin> set ps" "fr j \<notin> pt_pages (mem s) d" using c that(1) by auto
      then have "fr j \<notin> insert q (pt_pages (mem s) d \<union> set us)" using e(1) by (auto simp: ps)
      then show "pg (fr j + x) \<notin> pg ` (insert q (pt_pages (mem s) d \<union> set us))"
        using apart [OF f(1), of "insert q (pt_pages (mem s) d \<union> set us)"] sub(1) q(6) pg_offset [OF aligned [OF f(1)] that(2)] by auto
    qed
    show ?thesis unfolding copied_def
    proof (intro conjI allI impI)
      show "set ps' \<union> pt_pages (mem t) d \<subseteq> P" using c e by (auto simp: ps)
      show "mem t x = m x" if "pg x \<notin> pg ` P" for x using other [of x] that sub(1) q(6) c by (auto simp: image_iff)
      have "\<forall>j < k. fr j \<noteq> q" using c by (auto simp: ps image_subset_iff)
      then show "inj_on (fr(k := q)) {..<Suc k}" using c by (auto simp: inj_on_def less_Suc_eq)
      show "(fr(k := q)) ` {..<Suc k} \<subseteq> P - set ps' - pt_pages (mem t) d" using c q e by (auto simp: ps less_Suc_eq image_subset_iff)
      fix v
      have i: "page_of m p v = page_of m p ?i" "pte m p v = ?e" if "pg v = k" using pte_page [of v ?i] that k(2) by (simp_all add: page_of_def)
      show "mem t ((fr(k := q)) (pg v) + x) = m (page_of m p v + x)" if "pg v < Suc k" "x < 4096" for x
        using c old [of "pg v" x] new [of x] that i by (auto simp: less_Suc_eq)
      show "pte (mem t) d v = (if pg v < Suc k then V2P ((fr(k := q)) (pg v)) OR PTE_FLAGS (pte m p v) OR PTE_P else f v)"
        using c i by (auto simp: t(4) mapped_def less_Suc_eq)
    qed
  qed
  moreover obtain m' f' where "t = ?v\<lparr>mem := m', freelist := f'\<rparr>" using t(2) unfolding extends_def by blast
  then have "\<exists>m f. t = s\<lparr>mem := m, freelist := f\<rparr>" by (intro exI [of _ m'] exI [of _ f']) simp
  ultimately show ?thesis using t(3) by blast
qed

section \<open>All pages\<close>

definition npages :: "uint \<Rightarrow> nat" where
  "npages sz = (unat sz + 4095) div 4096"

lemma page_below: "k < 1048576 \<Longrightarrow> 4096 * of_nat k < sz \<longleftrightarrow> k < npages sz"
proof -
  assume "k < 1048576"
  then have "unat (4096 * of_nat k :: uint) = 4096 * k" by (simp add: unat_word_ariths unat_of_nat)
  then show ?thesis by (auto simp: npages_def word_less_nat_alt)
qed

lemma copy_loop:
  assumes "copied m P p f d k fr s ps" "user_space m P p (npages sz)" "vm_room K s d ps (npages sz - k + c)"
    "dir_range 0 (npages sz) \<subseteq> K" "npages sz \<le> 0x80000" "\<And>v. pg v < 0x80000 \<Longrightarrow> f v = 0" "k \<le> npages sz" "npages sz \<le> k + fuel"
  shows "\<exists>t ps' fr. copyuvm_loop fuel p d (4096 * of_nat k) sz s = Ok d t \<and> copied m P p f d (npages sz) fr t ps' \<and>
    vm_room K t d ps' c \<and> (\<exists>m f. t = s\<lparr>mem := m, freelist := f\<rparr>)"
  using assms(1,3,7,8)
proof (induction fuel arbitrary: k fr s ps)
  case (Suc fuel)
  show ?case
  proof (cases "k < npages sz")
    case True
    then have k: "4096 * of_nat k < sz" "dir_of k \<in> K" "k < 0x80000" "npages sz - k + c = Suc (npages sz - Suc k + c)"
      using page_below [of k sz] assms(4,5) by auto
    from copy_step [OF Suc.prems(1) assms(2) True Suc.prems(2) [unfolded k(4)] k(2,3) assms(6) k(1)] obtain t ps' q where
      t: "\<forall>fuel. copyuvm_loop (Suc fuel) p d (4096 * of_nat k) sz s = copyuvm_loop fuel p d (4096 * of_nat k + PGSIZE) sz t"
        "copied m P p f d (Suc k) (fr(k := q)) t ps'" "vm_room K t d ps' (npages sz - Suc k + c)" "\<exists>m f. t = s\<lparr>mem := m, freelist := f\<rparr>"
      by blast
    have "4096 * of_nat k + PGSIZE = 4096 * of_nat (Suc k)" by (simp add: algebra_simps)
    then have e: "copyuvm_loop (Suc fuel) p d (4096 * of_nat k) sz s = copyuvm_loop fuel p d (4096 * of_nat (Suc k)) sz t"
      unfolding t(1) [rule_format] by (simp only:)
    have "Suc k \<le> npages sz" "npages sz \<le> Suc k + fuel" using True Suc.prems(4) by auto
    from Suc.IH [OF t(2,3) this] obtain u qs fr' where
      u: "copyuvm_loop (Suc fuel) p d (4096 * of_nat k) sz s = Ok d u" "copied m P p f d (npages sz) fr' u qs" "vm_room K u d qs c"
        "\<exists>m f. u = t\<lparr>mem := m, freelist := f\<rparr>" unfolding e by blast
    obtain m1 f1 m2 f2 where "t = s\<lparr>mem := m1, freelist := f1\<rparr>" "u = t\<lparr>mem := m2, freelist := f2\<rparr>" using t(4) u(4) by blast
    then have "\<exists>m f. u = s\<lparr>mem := m, freelist := f\<rparr>" by (intro exI [of _ m2] exI [of _ f2]) simp
    with u show ?thesis by blast
  next
    case False
    then have "k = npages sz" using Suc.prems(3) by simp
    then show ?thesis using Suc.prems(1,2) page_below [of k sz] assms(5)
      by (intro exI [of _ s] exI [of _ ps] exI [of _ fr]) (auto intro!: exI [of _ "mem s"] exI [of _ "freelist s"])
  qed
next
  case 0
  then have "k = npages sz" by simp
  then show ?case using 0(1,2) page_below [of k sz] assms(5)
    by (intro exI [of _ s] exI [of _ ps] exI [of _ fr]) (auto intro!: exI [of _ "mem s"] exI [of _ "freelist s"])
qed

section \<open>Properties\<close>

lemma aligned_and: "page_aligned x \<Longrightarrow> x AND 0xFFF = 0" "page_aligned x \<Longrightarrow> x AND PTE_U = 0"
proof -
  assume "page_aligned x"
  then have "x AND NOT 0xFFF = x" using PGROUNDDOWN_page [of x 0] by (simp add: PGROUNDDOWN_def)
  then show a: "x AND 0xFFF = 0" by (metis bit.conj_cancel_left and.assoc and_zero_eq)
  have "x AND PTE_U = (x AND 0xFFF) AND PTE_U" by (simp only: and.assoc) simp
  also have "\<dots> = 0" unfolding a by simp
  finally show "x AND PTE_U = 0" .
qed

lemma copied_flags:
  assumes "page_aligned x" "e AND PTE_P \<noteq> 0"
  shows "PTE_FLAGS (x OR PTE_FLAGS e OR PTE_P) = PTE_FLAGS e" "PTE_ADDR (x OR PTE_FLAGS e OR PTE_P) = x"
proof -
  have "bit e 0" using assms(2) by (simp add: and_one_eq odd_iff_mod_2_eq_one bit_0)
  then have f: "PTE_FLAGS e OR PTE_P = PTE_FLAGS e"
    unfolding PTE_FLAGS_def by (intro bit_word_eqI) (auto simp: bit_or_iff bit_and_iff bit_1_iff)
  then show "PTE_FLAGS (x OR PTE_FLAGS e OR PTE_P) = PTE_FLAGS e"
    using aligned_and(1) [OF assms(1)] by (simp add: or.assoc) (simp add: PTE_FLAGS_def bit.conj_disj_distrib2 and.assoc)
  have "PTE_FLAGS e = take_bit 12 e" by (simp add: PTE_FLAGS_def take_bit_eq_mask mask_eq_exp_minus_1)
  then have "unat (PTE_FLAGS e) < 4096" by (simp add: take_bit_eq_mod unat_mod_distrib)
  then show "PTE_ADDR (x OR PTE_FLAGS e OR PTE_P) = x"
    using PTE_ADDR_or [OF assms(1), of "PTE_FLAGS e"] f by (simp add: or.assoc word_less_nat_alt)
qed

text \<open>
  C13: \<open>setupkvm\<close> builds the kernel's address space. With 65 free pages it returns the first of
  them as page directory; every page of physical memory is mapped at its kernel address, the
  kernel text read-only and everything else writable, the device space is mapped onto itself,
  nothing else is mapped and nothing is accessible to user code; only pages that were free
  have changed and exactly 65 of them are used.
\<close>

theorem setupkvm_correct:
  assumes "kmem_inv s ps" "65 \<le> length ps" "page_aligned (kdata s)" "KERNBASE + EXTMEM < kdata s" "kdata s < P2V PHYSTOP"
  shows "\<exists>d t. setupkvm s = Ok d t \<and> d = hd ps \<and> vm_inv t d (drop 65 ps) \<and> pte (mem t) d = kernel_pte (kdata s) \<and>
    (\<forall>v. pte (mem t) d v AND PTE_U = 0) \<and> (\<forall>x. pg x \<notin> pg ` set ps \<longrightarrow> mem t x = mem s x)"
proof -
  from setupkvm_spec [OF assms] obtain t qs us where
    t: "setupkvm s = Ok (hd ps) t" "vm_room kdirs t (hd ps) qs (length ps - 65)" "ps = hd ps # us @ qs" "pte (mem t) (hd ps) = kernel_pte (kdata s)"
      "dirs (mem t) (hd ps) = kdirs" "\<forall>x. pg x \<notin> pg ` insert (hd ps) (set us) \<longrightarrow> mem t x = mem s x"
    by blast
  have "length qs = length ps - 65" using t(2,5) by (simp add: vm_room_def)
  then have "qs = drop 65 ps" using t(3) assms(2) by (metis append_Cons append_eq_conv_conj diff_diff_cancel length_append add_diff_cancel_right')
  moreover have "kernel_pte (kdata s) v AND PTE_U = 0" for v
    using aligned_and(2) [OF PGROUNDDOWN_aligned [of v]] aligned_and(2) [of "V2P (PGROUNDDOWN v)"]
    by (simp add: kernel_pte_def bit.conj_disj_distrib2)
  moreover have "mem t x = mem s x" if "pg x \<notin> pg ` set ps" for x
    using t(6) that t(3) by (metis (no_types, lifting) image_mono in_mono insert_subset list.set_intros(1) set_append set_subset_Cons sup.bounded_iff)
  ultimately show ?thesis using t(1,2,4) by (auto simp: vm_room_def)
qed

text \<open>
  C10: \<open>copyuvm\<close> gives a forked process a copy of its parent's memory. If the first pages of the
  parent's space up to \<open>sz\<close> are mapped and not free, and there are free pages for the copy and
  its page tables, \<open>copyuvm\<close> returns a page directory in which every address below \<open>sz\<close> has the
  same byte and the same permissions as in the parent, in pages that were free and that no two
  addresses in different pages share; above is the kernel part and nothing else. Only
  pages that were free change, so the parent keeps its memory.
\<close>

theorem copyuvm_correct:
  assumes "kmem_inv s ps" "page_aligned (kdata s)" "KERNBASE + EXTMEM < kdata s" "kdata s < P2V PHYSTOP"
    "pt_inv (mem s) p" "pt_pages (mem s) p \<inter> set ps = {}" "sz \<le> KERNBASE"
    "\<forall>v. pg v < npages sz \<longrightarrow> pte (mem s) p v AND PTE_P \<noteq> 0 \<and> page_of (mem s) p v \<notin> set ps"
    "65 + npages sz + (npages sz + 1023) div 1024 \<le> length ps"
  shows "\<exists>d t ps'. copyuvm p sz s = Ok d t \<and> d \<noteq> 0 \<and> vm_inv t d ps' \<and>
    (\<forall>v < sz. user_byte (mem t) d v = user_byte (mem s) p v \<and> PTE_FLAGS (pte (mem t) d v) = PTE_FLAGS (pte (mem s) p v) \<and>
       page_of (mem t) d v \<in> set ps - set ps' - pt_pages (mem t) d \<and>
       (\<forall>u < sz. page_of (mem t) d u = page_of (mem t) d v \<longrightarrow> pg u = pg v)) \<and>
    (\<forall>v. npages sz \<le> pg v \<longrightarrow> pte (mem t) d v = kernel_pte (kdata s) v) \<and>
    (\<forall>x. pg x \<notin> pg ` set ps \<longrightarrow> mem t x = mem s x)"
proof -
  let ?N = "npages sz" and ?K = "kdirs \<union> dir_range 0 (npages sz)"
  have N: "?N \<le> 0x80000" using assms(7) by (simp add: npages_def word_le_nat_alt)
  have al: "\<forall>q \<in> set ps. page_aligned q" using assms(1) by (auto simp: kmem_inv_def kpage_def)
  from setupkvm_spec [OF assms(1) _ assms(2-4)] assms(9) obtain s1 qs us where
    1: "setupkvm s = Ok (hd ps) s1" "\<exists>m f. s1 = s\<lparr>mem := m, freelist := f\<rparr>" "vm_room kdirs s1 (hd ps) qs (length ps - 65)"
      "ps = hd ps # us @ qs" "pt_pages (mem s1) (hd ps) = insert (hd ps) (set us)" "pte (mem s1) (hd ps) = kernel_pte (kdata s)"
      "dirs (mem s1) (hd ps) = kdirs" "\<forall>x. pg x \<notin> pg ` insert (hd ps) (set us) \<longrightarrow> mem s1 x = mem s x"
    by (metis (no_types, lifting) add_leD1)
  let ?d = "hd ps"
  have "card (dir_range 0 ?N) \<le> card {..<(?N + 1023) div 1024}"
    unfolding dir_range_div by (rule order_trans [OF card_image_le card_mono]) auto
  then have K: "card ?K \<le> 64 + (?N + 1023) div 1024" using card_Un_le [of kdirs "dir_range 0 ?N"] by (simp add: card_kdirs)
  have "length qs = length ps - 65" using 1(3,7) by (simp add: vm_room_def)
  then have c: "vm_room ?K s1 ?d qs (?N - 0 + (length qs + 64 - ?N - card ?K))" using 1(3,7) K assms(9) by (simp add: vm_room_def card_kdirs)
  have "set qs \<union> insert ?d (set us) = set ps" using 1(4) by (metis Un_insert_right list.simps(15) set_append sup_commute)
  then have sub: "set qs \<subseteq> set ps" "insert ?d (set us) \<subseteq> set ps" by auto
  have i: "copied (mem s) (set ps) p (kernel_pte (kdata s)) ?d 0 (\<lambda>_. 0) s1 qs"
  proof -
    have "\<forall>x. pg x \<notin> pg ` set ps \<longrightarrow> mem s1 x = mem s x" using 1(8) image_mono [OF sub(2), of pg] by (meson subsetD)
    then show ?thesis using sub by (simp add: copied_def 1(5,6))
  qed
  have u: "user_space (mem s) (set ps) p ?N" using assms(5,6,8) al by (simp add: user_space_def)
  have f: "kernel_pte (kdata s) v = 0" if "pg v < 0x80000" for v
    using that below_page [of "0x80000000" v] by (simp add: kernel_pte_def page_aligned_def pg_def [of "numeral _"])
  have fuel: "?N \<le> 0 + Suc (unat sz div 4096)" by (simp add: npages_def)
  from copy_loop [OF i u c _ N f _ fuel] obtain t ps' fr where
    t: "copyuvm_loop (Suc (unat sz div 4096)) p ?d 0 sz s1 = Ok ?d t" "copied (mem s) (set ps) p (kernel_pte (kdata s)) ?d ?N fr t ps'"
      "vm_inv t ?d ps'" by (auto simp: vm_room_def)
  note cp = t(2) [unfolded copied_def]
  have below: "pg v < ?N" if "v < sz" for v using that by (auto simp: pg_def npages_def word_less_nat_alt)
  have page: "page_of (mem t) ?d v = fr (pg v)" "PTE_FLAGS (pte (mem t) ?d v) = PTE_FLAGS (pte (mem s) p v)" "fr (pg v) \<in> set ps - set ps' - pt_pages (mem t) ?d"
    if "v < sz" for v
  proof -
    show f: "fr (pg v) \<in> set ps - set ps' - pt_pages (mem t) ?d" using cp below [OF that] by auto
    have "pte (mem t) ?d v = V2P (fr (pg v)) OR PTE_FLAGS (pte (mem s) p v) OR PTE_P" using cp below [OF that] by auto
    moreover have "page_aligned (V2P (fr (pg v)))" "pte (mem s) p v AND PTE_P \<noteq> 0" using f al assms(8) below [OF that] by auto
    ultimately show "page_of (mem t) ?d v = fr (pg v)" "PTE_FLAGS (pte (mem t) ?d v) = PTE_FLAGS (pte (mem s) p v)"
      using copied_flags by (simp_all add: page_of_def P2V_def V2P_def)
  qed
  have "user_byte (mem t) ?d v = user_byte (mem s) p v" if "v < sz" for v
    unfolding user_byte_def page(1) [OF that] using cp below [OF that] PGROUNDDOWN_offset [of v] by auto
  moreover have "pg u = pg v" if "u < sz" "v < sz" "fr (pg u) = fr (pg v)" for u v
    using cp below [OF that(1)] below [OF that(2)] that(3) by (auto simp: inj_on_def)
  moreover have "copyuvm p sz s = Ok ?d t" "?d \<noteq> 0" using 1(1,4) t(1) assms(1) kpage_nz
    by (auto simp: copyuvm_def kmem_inv_def simp del: copyuvm_loop.simps)
  ultimately show ?thesis using t(3) page cp by - (rule exI [of _ ?d], rule exI [of _ t], rule exI [of _ ps'], simp)
qed

section \<open>Witnesses\<close>

text \<open>Memory given by its words, page by page.\<close>

definition words_mem :: "(nat \<Rightarrow> nat \<Rightarrow> uint) \<Rightarrow> memory" where
  "words_mem w a = byte_of (w (pg a) (unat a mod 4096 div 4)) (unat a mod 4)"

lemma load32_words:
  assumes "page_aligned p" "i < 1024"
  shows "load32 (words_mem w) (p + 4 * i) = w (pg p) (unat i)"
proof -
  obtain q where q: "unat p = 4096 * q" using assms(1) by (auto simp: page_aligned_dvd)
  have i: "unat i < 1024" using assms(2) by (simp add: word_less_nat_alt)
  have "words_mem w (p + 4 * i + of_nat k) = byte_of (w (pg p) (unat i)) k" if "k < 4" for k
  proof -
    have o: "unat (4 * i + of_nat k) = 4 * unat i + k" using i that by (simp add: unat_word_ariths unat_of_nat)
    then have l: "4 * i + of_nat k < 4096" using i that by (simp add: word_less_nat_alt)
    have "unat (p + 4 * i + of_nat k) = 4096 * q + (4 * unat i + k)" using page_offset_unat [OF assms(1) l] o q by (simp add: add.assoc)
    moreover have "pg (p + 4 * i + of_nat k) = pg p" using pg_offset [OF assms(1) l] by (simp add: add.assoc)
    moreover have "(4096 * q + (4 * unat i + k)) mod 4096 = 4 * unat i + k" using i that by simp
    moreover have "4096 * q + (4 * unat i + k) = k + 4 * (1024 * q + unat i)" by simp
    then have "(4096 * q + (4 * unat i + k)) mod 4 = k" using that by (simp only: mod_mult_self2 mod_less)
    ultimately show ?thesis using that by (simp add: words_mem_def)
  qed
  from this [of 0] this [of 1] this [of 2] this [of 3] show ?thesis by (simp add: load32_def)
qed

text \<open>
  128 free pages from 0x80400000 on; a page directory at 0x80300000 with a table in the next
  page, which maps the first two user pages to the two pages after it.
\<close>

definition ex_words :: "nat \<Rightarrow> nat \<Rightarrow> uint" where
  "ex_words j i =
     (if i = 0 \<and> 0x80400 \<le> j \<and> j < 0x8047F then 4096 * of_nat (Suc j)
      else if j = 0x80300 \<and> i = 0 then 0x301007
      else if j = 0x80301 \<and> i = 0 then 0x302007
      else if j = 0x80301 \<and> i = 1 then 0x303007 else 0)"

definition ex_vm :: vm_st where
  "ex_vm = \<lparr>mem = words_mem ex_words, freelist = 0x80400000, use_lock = True, kend = 0x80110000,
     kpgdir = 0, kdata = 0x80108000, cr3 = 0, esp0 = 0\<rparr>"

definition ex_free :: "uint list" where
  "ex_free = map (\<lambda>j. 4096 * of_nat j) [0x80400..<0x80480]"

lemma ex_free_list:
  assumes "n \<le> 127"
  shows "free_list (words_mem ex_words) (4096 * of_nat (0x8047F - n)) (map (\<lambda>j. 4096 * of_nat j) [0x8047F - n..<0x80480])"
  using assms
proof (induction n)
  case 0
  have "load32 (words_mem ex_words) (0x8047F000 + 4 * 0) = 0" by (subst load32_words) (simp_all add: page_aligned_def ex_words_def pg_def)
  then show ?case by (simp add: upt_rec)
next
  case (Suc n)
  define j where "j = 0x8047F - Suc n"
  have j: "0x80400 \<le> j" "j < 0x8047F" "0x8047F - n = Suc j" using Suc.prems by (auto simp: j_def)
  have "load32 (words_mem ex_words) (4096 * of_nat j + 4 * 0) = 4096 * of_nat (Suc j)"
    using j page_number [of j] by (subst load32_words) (simp_all add: ex_words_def)
  moreover have "4096 * of_nat j \<noteq> (0 :: uint)" using page_number(2) [of j] j by (auto simp: pg_def)
  moreover have "[j..<0x80480] = j # [Suc j..<0x80480]" using j by (simp add: upt_conv_Cons)
  ultimately show ?case using Suc unfolding j(3) j_def [symmetric] by simp
qed

lemma ex_vm_kmem: "kmem_inv ex_vm ex_free"
proof -
  have "free_list (words_mem ex_words) 0x80400000 ex_free" using ex_free_list [of 127] by (simp add: ex_free_def del: upt_rec_numeral)
  moreover have "inj_on (\<lambda>j. 4096 * of_nat j :: uint) {0x80400..<0x80480}"
  proof (rule inj_onI)
    fix i j :: nat assume a: "i \<in> {0x80400..<0x80480}" "j \<in> {0x80400..<0x80480}" "4096 * of_nat i = (4096 * of_nat j :: uint)"
    from a(1,2) have "i < 1048576" "j < 1048576" unfolding atLeastLessThan_iff by linarith+
    then have "pg (4096 * of_nat i) = i" "pg (4096 * of_nat j) = j" by (simp_all only: page_number(2))
    then show "i = j" unfolding a(3) by (simp only:)
  qed
  moreover have "kpage ex_vm (4096 * of_nat j)" if "0x80400 \<le> j" "j < 0x80480" for j
  proof -
    have u: "unat (4096 * of_nat j :: uint) = 4096 * j" using that by (simp add: unat_word_ariths unat_of_nat)
    then have "unat (4096 * of_nat j - 0x80000000 :: uint) = 4096 * j - 0x80000000" using that by (simp add: unat_sub word_le_nat_alt)
    then show ?thesis using that u page_number(1) [of j] by (simp add: kpage_def ex_vm_def V2P_def word_le_nat_alt word_less_nat_alt)
  qed
  ultimately show ?thesis by (auto simp: kmem_inv_def ex_free_def ex_vm_def distinct_map simp del: upt_rec_numeral)
qed

theorem setupkvm_correct_witness:
  "\<exists>t. setupkvm ex_vm = Ok 0x80400000 t \<and> pte (mem t) 0x80400000 0x80105ABC = 0x105001 \<and> pte (mem t) 0x80400000 0xFEE00000 = 0xFEE00003"
proof -
  have "hd ex_free = 0x80400000" "length ex_free = 128" by (simp_all add: ex_free_def hd_map del: upt_rec_numeral)
  then show ?thesis using setupkvm_correct [OF ex_vm_kmem]
    by (auto simp: ex_vm_def page_aligned_def P2V_def kernel_pte_def V2P_def PGROUNDDOWN_def)
qed

lemma ex_pde: "pde (words_mem ex_words) 0x80300000 v = (if PDX v = 0 then 0x301007 else 0)"
  unfolding pde_def by (subst load32_words [OF _ index_less(1)]) (auto simp: page_aligned_def pg_def [of "numeral _"] ex_words_def unat_eq_0)

lemma ex_pt: "pt_at (words_mem ex_words) 0x80300000 v = 0x80301000" if "PDX v = 0"
  using that by (simp add: pt_at_def ex_pde PTE_ADDR_def P2V_def)

lemma ex_pte:
  "pte (words_mem ex_words) 0x80300000 v = (if pg v = 0 then 0x302007 else if pg v = 1 then 0x303007 else 0)"
proof (cases "PDX v = 0")
  case True
  then have d: "pg v div 1024 = 0" using PDX_unat [of v] by simp
  have "load32 (words_mem ex_words) (0x80301000 + 4 * PTX v) = ex_words 0x80301 (pg v mod 1024)"
    by (subst load32_words [OF _ index_less(2)]) (simp_all add: page_aligned_def pg_def [of "numeral _"] PTX_unat)
  then show ?thesis using True d by (simp add: pte_def ex_pde ex_pt ex_words_def)
next
  case False
  then have "pg v div 1024 \<noteq> 0" using PDX_unat [of v] by (simp add: unat_eq_0 [symmetric])
  then have "pg v \<noteq> 0" "pg v \<noteq> 1" by auto
  then show ?thesis using False by (simp add: pte_def ex_pde)
qed

lemma ex_npages: "npages 0x1800 = 2"
  by (simp add: npages_def)

lemma ex_not_free: "pg p < 0x80400 \<Longrightarrow> p \<notin> set ex_free"
proof
  assume a: "pg p < 0x80400" "p \<in> set ex_free"
  then obtain j where "p = 4096 * of_nat j" "0x80400 \<le> j" "j < 0x80480" unfolding ex_free_def set_map set_upt by auto
  then show False using a(1) page_number(2) [of j] by simp
qed

lemma ex_page_of: "pg v < 2 \<Longrightarrow> page_of (mem ex_vm) 0x80300000 v = (if pg v = 0 then 0x80302000 else 0x80303000)"
  by (auto simp: ex_vm_def page_of_def ex_pte PTE_ADDR_def P2V_def)

lemma ex_space:
  "pt_inv (mem ex_vm) 0x80300000" "pt_pages (mem ex_vm) 0x80300000 \<subseteq> {0x80300000, 0x80301000}"
  "pt_pages (mem ex_vm) 0x80300000 \<inter> set ex_free = {}"
  "\<forall>v. pg v < 2 \<longrightarrow> pte (mem ex_vm) 0x80300000 v AND PTE_P \<noteq> 0 \<and> page_of (mem ex_vm) 0x80300000 v \<notin> set ex_free"
proof -
  show "pt_inv (mem ex_vm) 0x80300000" by (auto simp: pt_inv_def ex_vm_def ex_pde ex_pt page_aligned_def)
  show p: "pt_pages (mem ex_vm) 0x80300000 \<subseteq> {0x80300000, 0x80301000}" by (auto simp: pt_pages_def ex_vm_def ex_pde ex_pt split: if_splits)
  have "0x80300000 \<notin> set ex_free" "0x80301000 \<notin> set ex_free" using ex_not_free by (auto simp: pg_def)
  then show "pt_pages (mem ex_vm) 0x80300000 \<inter> set ex_free = {}" using p by blast
  have "0x80302000 \<notin> set ex_free" "0x80303000 \<notin> set ex_free" using ex_not_free by (auto simp: pg_def)
  then show "\<forall>v. pg v < 2 \<longrightarrow> pte (mem ex_vm) 0x80300000 v AND PTE_P \<noteq> 0 \<and> page_of (mem ex_vm) 0x80300000 v \<notin> set ex_free"
    using ex_page_of by (auto simp: ex_vm_def ex_pte)
qed

lemma ex_free_length: "length ex_free = 128"
  by (simp add: ex_free_def del: upt_rec_numeral)

theorem copyuvm_correct_witness:
  "\<exists>d t. copyuvm 0x80300000 0x1800 ex_vm = Ok d t \<and> user_byte (mem t) d 0x1234 = user_byte (mem ex_vm) 0x80300000 0x1234 \<and>
     page_of (mem t) d 0x1234 \<noteq> page_of (mem ex_vm) 0x80300000 0x1234"
proof -
  obtain d t where t: "copyuvm 0x80300000 0x1800 ex_vm = Ok d t" "\<forall>v < 0x1800. user_byte (mem t) d v = user_byte (mem ex_vm) 0x80300000 v"
    "\<forall>v < 0x1800. page_of (mem t) d v \<in> set ex_free"
    using copyuvm_correct [OF ex_vm_kmem _ _ _ ex_space(1,3), of "0x1800"] ex_space(4)
    by (auto simp: ex_npages ex_vm_def page_aligned_def P2V_def ex_free_length)
  have "page_of (mem t) d 0x1234 \<in> set ex_free" using t(3) by simp
  then have "page_of (mem t) d 0x1234 \<noteq> page_of (mem ex_vm) 0x80300000 0x1234"
    using ex_not_free [of "0x80303000"] ex_page_of [of "0x1234"] by (auto simp: pg_def)
  then show ?thesis using t(1,2) by auto
qed

end
