(* ===== verification/UserGrow.thy ===== *)
theory UserGrow
  imports UserCopy
begin

text \<open>
  Growing and shrinking a process's memory, vm.c \<open>allocuvm\<close> and \<open>deallocuvm\<close>, including the way
  back when memory runs out.
\<close>

section \<open>The user part of an address space\<close>

text \<open>
  The pages \<open>M\<close> below KERNBASE are mapped, each to a page of its own that is neither free nor a
  page table, and no others.
\<close>

definition uspace :: "'z kmem_st_scheme \<Rightarrow> uint \<Rightarrow> nat set \<Rightarrow> uint list \<Rightarrow> bool" where
  "uspace s d M ps \<longleftrightarrow> vm_inv s d ps \<and> KERNBASE < kend s \<and> M \<subseteq> {..<0x80000} \<and>
     (\<forall>v. pg v \<in> M \<longrightarrow> pte (mem s) d v AND PTE_P \<noteq> 0 \<and> kpage s (page_of (mem s) d v) \<and>
        page_of (mem s) d v \<notin> set ps \<union> pt_pages (mem s) d \<and> (\<forall>u. pg u \<in> M \<longrightarrow> page_of (mem s) d u = page_of (mem s) d v \<longrightarrow> pg u = pg v)) \<and>
     (\<forall>v. pg v < 0x80000 \<longrightarrow> pg v \<notin> M \<longrightarrow> pte (mem s) d v = 0)"

text \<open>The pages \<open>M\<close> keep their entries and their bytes.\<close>

definition keeps_user :: "uint \<Rightarrow> nat set \<Rightarrow> 'z kmem_st_scheme \<Rightarrow> 'z kmem_st_scheme \<Rightarrow> bool" where
  "keeps_user d M s t \<longleftrightarrow> (\<exists>m f. t = s\<lparr>mem := m, freelist := f\<rparr>) \<and>
     (\<forall>v. pg v \<in> M \<longrightarrow> pte (mem t) d v = pte (mem s) d v \<and> user_byte (mem t) d v = user_byte (mem s) d v)"

lemma keeps_refl: "keeps_user d M s s"
  by (auto simp: keeps_user_def intro!: exI [of _ "mem s"] exI [of _ "freelist s"])

lemma keeps_trans:
  assumes "keeps_user d M s t" "keeps_user d N t u" "A \<subseteq> M" "A \<subseteq> N"
  shows "keeps_user d A s u"
proof -
  obtain m f m' f' where "t = s\<lparr>mem := m, freelist := f\<rparr>" "u = t\<lparr>mem := m', freelist := f'\<rparr>"
    using assms unfolding keeps_user_def by blast
  then have "u = s\<lparr>mem := m', freelist := f'\<rparr>" by simp
  moreover have "\<forall>v. pg v \<in> A \<longrightarrow> pte (mem u) d v = pte (mem s) d v \<and> user_byte (mem u) d v = user_byte (mem s) d v"
    using assms unfolding keeps_user_def by (metis subsetD)
  ultimately show ?thesis unfolding keeps_user_def by blast
qed

lemma keeps_user_kend: "keeps_user d M s t \<Longrightarrow> kend t = kend s"
  by (auto simp: keeps_user_def)

lemma keeps_from_frame:
  assumes "\<exists>m f. t = s\<lparr>mem := m, freelist := f\<rparr>" "\<And>v. pg v \<in> M \<Longrightarrow> pte (mem t) d v = pte (mem s) d v"
    "\<And>v x. pg v \<in> M \<Longrightarrow> pg x = pg (page_of (mem s) d v) \<Longrightarrow> mem t x = mem s x"
  shows "keeps_user d M s t"
proof -
  have "user_byte (mem t) d v = user_byte (mem s) d v" if "pg v \<in> M" for v
  proof -
    have "page_of (mem t) d v = page_of (mem s) d v" using assms(2) [OF that] by (simp add: page_of_def)
    moreover have "pg (page_of (mem s) d v + (v - PGROUNDDOWN v)) = pg (page_of (mem s) d v)"
      by (rule pg_offset [OF page_of_aligned PGROUNDDOWN_offset])
    ultimately show ?thesis using assms(3) [OF that] by (simp add: user_byte_def)
  qed
  then show ?thesis using assms(1,2) by (simp add: keeps_user_def)
qed

section \<open>Unmapping a page\<close>

lemma unmap_page:
  assumes "uspace s d M ps" "pg v \<in> M" "p = page_of (mem s) d v"
  shows "\<exists>u. kfree p s = Ok () u \<and> (let t = u\<lparr>mem := store32 (mem u) (pt_at (mem s) d v + 4 * PTX v) 0\<rparr> in
    uspace t d (M - {pg v}) (p # ps) \<and> keeps_user d (M - {pg v}) s t \<and> pt_pages (mem t) d = pt_pages (mem s) d)"
proof -
  have inv: "kmem_inv s ps" "pt_inv (mem s) d" "pt_pages (mem s) d \<inter> set ps = {}" using assms(1) by (simp_all add: uspace_def vm_inv_def)
  have p: "kpage s p" "p \<notin> set ps" "p \<notin> pt_pages (mem s) d" "page_aligned p" "pte (mem s) d v AND PTE_P \<noteq> 0"
    using assms by (auto simp: uspace_def kpage_def)
  have d: "page_aligned d" "PDX v \<in> dirs (mem s) d" using inv(2) pte_present_dirs [OF p(5)] by (auto simp: pt_inv_def)
  from kfree_inv [OF inv(1) p(1,2)] obtain u where
    u: "kfree p s = Ok () u" "kmem_inv u (p # ps)" "kend u = kend s" "\<forall>x. pg x \<noteq> pg p \<longrightarrow> mem u x = mem s x" by auto
  have uf: "\<exists>m f. u = s\<lparr>mem := m, freelist := f\<rparr>" using u(1) by (auto simp: kfree_def Let_def split: if_splits)
  have "mem u x = mem s x" if "pg x \<in> pg ` pt_pages (mem s) d" for x
  proof -
    from that obtain q where "q \<in> pt_pages (mem s) d" "pg x = pg q" by auto
    then show ?thesis using u(4) p(3,4) pt_pages_aligned [OF inv(2)] pg_inj by metis
  qed
  then have e: "pde (mem u) d w = pde (mem s) d w" "pte (mem u) d w = pte (mem s) d w" for w
    using pt_frame [OF d(1), of "mem s" "mem u"] by auto
  note i = pt_frame_inv [of "mem u" d "mem s", OF e(1)]
  have uinv: "vm_inv u d (p # ps)" using u(2) i inv p(3) by (auto simp: vm_inv_def)
  let ?t = "u\<lparr>mem := store32 (mem u) (pt_at (mem s) d v + 4 * PTX v) 0\<rparr>"
  have dirs: "PDX v \<in> dirs (mem u) d" using d(2) i(3) by simp
  have ex: "extends d u (p # ps) ?t (p # ps) []" and pt: "pte (mem ?t) d w = (if pg w = pg v then 0 else pte (mem s) d w)" for w
    using set_extends [OF uinv dirs, of ?t 0] i(4) e(2) by auto
  have pages: "pt_pages (mem ?t) d = pt_pages (mem s) d" and tinv: "vm_inv ?t d (p # ps)" using ex i(2) by (auto simp: extends_def)
  have out: "\<And>x. pg x \<notin> pg ` pt_pages (mem s) d \<Longrightarrow> mem ?t x = mem u x" using ex i(2) by (simp add: extends_def)
  obtain m f where "u = s\<lparr>mem := m, freelist := f\<rparr>" using uf by blast
  then have tf: "\<exists>m f. ?t = s\<lparr>mem := m, freelist := f\<rparr>"
    by (intro exI [of _ "store32 (mem u) (pt_at (mem s) d v + 4 * PTX v) 0"] exI [of _ f]) simp
  have old: "mem ?t x = mem s x" if w: "pg w \<in> M - {pg v}" "pg x = pg (page_of (mem s) d w)" for w x
  proof -
    have a: "page_of (mem s) d w \<noteq> p" "page_of (mem s) d w \<notin> pt_pages (mem s) d" using assms w by (auto simp: uspace_def)
    then have "pg x \<noteq> pg p" using pg_inj p(4) w(2) by simp
    moreover have "pg x \<notin> pg ` pt_pages (mem s) d" using a(2) w(2) pg_inj pt_pages_aligned [OF inv(2)] page_of_aligned by (metis imageE)
    ultimately show ?thesis using out u(4) by simp
  qed
  have k: "keeps_user d (M - {pg v}) s ?t" by (rule keeps_from_frame [OF tf]) (use pt old in auto)
  have po: "page_of (mem ?t) d w = page_of (mem s) d w" if "pg w \<noteq> pg v" for w using pt [of w] that unfolding page_of_def by simp
  have kp: "kpage ?t w = kpage s w" for w using u(3) by (simp add: kpage_def)
  have ke: "kend ?t = kend s" using u(3) by simp
  have "uspace ?t d (M - {pg v}) (p # ps)"
    unfolding uspace_def pages kp ke pt using assms tinv po unfolding uspace_def by auto
  then show ?thesis using u(1) k pages by (intro exI [of _ u]) (simp only: Let_def simp_thms)
qed

section \<open>Shrinking\<close>

lemma next_dir:
  assumes "k < 0x80000"
  shows "PGADDR (PDX (4096 * of_nat k) + 1) 0 0 - PGSIZE + PGSIZE = 4096 * of_nat (1024 * (k div 1024 + 1))"
proof -
  have "unat (PDX (4096 * of_nat k)) = k div 1024" using page_number(2) [of k] assms by (simp add: PDX_unat)
  then have "PDX (4096 * of_nat k) = of_nat (k div 1024)" by (simp add: word_unat_eq_iff unat_of_nat32 order.strict_trans1 [OF div_le_dividend] assms [THEN order.strict_trans])
  then show ?thesis by (simp add: PGADDR_def push_bit_eq_mult algebra_simps)
qed

lemma absent_dir:
  assumes "uspace s d M ps" "PDX v \<notin> dirs (mem s) d" "pg u div 1024 = pg v div 1024"
  shows "pg u \<notin> M"
proof
  assume "pg u \<in> M"
  then have "pte (mem s) d u AND PTE_P \<noteq> 0" using assms(1) by (auto simp: uspace_def)
  then have "PDX u \<in> dirs (mem s) d" by (rule pte_present_dirs)
  moreover have "PDX u = PDX v" using assms(3) by (simp add: word_unat_eq_iff PDX_unat)
  ultimately show False using assms(2) by simp
qed

lemma page_exists: "k < 1048576 \<Longrightarrow> \<exists>v. pg v = k"
  using page_number(2) by blast

lemma entry_present:
  assumes "uspace s d M ps" "PDX v \<in> dirs (mem s) d"
  shows "walkpgdir d v alloc s = Ok (pt_at (mem s) d v + 4 * PTX v) s" "pt_at (mem s) d v + 4 * PTX v \<noteq> 0"
    "load32 (mem s) (pt_at (mem s) d v + 4 * PTX v) = pte (mem s) d v"
proof -
  show "walkpgdir d v alloc s = Ok (pt_at (mem s) d v + 4 * PTX v) s" by (rule walk_present [OF assms(2)])
  have "pt_at (mem s) d v \<noteq> 0" using assms by (auto simp: uspace_def vm_inv_def pt_inv_def in_dirs)
  then show "pt_at (mem s) d v + 4 * PTX v \<noteq> 0" by (rule entry_nonzero [OF pt_at_aligned _ index_less(2)])
  show "load32 (mem s) (pt_at (mem s) d v + 4 * PTX v) = pte (mem s) d v" using assms(2) by (simp add: pte_def in_dirs)
qed

lemma dealloc_loop:
  assumes "uspace s d M ps" "npages oldsz \<le> 0x80000" "npages oldsz \<le> k + fuel" "k \<le> 0x80000"
  shows "\<exists>t qs. deallocuvm_loop fuel d (4096 * of_nat k) oldsz s = Ok () t \<and> uspace t d (M - {k..<npages oldsz}) (qs @ ps) \<and>
    keeps_user d (M - {k..<npages oldsz}) s t \<and> pt_pages (mem t) d = pt_pages (mem s) d \<and>
    set qs = {page_of (mem s) d v |v. pg v \<in> M \<inter> {k..<npages oldsz}}"
  using assms(1,3,4)
proof (induction fuel arbitrary: k M s ps)
  case 0
  then have "\<not> 4096 * of_nat k < oldsz" using page_below [of k oldsz] by simp
  then show ?case using 0 keeps_refl by (intro exI [of _ s] exI [of _ "[]"]) simp
next
  case (Suc fuel)
  let ?B = "npages oldsz" and ?v = "4096 * of_nat k :: uint"
  show ?case
  proof (cases "k < ?B")
    case False
    then have "\<not> ?v < oldsz" using page_below [of k oldsz] Suc.prems(3) by simp
    then show ?thesis using Suc.prems(1) False keeps_refl by (intro exI [of _ s] exI [of _ "[]"]) simp
  next
    case True
    then have k: "k < 0x80000" "?v < oldsz" "pg ?v = k" using page_below [of k oldsz] assms(2) page_number(2) [of k] by auto
    note us = Suc.prems(1) [unfolded uspace_def]
    have step: "{k..<?B} = insert k {Suc k..<?B}" using True by auto
    consider "PDX ?v \<notin> dirs (mem s) d" | "PDX ?v \<in> dirs (mem s) d" "k \<notin> M" | "PDX ?v \<in> dirs (mem s) d" "k \<in> M" by blast
    then show ?thesis
    proof cases
      case 1
      let ?k = "1024 * (k div 1024 + 1)"
      have kk: "Suc k \<le> ?k" "?k \<le> 0x80000" using k(1) by auto
      have "j \<notin> M" if "k \<le> j" "j < ?k" for j
      proof -
        have "j < 1048576" using that(2) kk(2) by linarith
        then obtain u where "pg u = j" using page_exists by blast
        moreover have "j div 1024 = k div 1024" using that by (metis add.commute div_le_mono le_antisym less_mult_imp_div_less mult.commute plus_1_eq_Suc less_Suc_eq_le)
        ultimately show ?thesis using absent_dir [OF Suc.prems(1) 1, of u] k(3) by simp
      qed
      then have M: "M - {k..<?B} = M - {?k..<?B}" "M \<inter> {k..<?B} = M \<inter> {?k..<?B}" using kk(1) by (auto simp: not_le) (metis Suc_le_eq leI not_le)+
      have "walkpgdir d ?v False s = Ok 0 s" using 1 by (simp add: walkpgdir_def in_dirs pde_def)
      then have "deallocuvm_loop (Suc fuel) d ?v oldsz s = deallocuvm_loop fuel d (4096 * of_nat ?k) oldsz s"
        unfolding deallocuvm_loop.simps(2) next_dir [OF k(1)] using k(2) by simp
      moreover have "?B \<le> ?k + fuel" using kk(1) Suc.prems(2) by simp
      ultimately show ?thesis using Suc.IH [OF Suc.prems(1) _ kk(2)] M by presburger
    next
      case 2
      then have "pte (mem s) d ?v = 0" using us k by simp
      then have "deallocuvm_loop (Suc fuel) d ?v oldsz s = deallocuvm_loop fuel d (4096 * of_nat (Suc k)) oldsz s"
        using entry_present [OF Suc.prems(1) 2(1)] k(2) by (simp add: add.commute)
      moreover have "M - {k..<?B} = M - {Suc k..<?B}" "M \<inter> {k..<?B} = M \<inter> {Suc k..<?B}" using 2(2) step by auto
      moreover have "?B \<le> Suc k + fuel" "Suc k \<le> 0x80000" using Suc.prems(2) k(1) by auto
      ultimately show ?thesis using Suc.IH [OF Suc.prems(1)] by presburger
    next
      case 3
      let ?p = "page_of (mem s) d ?v"
      from unmap_page [OF Suc.prems(1), of ?v] 3(2) k(3) obtain u t where
        t: "kfree ?p s = Ok () u" "t = u\<lparr>mem := store32 (mem u) (pt_at (mem s) d ?v + 4 * PTX ?v) 0\<rparr>"
          "uspace t d (M - {k}) (?p # ps)" "keeps_user d (M - {k}) s t" "pt_pages (mem t) d = pt_pages (mem s) d"
        unfolding Let_def by metis
      have p: "pte (mem s) d ?v AND PTE_P \<noteq> 0" "kpage s ?p" "KERNBASE < kend s" using us 3(2) k(3) by auto
      then have "PTE_ADDR (pte (mem s) d ?v) \<noteq> 0" by (auto simp: page_of_def P2V_def kpage_def)
      then have run: "deallocuvm_loop (Suc fuel) d ?v oldsz s = deallocuvm_loop fuel d (4096 * of_nat (Suc k)) oldsz t"
        using entry_present [OF Suc.prems(1) 3(1)] k(2) p(1) t(1,2) by (simp add: Let_def page_of_def add.commute)
      have "?B \<le> Suc k + fuel" "Suc k \<le> 0x80000" using Suc.prems(2) k(1) by auto
      from Suc.IH [OF t(3) this] obtain w qs where
        w: "deallocuvm_loop fuel d (4096 * of_nat (Suc k)) oldsz t = Ok () w" "uspace w d (M - {k} - {Suc k..<?B}) (qs @ ?p # ps)"
          "keeps_user d (M - {k} - {Suc k..<?B}) t w" "pt_pages (mem w) d = pt_pages (mem t) d"
          "set qs = {page_of (mem t) d v |v. pg v \<in> (M - {k}) \<inter> {Suc k..<?B}}" by blast
      have M: "M - {k} - {Suc k..<?B} = M - {k..<?B}" using step by auto
      have "page_of (mem t) d v = page_of (mem s) d v" if "pg v \<in> M - {k}" for v using t(4) that by (simp add: keeps_user_def page_of_def)
      then have "set qs = {page_of (mem s) d v |v. pg v \<in> (M - {k}) \<inter> {Suc k..<?B}}" unfolding w(5) by fastforce
      moreover have "page_of (mem s) d v = ?p" if "pg v = k" for v using pte_page [of v ?v] that k(3) by (simp add: page_of_def)
      then have "{page_of (mem s) d v |v. pg v = k} = {?p}" using k(3) by blast
      moreover have "M \<inter> {k..<?B} = insert k ((M - {k}) \<inter> {Suc k..<?B})" using 3(2) step by auto
      then have "{page_of (mem s) d v |v. pg v \<in> M \<inter> {k..<?B}} =
        {page_of (mem s) d v |v. pg v = k} \<union> {page_of (mem s) d v |v. pg v \<in> (M - {k}) \<inter> {Suc k..<?B}}" by blast
      ultimately have "set (qs @ [?p]) = {page_of (mem s) d v |v. pg v \<in> M \<inter> {k..<?B}}" by simp
      moreover have "keeps_user d (M - {k..<?B}) s w" by (rule keeps_trans [OF t(4) w(3)]) (use step in auto)
      moreover have "uspace w d (M - {k..<?B}) ((qs @ [?p]) @ ps)" using w(2) unfolding M by simp
      ultimately show ?thesis unfolding run w(1) using w(4) t(5) by blast
    qed
  qed
qed

lemma PGROUNDUP_pages:
  assumes "sz \<le> KERNBASE"
  shows "PGROUNDUP sz = 4096 * of_nat (npages sz)" "npages sz \<le> 0x80000"
proof -
  have u: "unat sz \<le> 0x80000000" using assms by (simp add: word_le_nat_alt)
  then show n: "npages sz \<le> 0x80000" by (simp add: npages_def)
  have "unat (PGROUNDUP sz) = npages sz * 4096" using PGROUNDUP_unat [of sz] u by (simp add: npages_def)
  moreover have "unat (4096 * of_nat (npages sz) :: uint) = npages sz * 4096" using n by (simp add: unat_word_ariths unat_of_nat)
  ultimately show "PGROUNDUP sz = 4096 * of_nat (npages sz)" by (simp add: word_unat_eq_iff)
qed

lemma dealloc_spec:
  assumes "uspace s d M ps" "oldsz \<le> KERNBASE" "newsz < oldsz"
  shows "\<exists>t qs. deallocuvm d oldsz newsz s = Ok newsz t \<and> uspace t d (M - {npages newsz..<npages oldsz}) (qs @ ps) \<and>
    keeps_user d (M - {npages newsz..<npages oldsz}) s t \<and> pt_pages (mem t) d = pt_pages (mem s) d \<and>
    set qs = {page_of (mem s) d v |v. pg v \<in> M \<inter> {npages newsz..<npages oldsz}}"
proof -
  have n: "newsz \<le> KERNBASE" using assms(2,3) by (simp add: word_le_nat_alt word_less_nat_alt)
  have "npages oldsz \<le> npages newsz + Suc (unat oldsz div 4096)" by (simp add: npages_def)
  from dealloc_loop [OF assms(1) PGROUNDUP_pages(2) [OF assms(2)] this PGROUNDUP_pages(2) [OF n]] obtain t qs where
    "deallocuvm_loop (Suc (unat oldsz div 4096)) d (4096 * of_nat (npages newsz)) oldsz s = Ok () t" "uspace t d (M - {npages newsz..<npages oldsz}) (qs @ ps)"
    "keeps_user d (M - {npages newsz..<npages oldsz}) s t" "pt_pages (mem t) d = pt_pages (mem s) d"
    "set qs = {page_of (mem s) d v |v. pg v \<in> M \<inter> {npages newsz..<npages oldsz}}" by blast
  moreover have "\<not> oldsz \<le> newsz" using assms(3) by simp
  ultimately show ?thesis unfolding deallocuvm_def PGROUNDUP_pages(1) [OF n] by (intro exI [of _ t] exI [of _ qs]) (simp del: deallocuvm_loop.simps)
qed

section \<open>Growing\<close>

text \<open>All pages an address space and the allocator have between them.\<close>

definition owned :: "'z kmem_st_scheme \<Rightarrow> uint \<Rightarrow> nat set \<Rightarrow> uint list \<Rightarrow> uint set" where
  "owned s d M ps = set ps \<union> pt_pages (mem s) d \<union> {page_of (mem s) d v |v. pg v \<in> M}"

lemma keeps_page_of: "keeps_user d M s t \<Longrightarrow> pg v \<in> M \<Longrightarrow> page_of (mem t) d v = page_of (mem s) d v"
  by (simp add: keeps_user_def page_of_def)

lemma keeps_pages: "keeps_user d M s t \<Longrightarrow> {page_of (mem t) d v |v. pg v \<in> M} = {page_of (mem s) d v |v. pg v \<in> M}"
  by (metis (no_types, lifting) keeps_page_of)

text \<open>Taking a free page and zeroing it, and giving it back.\<close>

lemma fresh_page:
  assumes "uspace s d M (p # qs)" "t = s\<lparr>freelist := load32 (mem s) p, mem := mem_set (mem s) p 0 PGSIZE\<rparr>"
  shows "kalloc s = Ok p (s\<lparr>freelist := load32 (mem s) p\<rparr>)" "uspace t d M qs" "keeps_user d M s t" "pt_pages (mem t) d = pt_pages (mem s) d"
    "dirs (mem t) d = dirs (mem s) d" "p \<notin> set qs \<union> pt_pages (mem s) d \<union> {page_of (mem s) d v |v. pg v \<in> M}" "kpage s p"
proof -
  have inv: "kmem_inv s (p # qs)" "pt_inv (mem s) d" "pt_pages (mem s) d \<inter> set (p # qs) = {}" using assms(1) by (simp_all add: uspace_def vm_inv_def)
  let ?u = "s\<lparr>freelist := load32 (mem s) p\<rparr>"
  show "kalloc s = Ok p ?u" and u: "kpage s p" using kalloc_inv [OF inv(1)] inv(1) by (auto simp: kmem_inv_def)
  have uinv: "vm_inv ?u d qs" using kalloc_inv [OF inv(1)] inv by (simp add: vm_inv_def)
  show p: "p \<notin> set qs \<union> pt_pages (mem s) d \<union> {page_of (mem s) d v |v. pg v \<in> M}"
    using inv assms(1) by (auto simp: kmem_inv_def uspace_def)
  have al: "page_aligned p" "\<forall>q \<in> set qs. page_aligned q" using inv(1) by (auto simp: kmem_inv_def kpage_def)
  have other: "mem t x = mem s x" if "pg x = pg q" "page_aligned q" "q \<noteq> p" for x q
    using that mem_set_other [OF al(1)] pg_inj [OF _ al(1)] by (simp add: assms(2))
  have m: "mem t x = mem ?u x" if "pg x \<in> pg ` (pt_pages (mem ?u) d \<union> set qs)" for x
    using that p al(2) pt_pages_aligned [OF inv(2)] other by (auto simp del: One_nat_def)
  have f: "vm_inv t d qs" "pt_pages (mem t) d = pt_pages (mem s) d" "pte (mem t) d v = pte (mem s) d v" "dirs (mem t) d = dirs (mem s) d" for v
    using vm_inv_frame [OF uinv, of t, OF _ _ m] by (auto simp: assms(2))
  show "pt_pages (mem t) d = pt_pages (mem s) d" "dirs (mem t) d = dirs (mem s) d" by fact+
  have tf: "\<exists>m f. t = s\<lparr>mem := m, freelist := f\<rparr>" unfolding assms(2)
    by (intro exI [of _ "mem_set (mem s) p 0 PGSIZE"] exI [of _ "load32 (mem s) p"]) simp
  show "keeps_user d M s t" by (rule keeps_from_frame [OF tf f(3)]) (use p other page_of_aligned in blast)
  have po: "page_of (mem t) d v = page_of (mem s) d v" for v using f(3) by (simp add: page_of_def)
  have kp: "kpage t = kpage s" "kend t = kend s" by (simp_all add: assms(2) kpage_def fun_eq_iff)
  show "uspace t d M qs" unfolding uspace_def kp f(2,3) po using assms(1) f(1) unfolding uspace_def by auto
qed

lemma free_page:
  assumes "uspace s d M ps" "kpage s p" "p \<notin> set ps \<union> pt_pages (mem s) d \<union> {page_of (mem s) d v |v. pg v \<in> M}"
  shows "\<exists>t. kfree p s = Ok () t \<and> uspace t d M (p # ps) \<and> keeps_user d M s t \<and> pt_pages (mem t) d = pt_pages (mem s) d"
proof -
  have inv: "kmem_inv s ps" "pt_inv (mem s) d" "pt_pages (mem s) d \<inter> set ps = {}" using assms(1) by (simp_all add: uspace_def vm_inv_def)
  have p: "p \<notin> set ps" "p \<notin> pt_pages (mem s) d" "page_aligned p" using assms(2,3) by (auto simp: kpage_def)
  from kfree_inv [OF inv(1) assms(2) p(1)] obtain t where
    t: "kfree p s = Ok () t" "kmem_inv t (p # ps)" "kend t = kend s" "\<forall>x. pg x \<noteq> pg p \<longrightarrow> mem t x = mem s x" by auto
  have tf: "\<exists>m f. t = s\<lparr>mem := m, freelist := f\<rparr>" using t(1) by (auto simp: kfree_def Let_def split: if_splits)
  have d: "page_aligned d" using inv(2) by (simp add: pt_inv_def)
  have other: "mem t x = mem s x" if "pg x = pg q" "page_aligned q" "q \<noteq> p" for x q using that t(4) pg_inj [OF _ p(3)] by simp
  have "mem t x = mem s x" if "pg x \<in> pg ` pt_pages (mem s) d" for x using that other pt_pages_aligned [OF inv(2)] p(2) by auto
  then have e: "pde (mem t) d w = pde (mem s) d w" "pte (mem t) d w = pte (mem s) d w" for w using pt_frame [OF d, of "mem s" "mem t"] by auto
  note i = pt_frame_inv [of "mem t" d "mem s", OF e(1)]
  have tinv: "vm_inv t d (p # ps)" using t(2) i inv p(2) by (auto simp: vm_inv_def)
  have k: "keeps_user d M s t" by (rule keeps_from_frame [OF tf e(2)]) (use assms(3) other page_of_aligned in blast)
  have po: "page_of (mem t) d v = page_of (mem s) d v" for v using e(2) by (simp add: page_of_def)
  have kp: "kpage t = kpage s" using t(3) by (simp add: kpage_def fun_eq_iff)
  have "uspace t d M (p # ps)" unfolding uspace_def kp t(3) i(2) e(2) po using assms(1,3) tinv unfolding uspace_def by auto
  then show ?thesis using t(1) k i(2) by blast
qed

lemma map_fails:
  assumes "uspace s d M []" "k < 0x80000" "PDX (4096 * of_nat k) \<notin> dirs (mem s) d"
  shows "mappages d (4096 * of_nat k) PGSIZE pa perm s = Ok (- 1) s"
proof -
  have "mappages d (4096 * of_nat k) PGSIZE pa perm s = mappages_loop (Suc 0) d (4096 * of_nat k) (4096 * of_nat k) pa perm s"
    using mappages_pages [of "4096 * of_nat k" 0] page_number [of k] assms(2) by simp
  then show ?thesis using walk_none [OF _ assms(3)] assms(1) by (simp add: uspace_def)
qed

lemma map_fresh:
  assumes "uspace s d M qs" "k < 0x80000" "k \<notin> M" "kpage s p" "p \<notin> set qs \<union> pt_pages (mem s) d \<union> {page_of (mem s) d v |v. pg v \<in> M}"
    "\<forall>x < 4096. mem s (p + x) = 0" "PDX (4096 * of_nat k) \<in> dirs (mem s) d \<or> qs \<noteq> []"
  shows "\<exists>t ps' us. mappages d (4096 * of_nat k) PGSIZE (V2P p) (PTE_W OR PTE_U) s = Ok 0 t \<and> uspace t d (insert k M) ps' \<and>
    keeps_user d M s t \<and> qs = us @ ps' \<and> pt_pages (mem t) d = pt_pages (mem s) d \<union> set us \<and>
    dirs (mem t) d = insert (dir_of k) (dirs (mem s) d) \<and> length us = (if dir_of k \<in> dirs (mem s) d then 0 else 1) \<and>
    (\<forall>w. pg w = k \<longrightarrow> page_of (mem t) d w = p \<and> PTE_FLAGS (pte (mem t) d w) = 7 \<and> user_byte (mem t) d w = 0)"
proof -
  let ?v = "4096 * of_nat k :: uint"
  have k: "page_aligned ?v" "pg ?v = k" "PDX ?v = dir_of k" using page_number [of k] assms(2) dir_of_pg [of ?v] by auto
  have inv: "vm_inv s d qs" using assms(1) by (simp add: uspace_def)
  have un: "\<forall>v. pg ?v \<le> pg v \<and> pg v \<le> pg ?v + 0 \<longrightarrow> pte (mem s) d v AND PTE_P = 0" unfolding k(2) using assms(1-3) by (auto simp: uspace_def)
  have card: "card ({dir_of k} - dirs (mem s) d) = (if dir_of k \<in> dirs (mem s) d then 0 else 1)" by (auto simp: insert_Diff_if)
  then have "\<not> length qs < card ({dir_of k} - dirs (mem s) d)" using assms(7) k(3) by (cases qs) auto
  with mappages_spec [OF inv k(1) _ un, of "V2P p" "PTE_W OR PTE_U"] assms(2) obtain t ps' us where
    t: "mappages d ?v PGSIZE (V2P p) (PTE_W OR PTE_U) s = Ok 0 t" "extends d s qs t ps' us"
      "pte (mem t) d = mapped (pte (mem s) d) k 1 (V2P p) (PTE_W OR PTE_U)" "dirs (mem t) d = dirs (mem s) d \<union> {dir_of k}"
      "length us = card ({dir_of k} - dirs (mem s) d)" by (auto simp: k(2))
  have e: "qs = us @ ps'" "vm_inv t d ps'" "pt_pages (mem t) d = pt_pages (mem s) d \<union> set us" "\<exists>m f. t = s\<lparr>mem := m, freelist := f\<rparr>"
    "\<And>x. pg x \<notin> pg ` (pt_pages (mem s) d \<union> set us) \<Longrightarrow> mem t x = mem s x" using t(2) by (auto simp: extends_def)
  have al: "page_aligned q" if "q \<in> pt_pages (mem s) d \<union> set us" for q
    using that inv e(1) pt_pages_aligned by (auto simp: vm_inv_def kmem_inv_def kpage_def)
  have other: "mem t x = mem s x" if "pg x = pg q" "page_aligned q" "q \<notin> pt_pages (mem s) d \<union> set us" for x q
    using e(5) [of x] that al pg_inj by (metis imageE)
  have pt: "pte (mem t) d w = (if pg w = k then V2P p OR 7 else pte (mem s) d w)" for w by (simp add: t(3) mapped_def or.assoc)
  have p: "page_aligned p" "p \<notin> pt_pages (mem s) d \<union> set us" using assms(4,5) e(1) by (auto simp: kpage_def)
  have keep: "keeps_user d M s t"
  proof (rule keeps_from_frame [OF e(4)])
    show "pte (mem t) d v = pte (mem s) d v" if "pg v \<in> M" for v using pt that assms(3) by auto
    show "mem t x = mem s x" if "pg v \<in> M" "pg x = pg (page_of (mem s) d v)" for v x
      using other [OF that(2) page_of_aligned] that(1) assms(1) e(1) by (auto simp: uspace_def)
  qed
  have "PTE_ADDR (V2P p OR 7) = V2P p" "PTE_FLAGS (V2P p OR 7) = 7"
    using PTE_ADDR_or [of "V2P p" 7] aligned_and(1) [of "V2P p"] p(1) by (simp_all add: PTE_FLAGS_def bit.conj_disj_distrib2)
  then have new: "page_of (mem t) d w = p" "PTE_FLAGS (pte (mem t) d w) = 7" if "pg w = k" for w
    using pt that by (simp_all add: page_of_def P2V_def V2P_def)
  have "user_byte (mem t) d w = 0" if "pg w = k" for w
    using other [OF pg_offset [OF p(1) PGROUNDDOWN_offset [of w]] p] assms(6) PGROUNDDOWN_offset [of w] new(1) [OF that] by (simp add: user_byte_def)
  moreover have "uspace t d (insert k M) ps'"
  proof -
    have kp: "kpage t = kpage s" "kend t = kend s" using e(4) by (auto simp: kpage_def fun_eq_iff)
    have u: "KERNBASE < kend s" "M \<subseteq> {..<0x80000}" "\<forall>v. pg v < 0x80000 \<longrightarrow> pg v \<notin> M \<longrightarrow> pte (mem s) d v = 0"
      "\<forall>v. pg v \<in> M \<longrightarrow> pte (mem s) d v AND PTE_P \<noteq> 0 \<and> kpage s (page_of (mem s) d v) \<and> page_of (mem s) d v \<notin> set qs \<union> pt_pages (mem s) d \<and>
        (\<forall>u. pg u \<in> M \<longrightarrow> page_of (mem s) d u = page_of (mem s) d v \<longrightarrow> pg u = pg v)" using assms(1) by (auto simp: uspace_def)
    have po: "page_of (mem t) d w = (if pg w = k then p else page_of (mem s) d w)" for w
      using new(1) [of w] pt [of w] by (cases "pg w = k") (simp, simp add: page_of_def)
    have "(V2P p OR 7) AND PTE_P \<noteq> 0" by (simp add: bit.conj_disj_distrib2)
    moreover have "page_of (mem s) d w \<noteq> p" if "pg w \<in> M" for w using that assms(5) by blast
    ultimately show ?thesis unfolding uspace_def kp po pt e(3) using u e(1,2) assms(2-5) by auto
  qed
  ultimately show ?thesis using t(1,4,5) card e keep new by (intro exI [of _ t] exI [of _ ps'] exI [of _ us]) auto
qed

text \<open>How many pages it takes to map the pages from \<open>k\<close> to \<open>n\<close>, page tables included.\<close>

definition need :: "uint set \<Rightarrow> nat \<Rightarrow> nat \<Rightarrow> nat" where
  "need D k n = (n - k) + card (dir_range k (n - k) - D)"

lemma need_step: "k < n \<Longrightarrow> k < 1048576 \<Longrightarrow> need D k n = Suc ((if dir_of k \<in> D then 0 else 1) + need (insert (dir_of k) D) (Suc k) n)"
proof -
  assume a: "k < n" "k < 1048576"
  then have "{k..<k + (n - k)} = insert k {Suc k..<Suc k + (n - Suc k)}" by auto
  then have "dir_range k (n - k) = insert (dir_of k) (dir_range (Suc k) (n - Suc k))" by simp
  then show ?thesis using a card_insert_Diff [of "dir_range (Suc k) (n - Suc k)" "dir_of k" D] by (simp add: need_def)
qed

lemma npages_less: "npages a < npages b \<Longrightarrow> a < b"
  by (rule ccontr) (simp add: npages_def word_less_nat_alt not_less div_le_mono leD)

lemma alloc_done:
  assumes "npages newsz \<le> k" "k < 1048576"
  shows "allocuvm_loop fuel d (4096 * of_nat k) oldsz newsz s = Ok newsz s"
  using page_below [of k newsz] assms by (cases fuel) auto

lemma alloc_undo:
  assumes "uspace s d {..<k} ps" "npages oldsz \<le> k" "k \<le> npages newsz" "newsz < KERNBASE" "oldsz < newsz"
  shows "\<exists>t qs. deallocuvm d newsz oldsz s = Ok oldsz t \<and> uspace t d {..<npages oldsz} (qs @ ps) \<and> keeps_user d {..<npages oldsz} s t \<and>
    owned t d {..<npages oldsz} (qs @ ps) = owned s d {..<k} ps \<and> pt_pages (mem t) d = pt_pages (mem s) d \<and>
    set qs \<subseteq> {page_of (mem s) d v |v. pg v \<in> {..<k}}"
proof -
  have M: "{..<k} - {npages oldsz..<npages newsz} = {..<npages oldsz}" "{..<k} \<inter> {npages oldsz..<npages newsz} = {npages oldsz..<k}" using assms(2,3) by auto
  from dealloc_spec [OF assms(1) less_imp_le [OF assms(4)] assms(5)] obtain t qs where
    t: "deallocuvm d newsz oldsz s = Ok oldsz t" "uspace t d {..<npages oldsz} (qs @ ps)" "keeps_user d {..<npages oldsz} s t"
      "pt_pages (mem t) d = pt_pages (mem s) d" "set qs = {page_of (mem s) d v |v. pg v \<in> {npages oldsz..<k}}"
    unfolding M by blast
  have "{..<k} = {..<npages oldsz} \<union> {npages oldsz..<k}" using assms(2) by auto
  then have "{page_of (mem s) d v |v. pg v \<in> {..<k}} = {page_of (mem s) d v |v. pg v \<in> {..<npages oldsz}} \<union> set qs" unfolding t(5) by blast
  then have "owned t d {..<npages oldsz} (qs @ ps) = owned s d {..<k} ps" "set qs \<subseteq> {page_of (mem s) d v |v. pg v \<in> {..<k}}"
    using keeps_pages [OF t(3)] t(4) by (auto simp: owned_def)
  then show ?thesis using t(1-4) by blast
qed

lemma alloc_loop:
  assumes "uspace s d {..<k} ps" "npages oldsz \<le> k" "k \<le> npages newsz" "newsz < KERNBASE" "npages newsz \<le> k + fuel" "oldsz \<le> newsz"
  shows "\<exists>r t ps'. allocuvm_loop fuel d (4096 * of_nat k) oldsz newsz s = Ok r t \<and> keeps_user d {..<npages oldsz} s t \<and>
    (r = newsz \<and> need (dirs (mem s) d) k (npages newsz) \<le> length ps \<and> uspace t d {..<npages newsz} ps' \<and> keeps_user d {..<k} s t \<and>
       owned t d {..<npages newsz} ps' = owned s d {..<k} ps \<and>
       (\<forall>v. k \<le> pg v \<and> pg v < npages newsz \<longrightarrow> user_byte (mem t) d v = 0 \<and> PTE_FLAGS (pte (mem t) d v) = 7) \<or>
     r = 0 \<and> length ps < need (dirs (mem s) d) k (npages newsz) \<and> uspace t d {..<npages oldsz} ps' \<and>
       owned t d {..<npages oldsz} ps' = owned s d {..<k} ps)"
  using assms(1-3,5)
proof (induction fuel arbitrary: k s ps)
  case 0
  then have "k = npages newsz" by simp
  then show ?case using 0(1) alloc_done [of newsz k 0] PGROUNDUP_pages(2) [OF less_imp_le [OF assms(4)]] keeps_refl
    by (intro exI [of _ newsz] exI [of _ s] exI [of _ ps]) (auto simp: need_def)
next
  case (Suc fuel)
  let ?N = "npages newsz" and ?O = "npages oldsz" and ?v = "4096 * of_nat k :: uint"
  have N: "?N \<le> 0x80000" using PGROUNDUP_pages(2) [OF less_imp_le [OF assms(4)]] .
  show ?case
  proof (cases "k < ?N")
    case False
    then have "k = ?N" using Suc.prems(3) by simp
    then show ?thesis using Suc.prems(1) alloc_done [of newsz k "Suc fuel"] N keeps_refl
      by (intro exI [of _ newsz] exI [of _ s] exI [of _ ps]) (auto simp: need_def simp del: allocuvm_loop.simps)
  next
    case True
    then have k: "k < 0x80000" "?v < newsz" "oldsz < newsz" "pg ?v = k" "PDX ?v = dir_of k"
      using N page_below [of k newsz] npages_less [of oldsz newsz] Suc.prems(2) page_number(2) [of k] dir_of_pg [of ?v] by auto
    have nd: "need (dirs (mem s) d) k ?N = Suc ((if dir_of k \<in> dirs (mem s) d then 0 else 1) + need (insert (dir_of k) (dirs (mem s) d)) (Suc k) ?N)"
      using need_step [OF True] k(1) by simp
    show ?thesis
    proof (cases ps)
      case Nil
      from alloc_undo [OF Suc.prems(1-3) assms(4) k(3)] obtain t qs where
        t: "deallocuvm d newsz oldsz s = Ok oldsz t" "uspace t d {..<?O} (qs @ ps)" "keeps_user d {..<?O} s t" "owned t d {..<?O} (qs @ ps) = owned s d {..<k} ps" by blast
      have "kalloc s = Ok 0 s" using kalloc_inv [of s ps] Suc.prems(1) Nil by (simp add: uspace_def vm_inv_def)
      then have "allocuvm_loop (Suc fuel) d ?v oldsz newsz s = Ok 0 t" using k(2) t(1) by simp
      then show ?thesis using t(2-4) nd Nil by (intro exI [of _ 0] exI [of _ t] exI [of _ "qs @ ps"]) simp
    next
      case (Cons p qs)
      let ?u = "s\<lparr>freelist := load32 (mem s) p, mem := mem_set (mem s) p 0 PGSIZE\<rparr>"
      note f = fresh_page [OF Suc.prems(1) [unfolded Cons], of ?u, OF refl]
      have nx: "?v + PGSIZE = 4096 * of_nat (Suc k)" by (simp add: algebra_simps)
      have run: "allocuvm_loop (Suc fuel) d ?v oldsz newsz s =
          rbind (mappages d ?v PGSIZE (V2P p) (PTE_W OR PTE_U) ?u) (\<lambda>r s.
            if r < 0 then rbind (deallocuvm d newsz oldsz s) (\<lambda>_ s. rbind (kfree p s) (\<lambda>_ s. Ok 0 s))
            else allocuvm_loop fuel d (4096 * of_nat (Suc k)) oldsz newsz s)"
        unfolding nx [symmetric] using f(1) kpage_nz [OF f(7)] k(2) by simp
      have po: "{page_of (mem ?u) d v |v. pg v \<in> {..<k}} = {page_of (mem s) d v |v. pg v \<in> {..<k}}" by (rule keeps_pages [OF f(3)])
      have kp: "kpage ?u p" using f(7) by (simp add: kpage_def)
      have fresh: "p \<notin> set qs \<union> pt_pages (mem ?u) d \<union> {page_of (mem ?u) d v |v. pg v \<in> {..<k}}" using f(6) unfolding po f(4) .
      show ?thesis
      proof (cases "PDX ?v \<in> dirs (mem ?u) d \<or> qs \<noteq> []")
        case True
        have zero: "\<forall>x < 4096. mem ?u (p + x) = 0" by (simp add: mem_set_def)
        from map_fresh [OF f(2) k(1) _ kp fresh zero True] obtain t ps' us where
          t: "mappages d ?v PGSIZE (V2P p) (PTE_W OR PTE_U) ?u = Ok 0 t" "uspace t d (insert k {..<k}) ps'" "keeps_user d {..<k} ?u t"
            "qs = us @ ps'" "pt_pages (mem t) d = pt_pages (mem s) d \<union> set us" "dirs (mem t) d = insert (dir_of k) (dirs (mem s) d)"
            "length us = (if dir_of k \<in> dirs (mem s) d then 0 else 1)"
            "\<forall>w. pg w = k \<longrightarrow> page_of (mem t) d w = p \<and> PTE_FLAGS (pte (mem t) d w) = 7 \<and> user_byte (mem t) d w = 0"
          unfolding f(4,5) by blast
        have s1: "insert k {..<k} = {..<Suc k}" by auto
        from Suc.IH [OF t(2) [unfolded s1]] Suc.prems(2,4) \<open>k < ?N\<close> obtain r w qs' where
          w: "allocuvm_loop fuel d (4096 * of_nat (Suc k)) oldsz newsz t = Ok r w" "keeps_user d {..<?O} t w"
            "r = newsz \<and> need (dirs (mem t) d) (Suc k) ?N \<le> length ps' \<and> uspace w d {..<?N} qs' \<and> keeps_user d {..<Suc k} t w \<and>
               owned w d {..<?N} qs' = owned t d {..<Suc k} ps' \<and>
               (\<forall>v. Suc k \<le> pg v \<and> pg v < ?N \<longrightarrow> user_byte (mem w) d v = 0 \<and> PTE_FLAGS (pte (mem w) d v) = 7) \<or>
             r = 0 \<and> length ps' < need (dirs (mem t) d) (Suc k) ?N \<and> uspace w d {..<?O} qs' \<and> owned w d {..<?O} qs' = owned t d {..<Suc k} ps'"
          by (metis (no_types, lifting) Suc_leI add_Suc_right add_Suc le_Suc_eq)
        have st: "keeps_user d {..<k} s t" by (rule keeps_trans [OF f(3) t(3)]) auto
        have "{page_of (mem t) d v |v. pg v \<in> {..<Suc k}} = insert p {page_of (mem t) d v |v. pg v \<in> {..<k}}"
          unfolding s1 [symmetric] using t(8) k(4) by blast
        then have own: "owned t d {..<Suc k} ps' = owned s d {..<k} ps" unfolding owned_def keeps_pages [OF st] t(5) Cons t(4) by auto
        have "need (dirs (mem s) d) k ?N \<le> length ps \<longleftrightarrow> need (dirs (mem t) d) (Suc k) ?N \<le> length ps'"
          unfolding nd Cons t(4) using t(6,7) by simp
        moreover have "keeps_user d {..<?O} s w" by (rule keeps_trans [OF st w(2)]) (use Suc.prems(2) in auto)
        moreover have "keeps_user d {..<k} s w" if "keeps_user d {..<Suc k} t w" by (rule keeps_trans [OF st that]) auto
        moreover have "user_byte (mem w) d v = 0 \<and> PTE_FLAGS (pte (mem w) d v) = 7"
          if "keeps_user d {..<Suc k} t w" "\<forall>v. Suc k \<le> pg v \<and> pg v < ?N \<longrightarrow> user_byte (mem w) d v = 0 \<and> PTE_FLAGS (pte (mem w) d v) = 7"
            "k \<le> pg v" "pg v < ?N" for v
          using that t(8) by (cases "pg v = k") (simp_all add: keeps_user_def)
        moreover have "allocuvm_loop (Suc fuel) d ?v oldsz newsz s = Ok r w" unfolding run t(1) using w(1) by simp
        ultimately show ?thesis using w(3) own not_le by (metis (no_types, lifting))
      next
        case False
        then have q: "qs = []" "dir_of k \<notin> dirs (mem s) d" using f(5) k(5) by auto
        from alloc_undo [OF f(2) [unfolded q] Suc.prems(2,3) assms(4) k(3)] obtain t rs where
          t: "deallocuvm d newsz oldsz ?u = Ok oldsz t" "uspace t d {..<?O} rs" "keeps_user d {..<?O} ?u t"
            "owned t d {..<?O} rs = owned ?u d {..<k} []" "pt_pages (mem t) d = pt_pages (mem ?u) d"
            "set rs \<subseteq> {page_of (mem ?u) d v |v. pg v \<in> {..<k}}" by auto
        have "owned t d {..<?O} rs = pt_pages (mem ?u) d \<union> {page_of (mem ?u) d v |v. pg v \<in> {..<k}}" unfolding t(4) by (simp add: owned_def)
        then have "p \<notin> owned t d {..<?O} rs" using fresh by blast
        then have "p \<notin> set rs \<union> pt_pages (mem t) d \<union> {page_of (mem t) d v |v. pg v \<in> {..<?O}}" by (simp add: owned_def)
        moreover have "kpage t p" using kp keeps_user_kend [OF t(3)] by (simp add: kpage_def)
        ultimately obtain w where w: "kfree p t = Ok () w" "uspace w d {..<?O} (p # rs)" "keeps_user d {..<?O} t w" "pt_pages (mem w) d = pt_pages (mem t) d"
          using free_page [OF t(2)] by blast
        have su: "keeps_user d {..<?O} s ?u" using f(3) Suc.prems(2) by (auto simp: keeps_user_def)
        have "keeps_user d {..<?O} ?u w" by (rule keeps_trans [OF t(3) w(3)]) auto
        then have "keeps_user d {..<?O} s w" by (rule keeps_trans [OF su]) auto
        moreover have "owned w d {..<?O} (p # rs) = insert p (owned t d {..<?O} rs)" unfolding owned_def w(4) keeps_pages [OF w(3)] by simp
        moreover have "insert p (owned ?u d {..<k} []) = owned s d {..<k} ps" unfolding Cons q(1) owned_def po f(4) by simp
        ultimately have "owned w d {..<?O} (p # rs) = owned s d {..<k} ps" "keeps_user d {..<?O} s w" unfolding t(4) by (simp_all only:)
        moreover have "allocuvm_loop (Suc fuel) d ?v oldsz newsz s = Ok 0 w"
          unfolding run using map_fails [OF f(2) [unfolded q] k(1)] False t(1) w(1) by simp
        moreover have "length ps < need (dirs (mem s) d) k ?N" unfolding nd Cons using q by simp
        ultimately show ?thesis using w(2) by (intro exI [of _ 0] exI [of _ w] exI [of _ "p # rs"]) (simp del: allocuvm_loop.simps)
      qed
    qed
  qed
qed

section \<open>Properties\<close>

text \<open>
  C11: \<open>allocuvm\<close> grows a process from \<open>oldsz\<close> to \<open>newsz\<close> bytes or leaves it as it was. If there are
  free pages for the new pages and for the page tables they need, it returns \<open>newsz\<close>, and the
  new pages are mapped to pages of their own, zeroed, writable and accessible to the user. If
  there are not, it returns 0 and has unmapped and freed what it had allocated. Either way the
  old pages keep their mapping and every byte, and no page is lost: what was free, a page
  table or a mapped page still is one of these. A size that reaches into the kernel is refused.
\<close>

theorem allocuvm_correct:
  assumes "uspace s d {..<npages oldsz} ps" "oldsz \<le> newsz"
  shows "(KERNBASE \<le> newsz \<longrightarrow> allocuvm d oldsz newsz s = Ok 0 s) \<and>
    (newsz < KERNBASE \<longrightarrow> (\<exists>r t ps'. allocuvm d oldsz newsz s = Ok r t \<and> keeps_user d {..<npages oldsz} s t \<and>
      (if need (dirs (mem s) d) (npages oldsz) (npages newsz) \<le> length ps
       then r = newsz \<and> uspace t d {..<npages newsz} ps' \<and> owned t d {..<npages newsz} ps' = owned s d {..<npages oldsz} ps \<and>
         (\<forall>v. npages oldsz \<le> pg v \<and> pg v < npages newsz \<longrightarrow> user_byte (mem t) d v = 0 \<and> PTE_FLAGS (pte (mem t) d v) = PTE_P OR PTE_W OR PTE_U)
       else r = 0 \<and> uspace t d {..<npages oldsz} ps' \<and> owned t d {..<npages oldsz} ps' = owned s d {..<npages oldsz} ps)))"
proof (intro conjI impI)
  show "allocuvm d oldsz newsz s = Ok 0 s" if "KERNBASE \<le> newsz" using that by (simp add: allocuvm_def)
  assume n: "newsz < KERNBASE"
  have le: "oldsz \<le> KERNBASE" "npages oldsz \<le> npages newsz" using n assms(2) by (auto simp: word_le_nat_alt word_less_nat_alt npages_def intro!: div_le_mono)
  have "npages newsz \<le> npages oldsz + Suc (unat newsz div 4096)" by (simp add: npages_def)
  from alloc_loop [OF assms(1) order_refl le(2) n this assms(2)] obtain r t ps' where
    t: "allocuvm_loop (Suc (unat newsz div 4096)) d (4096 * of_nat (npages oldsz)) oldsz newsz s = Ok r t" "keeps_user d {..<npages oldsz} s t"
      "r = newsz \<and> need (dirs (mem s) d) (npages oldsz) (npages newsz) \<le> length ps \<and> uspace t d {..<npages newsz} ps' \<and> keeps_user d {..<npages oldsz} s t \<and>
         owned t d {..<npages newsz} ps' = owned s d {..<npages oldsz} ps \<and>
         (\<forall>v. npages oldsz \<le> pg v \<and> pg v < npages newsz \<longrightarrow> user_byte (mem t) d v = 0 \<and> PTE_FLAGS (pte (mem t) d v) = 7) \<or>
       r = 0 \<and> length ps < need (dirs (mem s) d) (npages oldsz) (npages newsz) \<and> uspace t d {..<npages oldsz} ps' \<and>
         owned t d {..<npages oldsz} ps' = owned s d {..<npages oldsz} ps" by blast
  have "\<not> KERNBASE \<le> newsz" "\<not> newsz < oldsz" using n assms(2) by auto
  then have "allocuvm d oldsz newsz s = Ok r t" using t(1) unfolding allocuvm_def PGROUNDUP_pages(1) [OF le(1)] by (simp only: if_False)
  moreover have "PTE_P OR PTE_W OR PTE_U = (7 :: uint)" by simp
  moreover from t(3) have "if need (dirs (mem s) d) (npages oldsz) (npages newsz) \<le> length ps
       then r = newsz \<and> uspace t d {..<npages newsz} ps' \<and> owned t d {..<npages newsz} ps' = owned s d {..<npages oldsz} ps \<and>
         (\<forall>v. npages oldsz \<le> pg v \<and> pg v < npages newsz \<longrightarrow> user_byte (mem t) d v = 0 \<and> PTE_FLAGS (pte (mem t) d v) = 7)
       else r = 0 \<and> uspace t d {..<npages oldsz} ps' \<and> owned t d {..<npages oldsz} ps' = owned s d {..<npages oldsz} ps"
    by (elim disjE) (simp_all only: if_True if_False not_le [symmetric] simp_thms, blast)
  ultimately show "\<exists>r t ps'. allocuvm d oldsz newsz s = Ok r t \<and> keeps_user d {..<npages oldsz} s t \<and>
      (if need (dirs (mem s) d) (npages oldsz) (npages newsz) \<le> length ps
       then r = newsz \<and> uspace t d {..<npages newsz} ps' \<and> owned t d {..<npages newsz} ps' = owned s d {..<npages oldsz} ps \<and>
         (\<forall>v. npages oldsz \<le> pg v \<and> pg v < npages newsz \<longrightarrow> user_byte (mem t) d v = 0 \<and> PTE_FLAGS (pte (mem t) d v) = PTE_P OR PTE_W OR PTE_U)
       else r = 0 \<and> uspace t d {..<npages oldsz} ps' \<and> owned t d {..<npages oldsz} ps' = owned s d {..<npages oldsz} ps)"
    using t(2) by (simp only:) blast
qed

text \<open>
  C12: \<open>deallocuvm\<close> shrinks a process: exactly the pages above the new size are unmapped and freed,
  the pages below keep their mapping and every byte, and no page is lost.
\<close>

theorem deallocuvm_correct:
  assumes "uspace s d {..<npages oldsz} ps" "oldsz \<le> KERNBASE"
  shows "(oldsz \<le> newsz \<longrightarrow> deallocuvm d oldsz newsz s = Ok oldsz s) \<and>
    (newsz < oldsz \<longrightarrow> (\<exists>t qs. deallocuvm d oldsz newsz s = Ok newsz t \<and> uspace t d {..<npages newsz} (qs @ ps) \<and> keeps_user d {..<npages newsz} s t \<and>
      set qs = {page_of (mem s) d v |v. npages newsz \<le> pg v \<and> pg v < npages oldsz} \<and>
      owned t d {..<npages newsz} (qs @ ps) = owned s d {..<npages oldsz} ps))"
proof (intro conjI impI)
  show "deallocuvm d oldsz newsz s = Ok oldsz s" if "oldsz \<le> newsz" using that by (simp add: deallocuvm_def)
  assume n: "newsz < oldsz"
  then have le: "npages newsz \<le> npages oldsz" by (auto simp: word_less_nat_alt npages_def intro!: div_le_mono)
  then have M: "{..<npages oldsz} - {npages newsz..<npages oldsz} = {..<npages newsz}" "{..<npages oldsz} \<inter> {npages newsz..<npages oldsz} = {npages newsz..<npages oldsz}" by auto
  from dealloc_spec [OF assms n] obtain t qs where
    t: "deallocuvm d oldsz newsz s = Ok newsz t" "uspace t d {..<npages newsz} (qs @ ps)" "keeps_user d {..<npages newsz} s t" "pt_pages (mem t) d = pt_pages (mem s) d"
      "set qs = {page_of (mem s) d v |v. pg v \<in> {npages newsz..<npages oldsz}}" unfolding M by blast
  have "{..<npages oldsz} = {..<npages newsz} \<union> {npages newsz..<npages oldsz}" using le by auto
  then have "{page_of (mem s) d v |v. pg v \<in> {..<npages oldsz}} = {page_of (mem s) d v |v. pg v \<in> {..<npages newsz}} \<union> set qs" unfolding t(5) by blast
  then have "owned t d {..<npages newsz} (qs @ ps) = owned s d {..<npages oldsz} ps" unfolding owned_def keeps_pages [OF t(3)] t(4) by auto
  then show "\<exists>t qs. deallocuvm d oldsz newsz s = Ok newsz t \<and> uspace t d {..<npages newsz} (qs @ ps) \<and> keeps_user d {..<npages newsz} s t \<and>
      set qs = {page_of (mem s) d v |v. npages newsz \<le> pg v \<and> pg v < npages oldsz} \<and>
      owned t d {..<npages newsz} (qs @ ps) = owned s d {..<npages oldsz} ps"
    using t by (intro exI [of _ t] exI [of _ qs]) simp
qed

section \<open>Witnesses\<close>

lemma ex_uspace: "uspace ex_vm 0x80300000 {..<2} ex_free"
proof -
  have "kpage ex_vm 0x80302000" "kpage ex_vm 0x80303000" by (simp_all add: kpage_def ex_vm_def page_aligned_def V2P_def)
  then have "kpage ex_vm (page_of (mem ex_vm) 0x80300000 v)" if "pg v < 2" for v using ex_page_of [OF that] by simp
  moreover have "page_of (mem ex_vm) 0x80300000 v \<notin> pt_pages (mem ex_vm) 0x80300000" if "pg v < 2" for v using ex_page_of [OF that] ex_space(2) by auto
  moreover have "pg u = pg v" if "pg u < 2" "pg v < 2" "page_of (mem ex_vm) 0x80300000 u = page_of (mem ex_vm) 0x80300000 v" for u v
    using that ex_page_of [of u] ex_page_of [of v] by (auto split: if_splits)
  moreover have "pte (mem ex_vm) 0x80300000 v = 0" if "\<not> pg v < 2" for v using that by (simp add: ex_vm_def ex_pte)
  moreover have "vm_inv ex_vm 0x80300000 ex_free" using ex_vm_kmem ex_space(1,3) by (simp add: vm_inv_def)
  moreover have "KERNBASE < kend ex_vm" by (simp add: ex_vm_def)
  ultimately show ?thesis using ex_space(4) unfolding uspace_def by auto
qed

theorem allocuvm_correct_witness:
  "\<exists>t. allocuvm 0x80300000 0x1800 0x3000 ex_vm = Ok 0x3000 t \<and> user_byte (mem t) 0x80300000 0x2FFF = 0 \<and>
     user_byte (mem t) 0x80300000 0x1234 = user_byte (mem ex_vm) 0x80300000 0x1234"
proof -
  have n: "npages 0x3000 = 3" by (simp add: npages_def)
  have "need D 2 3 \<le> 128" for D :: "uint set"
    using card_mono [of "dir_range 2 1" "dir_range 2 1 - D"] card_image_le [of "{2..<3}" dir_of] by (simp add: need_def)
  then show ?thesis using allocuvm_correct [of ex_vm "0x80300000" "0x1800" ex_free "0x3000"] ex_uspace
    by (fastforce simp: n ex_npages ex_free_length pg_def keeps_user_def)
qed

theorem deallocuvm_correct_witness:
  "\<exists>t ps. deallocuvm 0x80300000 0x1800 0x1000 ex_vm = Ok 0x1000 t \<and> uspace t 0x80300000 {..<1} ps \<and>
     user_byte (mem t) 0x80300000 0x234 = user_byte (mem ex_vm) 0x80300000 0x234"
proof -
  have n: "npages 0x1000 = 1" by (simp add: npages_def)
  show ?thesis using deallocuvm_correct [of ex_vm "0x80300000" "0x1800" ex_free "0x1000"] ex_uspace
    by (fastforce simp: n ex_npages pg_def keeps_user_def)
qed

end
