(* ===== verification/ProcMem.thy ===== *)
theory ProcMem
  imports UserGrow Proc
begin

text \<open>
  The memory of a process as \<open>sbrk\<close> changes it, proc.c \<open>growproc\<close>, on top of the page tables.
\<close>

lemma negative_int:
  fixes z :: cint
  assumes "0 < z" "z < 0x80000000"
  shows "sint (- z) < 0"
proof -
  have u: "0 < uint z" "uint z < 2147483648" using assms by (simp_all add: word_less_def)
  have "- z = word_of_int (- uint z)" by simp
  then have "sint (- z) = signed_take_bit 31 (- uint z)" by (simp only: signed_of_int) simp
  also have "\<dots> = - uint z" using u by (intro signed_take_bit_int_eq_self) auto
  finally show ?thesis using u by simp
qed

text \<open>What \<open>growproc\<close> promises of the size field is broken when a process gives back everything.\<close>

lemma growproc_to_zero:
  fixes s :: "'z proc_st_scheme"
  assumes "cproc s = Some r" "uspace s (pgdir (pget s r)) {..<npages (sz (pget s r))} ps" "0 < sz (pget s r)" "sz (pget s r) < KERNBASE"
  shows "\<exists>t qs. growproc (- sz (pget s r)) s = Ok (- 1) t \<and> sz (pget t r) = sz (pget s r) \<and>
    uspace t (pgdir (pget s r)) {} (qs @ ps) \<and> set qs = {page_of (mem s) (pgdir (pget s r)) v |v. pg v < npages (sz (pget s r))}"
proof -
  let ?d = "pgdir (pget s r)" and ?z = "sz (pget s r)"
  have le: "?z \<le> KERNBASE" using assms(4) by simp
  have n: "npages 0 = 0" by (simp add: npages_def)
  have "{..<npages ?z} - {npages 0..<npages ?z} = {}" "{..<npages ?z} \<inter> {npages 0..<npages ?z} = {..<npages ?z}" by (auto simp: n)
  with dealloc_spec [OF assms(2) le assms(3)] obtain t qs where
    t: "deallocuvm ?d ?z 0 s = Ok 0 t" "uspace t ?d {} (qs @ ps)" "keeps_user ?d {} s t" "set qs = {page_of (mem s) ?d v |v. pg v \<in> {..<npages ?z}}"
    by auto
  obtain m f where "t = s\<lparr>mem := m, freelist := f\<rparr>" using t(3) unfolding keeps_user_def by blast
  then have "pget t r = pget s r" by (cases r) simp_all
  moreover have "- ?z <s 0" "\<not> 0 <s - ?z" "- ?z \<noteq> 0" using negative_int [OF assms(3,4)] assms(3) by (auto simp: word_sless_alt)
  ultimately show ?thesis using assms(1) t by (intro exI [of _ t] exI [of _ qs]) (simp add: growproc_def Let_def)
qed

end
