(* ===== verification/Shell.thy ===== *)
theory Shell
  imports KString
begin

text \<open>
  The command parser of the shell, sh.c: the tokenizer, the recursive-descent parser on a
  line buffer, and \<open>nulterminate\<close>. Pointers into the line are offsets; a parser returns a
  command and leaves the offset it has reached as its state, or panics. Its properties are in
  ShellSyntax.
\<close>

section \<open>Commands\<close>

text \<open>
  \<open>struct cmd\<close> and its variants; an argument or file name is the offset of its first byte and
  of the byte after it (\<open>argv\<close> and \<open>eargv\<close>, \<open>file\<close> and \<open>efile\<close>).
\<close>

type_synonym token = "nat \<times> nat"

datatype cmd =
    EXEC "token list"
  | REDIR cmd token uint cint
  | PIPE cmd cmd
  | LIST cmd cmd
  | BACK cmd

abbreviation (input) MAXARGS :: nat where "MAXARGS \<equiv> 10"
abbreviation (input) O_RDONLY :: uint where "O_RDONLY \<equiv> 0"
abbreviation (input) O_WRONLY_CREATE :: uint where "O_WRONLY_CREATE \<equiv> 0x201"

section \<open>Tokens\<close>

text \<open>Blank, tab, return, newline, vertical tab; and \<open><|>&;()\<close>.\<close>

definition whitespace :: "uchar list" where
  "whitespace = [32, 9, 13, 10, 11]"

definition symbols :: "uchar list" where
  "symbols = [60, 124, 62, 38, 59, 40, 41]"

definition ws :: "uchar \<Rightarrow> bool" where
  "ws c = (strchr whitespace c \<noteq> None)"

definition word_char :: "uchar \<Rightarrow> bool" where
  "word_char c = (strchr whitespace c = None \<and> strchr symbols c = None)"

text \<open>The byte at an offset of the line; the line ends with a NUL byte.\<close>

definition char_at :: "uchar list \<Rightarrow> nat \<Rightarrow> uchar" where
  "char_at b i = (if i < length b then b ! i else 0)"

function skip_while :: "(uchar \<Rightarrow> bool) \<Rightarrow> uchar list \<Rightarrow> nat \<Rightarrow> nat" where
  "skip_while P b i = (if i < length b \<and> P (char_at b i) then skip_while P b (Suc i) else i)"
  by pat_completeness auto
termination
  by (relation "measure (\<lambda>(P, b, i). length b - i)") auto

declare skip_while.simps [simp del]

text \<open>
  \<open>gettoken\<close>: the kind of the token (0 at the end of the line, \<open>a\<close> for a word, \<open>+\<close> for \<open>>>\<close>,
  else the symbol), its offsets, and the offset of the next token.
\<close>

definition gettoken :: "uchar list \<Rightarrow> nat \<Rightarrow> uchar \<times> token \<times> nat" where
  "gettoken b i =
     (let s = skip_while ws b i; c = char_at b s;
          (ret, e) =
            (if c = 0 then (0, s)
             else if c \<in> {124, 40, 41, 59, 38, 60} then (c, Suc s)
             else if c = 62 then (if char_at b (Suc s) = 62 then (43, Suc (Suc s)) else (62, Suc s))
             else (97, skip_while word_char b s))
      in (ret, (s, e), skip_while ws b e))"

definition peek :: "uchar list \<Rightarrow> nat \<Rightarrow> uchar list \<Rightarrow> nat \<times> bool" where
  "peek b i toks =
     (let s = skip_while ws b i in (s, char_at b s \<noteq> 0 \<and> strchr toks (char_at b s) \<noteq> None))"

lemma skip_while_ge: "i \<le> skip_while P b i"
  by (induction P b i rule: skip_while.induct) (subst skip_while.simps, auto)

lemma skip_while_le: "i \<le> length b \<Longrightarrow> skip_while P b i \<le> length b"
  by (induction P b i rule: skip_while.induct) (subst skip_while.simps, auto)

lemma skip_while_takeWhile: "skip_while P b i = i + length (takeWhile P (drop i b))"
proof (induction P b i rule: skip_while.induct)
  case (1 P b i)
  show ?case
  proof (cases "i < length b")
    case True
    then have "drop i b = b ! i # drop (Suc i) b" by (simp add: Cons_nth_drop_Suc)
    then show ?thesis using 1 True by (subst skip_while.simps) (simp add: char_at_def)
  qed (subst skip_while.simps, simp)
qed

lemma skip_while_stop:
  assumes "skip_while P b i < length b"
  shows "\<not> P (char_at b (skip_while P b i))"
proof -
  have l: "length (takeWhile P (drop i b)) < length (drop i b)" using assms by (simp add: skip_while_takeWhile)
  show ?thesis using nth_length_takeWhile [OF l] assms by (simp add: skip_while_takeWhile char_at_def)
qed

lemma gettoken_ge:
  assumes "gettoken b i = (ret, (q, e), k)"
  shows "i \<le> q" "q \<le> e" "e \<le> k" "ret \<noteq> 0 \<Longrightarrow> i < k" "q = skip_while ws b i" "ret = 0 \<longleftrightarrow> char_at b q = 0"
proof -
  let ?q = "skip_while ws b i"
  have g: "i \<le> ?q" "e \<le> skip_while ws b e" by (rule skip_while_ge)+
  have w: "?q < skip_while word_char b ?q" if "char_at b ?q \<noteq> 0" "char_at b ?q \<notin> {124, 40, 41, 59, 38, 60, 62}"
  proof -
    have l: "?q < length b" using that(1) by (auto simp: char_at_def split: if_splits)
    have "\<not> ws (char_at b ?q)" using skip_while_stop [OF l] .
    then have "word_char (char_at b ?q)" using that(2) by (auto simp: word_char_def ws_def symbols_def)
    then show ?thesis using l by (subst skip_while.simps) (auto intro: less_le_trans [OF lessI skip_while_ge])
  qed
  show "i \<le> q" "q \<le> e" "e \<le> k" "ret \<noteq> 0 \<Longrightarrow> i < k" "q = skip_while ws b i" "ret = 0 \<longleftrightarrow> char_at b q = 0"
    using assms g w skip_while_ge [of ?q word_char b]
    unfolding gettoken_def Let_def by (auto split: if_splits intro: order_trans [OF _ skip_while_ge] less_le_trans [OF _ skip_while_ge])
qed

lemma peek_ge:
  assumes "peek b i toks = (s, y)"
  shows "i \<le> s" "y \<Longrightarrow> char_at b s \<noteq> 0" "y \<Longrightarrow> s < length b" "s = skip_while ws b i"
  using assms skip_while_ge [of i ws b] by (auto simp: peek_def Let_def char_at_def split: if_splits)

text \<open>A token that \<open>peek\<close> has seen is there to be taken.\<close>

lemma skip_twice: "skip_while ws b (skip_while ws b i) = skip_while ws b i"
proof (cases "skip_while ws b i < length b")
  case True
  then show ?thesis using skip_while_stop [OF True] by (subst skip_while.simps) simp
qed (subst skip_while.simps, simp)

lemma peek_gettoken:
  assumes "peek b i toks = (s, True)" "gettoken b s = (ret, t, k)"
  shows "i < k"
proof -
  obtain q e where t: "t = (q, e)" by fastforce
  note g = gettoken_ge [OF assms(2) [unfolded t]]
  have "q = s" using g(5) peek_ge(4) [OF assms(1)] skip_twice by simp
  then have "ret \<noteq> 0" using g(6) peek_ge(2) [OF assms(1)] by simp
  then show ?thesis using g(4) peek_ge(1) [OF assms(1)] by simp
qed

lemma redirs_progress:
  assumes "peek b i toks = (s, True)" "gettoken b s = (tok, t1, j)" "gettoken b j = (r, t, k)"
  shows "length b - k < length b - i"
proof -
  have "i < j" by (rule peek_gettoken [OF assms(1,2)])
  moreover have "j \<le> k" using gettoken_ge(1-3) [of b j r "fst t" "snd t" k] assms(3) by simp
  moreover have "i < length b" using peek_ge [OF assms(1)] by simp
  ultimately show ?thesis by simp
qed

lemma args_progress:
  assumes "peek b i toks = (s, y)" "gettoken b s = (ret, (q, e), j)" "ret \<noteq> 0" "j \<le> k"
  shows "length b - k < length b - i"
proof -
  note g = gettoken_ge [OF assms(2)]
  have "s < j" using g(4) assms(3) by simp
  moreover have "s < length b" using g(1,6) assms(3) by (auto simp: char_at_def split: if_splits)
  ultimately show ?thesis using peek_ge(1) [OF assms(1)] assms(4) by simp
qed

lemma backs_progress:
  assumes "peek b i toks = (s, True)" "gettoken b s = (tok, t, j)"
  shows "length b - j < length b - i"
  using peek_gettoken [OF assms] peek_ge [OF assms(1)] by simp

section \<open>The parser\<close>

text \<open>\<open>redircmd\<close> as the cases of \<open>parseredirs\<close> call it: \<open>>>\<close> is treated as \<open>>\<close>.\<close>

definition redircmd :: "uchar \<Rightarrow> token \<Rightarrow> cmd \<Rightarrow> cmd" where
  "redircmd tok t c = (if tok = 60 then REDIR c t O_RDONLY 0 else REDIR c t O_WRONLY_CREATE 1)"

function parseredirs :: "uchar list \<Rightarrow> cmd \<Rightarrow> nat \<Rightarrow> (cmd, nat) res" where
  "parseredirs b c i =
     (case peek b i [60, 62] of (s, yes) \<Rightarrow>
        if \<not> yes then Ok c s
        else case gettoken b s of (tok, _, j) \<Rightarrow>
          case gettoken b j of (r, t, k) \<Rightarrow>
            if r \<noteq> 97 then Panic ''missing file for redirection''
            else parseredirs b (redircmd tok t c) k)"
  by pat_completeness auto
termination
  by (relation "measure (\<lambda>(b, c, i). length b - i)") (auto intro: redirs_progress [OF sym sym sym])

declare parseredirs.simps [simp del]

lemma parseredirs_step:
  "peek b i [60, 62] = (s, False) \<Longrightarrow> parseredirs b c i = Ok c s"
  "peek b i [60, 62] = (s, True) \<Longrightarrow> gettoken b s = (tok, t1, j) \<Longrightarrow> gettoken b j = (r, t, k) \<Longrightarrow>
     parseredirs b c i = (if r \<noteq> 97 then Panic ''missing file for redirection'' else parseredirs b (redircmd tok t c) k)"
  by (subst parseredirs.simps, simp)+

lemma parseredirs_induct [case_names none bad more]:
  assumes "\<And>c i s. peek b i [60, 62] = (s, False) \<Longrightarrow> P c i"
    "\<And>c i s tok t1 j r t k. peek b i [60, 62] = (s, True) \<Longrightarrow> gettoken b s = (tok, t1, j) \<Longrightarrow> gettoken b j = (r, t, k) \<Longrightarrow> r \<noteq> 97 \<Longrightarrow> P c i"
    "\<And>c i s tok t1 j t k. peek b i [60, 62] = (s, True) \<Longrightarrow> gettoken b s = (tok, t1, j) \<Longrightarrow> gettoken b j = (97, t, k) \<Longrightarrow>
       P (redircmd tok t c) k \<Longrightarrow> P c i"
  shows "P c i"
proof (induction "length b - i" arbitrary: c i rule: less_induct)
  case less
  obtain s y where p: "peek b i [60, 62] = (s, y)" by fastforce
  obtain tok t1 j r t k where g: "gettoken b s = (tok, t1, j)" "gettoken b j = (r, t, k)" by (metis prod_cases3)
  show ?case
  proof (cases y)
    case True
    then have p': "peek b i [60, 62] = (s, True)" using p by simp
    show ?thesis using assms(2,3) [OF p' g(1)] g(2) less redirs_progress [OF p' g] by (cases "r = 97") auto
  qed (use assms(1) p in auto)
qed

lemma parseredirs_ge: "parseredirs b c i = Ok c' j \<Longrightarrow> i \<le> j"
proof (induction c i rule: parseredirs_induct [where b = b])
  case (none c i s)
  then show ?case using parseredirs_step(1) [of b i s c] peek_ge(1) by auto
next
  case (bad c i s tok t1 j r t k)
  then show ?case using parseredirs_step(2) [OF bad(1-3), of c] by simp
next
  case (more c i s tok t1 m t k)
  then show ?case using parseredirs_step(2) [OF more(1-3), of c] redirs_progress [OF more(1-3)] by simp
qed

lemma parseredirs_not_Spin: "parseredirs b c i \<noteq> Spin" "parseredirs b c i \<noteq> Sleep ch j"
proof (induction c i rule: parseredirs_induct [where b = b])
  case (bad c i s tok t1 j r t k)
  case 1 show ?case using parseredirs_step(2) [OF bad(1-3), of c] bad(4) by simp
  case 2 show ?case using parseredirs_step(2) [OF bad(1-3), of c] bad(4) by simp
next
  case (more c i s tok t1 m t k)
  case 1 show ?case using parseredirs_step(2) [OF more(1-3), of c] more(4) by simp
  case 2 show ?case using parseredirs_step(2) [OF more(1-3), of c] more(5) by simp
qed (simp_all add: parseredirs_step(1))

text \<open>
  \<open>cmd->argv[argc] = q\<close> in \<open>parseexec\<close>: the node that the new argument goes to is the one inside
  the redirections made so far.
\<close>

primrec add_arg :: "token \<Rightarrow> cmd \<Rightarrow> cmd" where
  "add_arg t (EXEC ts) = EXEC (ts @ [t])"
| "add_arg t (REDIR c u m fd) = REDIR (add_arg t c) u m fd"
| "add_arg t (PIPE l r) = PIPE l r"
| "add_arg t (LIST l r) = LIST l r"
| "add_arg t (BACK c) = BACK c"

function exec_args :: "uchar list \<Rightarrow> cmd \<Rightarrow> nat \<Rightarrow> nat \<Rightarrow> (cmd, nat) res" where
  "exec_args b ret argc i =
     (case peek b i [124, 41, 38, 59] of (s, yes) \<Rightarrow>
        if yes then Ok ret s
        else case gettoken b s of (tok, t, j) \<Rightarrow>
          if tok = 0 then Ok ret j
          else if tok \<noteq> 97 then Panic ''syntax''
          else if Suc argc \<ge> MAXARGS then Panic ''too many args''
          else rbind (parseredirs b (add_arg t ret) j) (\<lambda>ret k. exec_args b ret (Suc argc) k))"
  by pat_completeness auto
termination
  by (relation "measure (\<lambda>(b, ret, argc, i). length b - i)") (auto intro!: args_progress [OF sym sym _ parseredirs_ge])

declare exec_args.simps [simp del]

text \<open>The loop of \<open>parseline\<close> over \<open>&\<close>.\<close>

function parse_backs :: "uchar list \<Rightarrow> cmd \<Rightarrow> nat \<Rightarrow> (cmd, nat) res" where
  "parse_backs b c i =
     (case peek b i [38] of (s, yes) \<Rightarrow>
        if \<not> yes then Ok c s else case gettoken b s of (_, _, j) \<Rightarrow> parse_backs b (BACK c) j)"
  by pat_completeness auto
termination
  by (relation "measure (\<lambda>(b, c, i). length b - i)") (auto intro!: backs_progress [OF sym sym])

declare parse_backs.simps [simp del]

text \<open>
  The recursive functions, with fuel for the nesting of calls. Each level of nesting but the
  first has taken a token, so four times the length of the line and 4 more is always enough.
\<close>

fun parseline :: "nat \<Rightarrow> uchar list \<Rightarrow> nat \<Rightarrow> (cmd, nat) res"
  and parsepipe :: "nat \<Rightarrow> uchar list \<Rightarrow> nat \<Rightarrow> (cmd, nat) res"
  and parseexec :: "nat \<Rightarrow> uchar list \<Rightarrow> nat \<Rightarrow> (cmd, nat) res"
  and parseblock :: "nat \<Rightarrow> uchar list \<Rightarrow> nat \<Rightarrow> (cmd, nat) res" where
  "parseline 0 b i = Spin"
| "parseline (Suc n) b i =
     rbind (parsepipe n b i) (\<lambda>c i.
     rbind (parse_backs b c i) (\<lambda>c i.
       case peek b i [59] of (s, yes) \<Rightarrow>
         if yes then case gettoken b s of (_, _, j) \<Rightarrow> rbind (parseline n b j) (\<lambda>r k. Ok (LIST c r) k)
         else Ok c s))"
| "parsepipe 0 b i = Spin"
| "parsepipe (Suc n) b i =
     rbind (parseexec n b i) (\<lambda>c i.
       case peek b i [124] of (s, yes) \<Rightarrow>
         if yes then case gettoken b s of (_, _, j) \<Rightarrow> rbind (parsepipe n b j) (\<lambda>r k. Ok (PIPE c r) k)
         else Ok c s)"
| "parseexec 0 b i = Spin"
| "parseexec (Suc n) b i =
     (case peek b i [40] of (s, yes) \<Rightarrow>
        if yes then parseblock n b s
        else rbind (parseredirs b (EXEC []) s) (\<lambda>ret j. exec_args b ret 0 j))"
| "parseblock 0 b i = Spin"
| "parseblock (Suc n) b i =
     (case peek b i [40] of (s, yes) \<Rightarrow>
        if \<not> yes then Panic ''parseblock''
        else case gettoken b s of (_, _, j) \<Rightarrow>
          rbind (parseline n b j) (\<lambda>c k.
            case peek b k [41] of (s, yes) \<Rightarrow>
              if \<not> yes then Panic ''syntax - missing )''
              else case gettoken b s of (_, _, j) \<Rightarrow> parseredirs b c j))"

text \<open>\<open>nulterminate\<close>, on the buffer with the line and its terminator.\<close>

primrec nulterminate :: "cmd \<Rightarrow> uchar list \<Rightarrow> uchar list" where
  "nulterminate (EXEC ts) buf = fold (\<lambda>(q, e) buf. buf[e := 0]) ts buf"
| "nulterminate (REDIR c t m fd) buf = (nulterminate c buf)[snd t := 0]"
| "nulterminate (PIPE l r) buf = nulterminate r (nulterminate l buf)"
| "nulterminate (LIST l r) buf = nulterminate r (nulterminate l buf)"
| "nulterminate (BACK c) buf = nulterminate c buf"

text \<open>The value is the command and, as the state, the buffer its offsets point into.\<close>

definition parsecmd :: "uchar list \<Rightarrow> (cmd, uchar list) res" where
  "parsecmd buf =
     (let b = cstr buf
      in case parseline (4 * length b + 4) b 0 of
           Ok c i \<Rightarrow> if fst (peek b i []) \<noteq> length b then Panic ''syntax'' else Ok c (nulterminate c (b @ [0]))
         | Panic e \<Rightarrow> Panic e | Sleep ch _ \<Rightarrow> Panic ''sleep'' | Spin \<Rightarrow> Spin)"

end
