(* ===== verification/ShellSyntax.thy ===== *)
theory ShellSyntax
  imports Shell
begin

text \<open>
  What the parser of the shell does: it ends on every line, the commands it builds are
  well-formed, and it reads back every command written out with parentheses.
\<close>

section \<open>Termination\<close>

text \<open>
  A parser that has not run out of fuel and gives no input back, or stops with one of its four
  messages. The fifth, of \<open>parseblock\<close> called anywhere but at a parenthesis, is never seen.
\<close>

definition parse_errors :: "string set" where
  "parse_errors = {''missing file for redirection'', ''syntax'', ''too many args'', ''syntax - missing )''}"

definition advances :: "nat \<Rightarrow> (cmd, nat) res \<Rightarrow> bool" where
  "advances i r = (case r of Ok c j \<Rightarrow> i \<le> j | Panic e \<Rightarrow> e \<in> parse_errors | Sleep ch j \<Rightarrow> False | Spin \<Rightarrow> False)"

lemma advances_simps [simp]:
  "advances i (Ok c j) \<longleftrightarrow> i \<le> j" "advances i (Panic e) \<longleftrightarrow> e \<in> parse_errors" "\<not> advances i Spin" "\<not> advances i (Sleep ch j)"
  by (simp_all add: advances_def)

lemma advances_bind:
  assumes "advances i r" "\<And>c j. i \<le> j \<Longrightarrow> r = Ok c j \<Longrightarrow> advances i (f c j)"
  shows "advances i (rbind r f)"
  using assms by (cases r) auto

lemma advances_mono: "i \<le> j \<Longrightarrow> advances j r \<Longrightarrow> advances i r"
  by (cases r) auto

lemma parseredirs_Panic: "parseredirs b c i = Panic e \<Longrightarrow> e = ''missing file for redirection''"
proof (induction c i rule: parseredirs_induct [where b = b])
  case (bad c i s tok t1 j r t k)
  then show ?case using parseredirs_step(2) [OF bad(1-3), of c] by simp
next
  case (more c i s tok t1 m t k)
  then show ?case using parseredirs_step(2) [OF more(1-3), of c] by simp
qed (simp add: parseredirs_step(1))

lemma advances_redirs: "i \<le> j \<Longrightarrow> advances i (parseredirs b c j)"
  using parseredirs_ge [of b c j] parseredirs_not_Spin [of b c j] parseredirs_Panic [of b c j]
  by (cases "parseredirs b c j") (auto simp: parse_errors_def)

lemma after_token:
  assumes "peek b j toks = (s, True)" "gettoken b s = (tok, t, k)" "i \<le> j"
  shows "i \<le> k" "length b - k < length b - i"
  using peek_gettoken [OF assms(1,2)] backs_progress [OF assms(1,2)] assms(3) by auto

lemma advances_args: "i \<le> j \<Longrightarrow> advances i (exec_args b ret argc j)"
proof (induction "length b - j" arbitrary: ret argc j rule: less_induct)
  case less
  obtain s y where p: "peek b j [124, 41, 38, 59] = (s, y)" by fastforce
  obtain tok q e k where g: "gettoken b s = (tok, (q, e), k)" by (metis surj_pair)
  have le: "i \<le> s" "s \<le> k" using peek_ge(1) [OF p] gettoken_ge(1-3) [OF g] less.prems by auto
  have "advances i (rbind (parseredirs b (add_arg (q, e) ret) k) (\<lambda>ret k. exec_args b ret (Suc argc) k))" if "tok \<noteq> 0"
  proof (rule advances_bind)
    show "advances i (parseredirs b (add_arg (q, e) ret) k)" using advances_redirs le by simp
    fix c l assume "parseredirs b (add_arg (q, e) ret) k = Ok c l" and i: "i \<le> l"
    then have "k \<le> l" by (intro parseredirs_ge)
    from less.hyps [OF args_progress [OF p g that this] i] show "advances i (exec_args b c (Suc argc) l)" .
  qed
  then show ?case using p g le by (subst exec_args.simps) (auto simp: parse_errors_def)
qed

lemma advances_backs: "i \<le> j \<Longrightarrow> advances i (parse_backs b c j)"
proof (induction "length b - j" arbitrary: c j rule: less_induct)
  case less
  obtain s y where p: "peek b j [38] = (s, y)" by fastforce
  obtain tok t k where g: "gettoken b s = (tok, t, k)" by (metis prod_cases3)
  have "advances i (parse_backs b (BACK c) k)" if y
  proof -
    have p': "peek b j [38] = (s, True)" using p that by simp
    show ?thesis using less.hyps [OF after_token(2) [OF p' g order_refl]] after_token(1) [OF p' g less.prems] by simp
  qed
  then show ?case using p g peek_ge(1) [OF p] less.prems by (subst parse_backs.simps) auto
qed

lemma advances_sep:
  assumes "i \<le> j" "\<And>k. i \<le> k \<Longrightarrow> length b - k < length b - i \<Longrightarrow> advances i (f k)"
  shows "advances i (case peek b j toks of (s, yes) \<Rightarrow>
    if yes then case gettoken b s of (_, _, k) \<Rightarrow> rbind (f k) (\<lambda>r k. Ok (h r) k) else Ok c s)"
proof -
  obtain s y where p: "peek b j toks = (s, y)" by fastforce
  obtain tok t k where g: "gettoken b s = (tok, t, k)" by (metis prod_cases3)
  have "advances i (rbind (f k) (\<lambda>r k. Ok (h r) k))" if y
    using assms(2) after_token [OF _ g assms(1)] p that by (intro advances_bind) auto
  then show ?thesis using p g peek_ge(1) [OF p] assms(1) by auto
qed

text \<open>The fuel that is always enough.\<close>

lemma parse_advances:
  "i \<le> j \<Longrightarrow> 4 * (length b - j) + 4 \<le> n \<Longrightarrow> advances i (parseline n b j)"
  "i \<le> j \<Longrightarrow> 4 * (length b - j) + 3 \<le> n \<Longrightarrow> advances i (parsepipe n b j)"
  "i \<le> j \<Longrightarrow> 4 * (length b - j) + 2 \<le> n \<Longrightarrow> advances i (parseexec n b j)"
  "i \<le> j \<Longrightarrow> 4 * (length b - j) + 1 \<le> n \<Longrightarrow> snd (peek b j [40]) \<Longrightarrow> advances i (parseblock n b j)"
proof (induction n arbitrary: i j)
  case (Suc n)
  {
    case 1
    have "advances j (parseline (Suc n) b j)" unfolding parseline.simps
      by (intro advances_bind advances_sep advances_backs Suc.IH(1,2)) (use 1 in auto)
    with 1(1) show ?case by (rule advances_mono)
  next
    case 2
    have "advances j (parsepipe (Suc n) b j)" unfolding parsepipe.simps
      by (intro advances_bind advances_sep Suc.IH(2,3)) (use 2 in auto)
    with 2(1) show ?case by (rule advances_mono)
  next
    case 3
    obtain s y where p: "peek b j [40] = (s, y)" by fastforce
    have "j \<le> s" using peek_ge(1) [OF p] .
    moreover have "snd (peek b s [40])" if y using p that skip_twice [of b j] by (auto simp: peek_def Let_def split: if_splits)
    ultimately have "advances i (parseblock n b s)" if y using Suc.IH(4) [of i s] 3 that by simp
    moreover have "advances i (rbind (parseredirs b (EXEC []) s) (\<lambda>ret j. exec_args b ret 0 j))"
      by (intro advances_bind advances_redirs advances_args) (use 3 \<open>j \<le> s\<close> in auto)
    ultimately show ?case using p by simp
  next
    case 4
    obtain s y where p: "peek b j [40] = (s, y)" by fastforce
    obtain tok t k where g: "gettoken b s = (tok, t, k)" by (metis prod_cases3)
    have close: "advances i (case peek b k [41] of (s, yes) \<Rightarrow>
      if \<not> yes then Panic ''syntax - missing )'' else case gettoken b s of (_, _, j) \<Rightarrow> parseredirs b c j)" if "i \<le> k" for c k
    proof -
      obtain s y where p: "peek b k [41] = (s, y)" by fastforce
      obtain tok t l where g: "gettoken b s = (tok, t, l)" by (metis prod_cases3)
      show ?thesis using p g after_token(1) [OF _ g that] by (auto simp: parse_errors_def intro: advances_redirs)
    qed
    have "advances i (rbind (parseline n b k) (\<lambda>c k. case peek b k [41] of (s, yes) \<Rightarrow>
      if \<not> yes then Panic ''syntax - missing )'' else case gettoken b s of (_, _, j) \<Rightarrow> parseredirs b c j))" if y
    proof (rule advances_bind [OF _ close])
      have p': "peek b j [40] = (s, True)" using p that by simp
      have "length b - k < length b - j" by (rule after_token(2) [OF p' g order_refl])
      then show "advances i (parseline n b k)" using Suc.IH(1) after_token(1) [OF p' g 4(1)] 4(2) by simp
    qed
    then show ?case using p g 4(3) by simp
  }
qed simp_all

lemmas parse_simps = parseline.simps parsepipe.simps parseexec.simps parseblock.simps

declare parse_simps [simp del]

lemma rbind_more_fuel:
  assumes "rbind r f \<noteq> Spin" "r \<noteq> Spin \<Longrightarrow> r' = r" "\<And>c j. r = Ok c j \<Longrightarrow> f c j \<noteq> Spin \<Longrightarrow> f' c j = f c j"
  shows "rbind r' f' = rbind r f"
  using assms by (cases r) auto

text \<open>More fuel changes no result.\<close>

lemma parse_more_fuel:
  "parseline n b i \<noteq> Spin \<Longrightarrow> parseline (Suc n) b i = parseline n b i"
  "parsepipe n b i \<noteq> Spin \<Longrightarrow> parsepipe (Suc n) b i = parsepipe n b i"
  "parseexec n b i \<noteq> Spin \<Longrightarrow> parseexec (Suc n) b i = parseexec n b i"
  "parseblock n b i \<noteq> Spin \<Longrightarrow> parseblock (Suc n) b i = parseblock n b i"
proof (induction n arbitrary: i)
  case (Suc n)
  have sep: "(case peek b j toks of (s, yes) \<Rightarrow> if yes then case gettoken b s of (_, _, k) \<Rightarrow> rbind (f' k) (\<lambda>r k. Ok (h r) k) else Ok c s) =
      (case peek b j toks of (s, yes) \<Rightarrow> if yes then case gettoken b s of (_, _, k) \<Rightarrow> rbind (f k) (\<lambda>r k. Ok (h r) k) else Ok c s)"
    if "(case peek b j toks of (s, yes) \<Rightarrow> if yes then case gettoken b s of (_, _, k) \<Rightarrow> rbind (f k) (\<lambda>r k. Ok (h r) k) else Ok c s) \<noteq> Spin"
      "\<And>k. f k \<noteq> Spin \<Longrightarrow> f' k = f k" for f f' :: "nat \<Rightarrow> (cmd, nat) res" and h c j toks
    using that by (auto split: prod.splits if_splits intro: rbind_more_fuel)
  {
    case 1
    show ?case unfolding parseline.simps(2) [of n b i] parseline.simps(2) [of "Suc n" b i]
    proof (rule rbind_more_fuel [OF 1 [unfolded parseline.simps]], goal_cases)
      case (2 c j)
      show ?case by (rule rbind_more_fuel [OF 2(2)], simp, rule sep, assumption, rule Suc.IH(1))
    qed (rule Suc.IH(2))
  next
    case 2
    show ?case unfolding parsepipe.simps(2) [of n b i] parsepipe.simps(2) [of "Suc n" b i]
    proof (rule rbind_more_fuel [OF 2 [unfolded parsepipe.simps]], goal_cases)
      case (2 c j)
      show ?case by (rule sep [OF 2(2)], rule Suc.IH(2))
    qed (rule Suc.IH(3))
  next
    case 3
    then show ?case unfolding parseexec.simps(2) [of n b i] parseexec.simps(2) [of "Suc n" b i] using Suc.IH(4)
      by (auto split: prod.splits if_splits)
  next
    case 4
    then show ?case unfolding parseblock.simps(2) [of n b i] parseblock.simps(2) [of "Suc n" b i]
      by (auto split: prod.splits if_splits intro!: rbind_more_fuel Suc.IH(1))
  }
qed (simp_all add: parse_simps)

lemma parse_fuel_mono:
  assumes "n \<le> m"
  shows "parseline n b i = Ok c j \<Longrightarrow> parseline m b i = Ok c j"
    "parsepipe n b i = Ok c j \<Longrightarrow> parsepipe m b i = Ok c j"
    "parseexec n b i = Ok c j \<Longrightarrow> parseexec m b i = Ok c j"
    "parseblock n b i = Ok c j \<Longrightarrow> parseblock m b i = Ok c j"
  using assms by (induction m rule: dec_induct) (auto simp: parse_more_fuel)

lemma parseline_fuel:
  assumes "parseline n b 0 = Ok c j"
  shows "parseline (4 * length b + 4) b 0 = Ok c j"
proof (cases "n \<le> 4 * length b + 4")
  case False
  let ?r = "parseline (4 * length b + 4) b 0"
  have a: "?r \<noteq> Spin" using parse_advances(1) [of 0 0 b "4 * length b + 4"] by (metis add.commute advances_simps(3) diff_zero le_refl)
  have "parseline m b 0 = ?r" if "4 * length b + 4 \<le> m" for m
    using that
  proof (induction m rule: dec_induct)
    case (step m)
    then show ?case using parse_more_fuel(1) [of m b 0] a by simp
  qed simp
  from this [of n] show ?thesis using assms False by simp
qed (use parse_fuel_mono(1) assms in blast)

section \<open>Well-formed commands\<close>

text \<open>A token of the line is a maximal sequence of characters of words.\<close>

fun token_ok :: "uchar list \<Rightarrow> token \<Rightarrow> bool" where
  "token_ok b (q, e) \<longleftrightarrow> q < e \<and> e \<le> length b \<and> (\<forall>k \<in> {q..<e}. word_char (b ! k)) \<and> (e < length b \<longrightarrow> \<not> word_char (b ! e))"

primrec wf_cmd :: "uchar list \<Rightarrow> cmd \<Rightarrow> bool" where
  "wf_cmd b (EXEC ts) \<longleftrightarrow> length ts < MAXARGS \<and> (\<forall>t \<in> set ts. token_ok b t)"
| "wf_cmd b (REDIR c t m fd) \<longleftrightarrow> wf_cmd b c \<and> token_ok b t \<and> (m = O_RDONLY \<and> fd = 0 \<or> m = O_WRONLY_CREATE \<and> fd = 1)"
| "wf_cmd b (PIPE c d) \<longleftrightarrow> wf_cmd b c \<and> wf_cmd b d"
| "wf_cmd b (LIST c d) \<longleftrightarrow> wf_cmd b c \<and> wf_cmd b d"
| "wf_cmd b (BACK c) \<longleftrightarrow> wf_cmd b c"

lemma skip_word_token:
  assumes "word_char (char_at b q)" "q < length b"
  shows "token_ok b (q, skip_while word_char b q)"
proof -
  let ?w = "takeWhile word_char (drop q b)"
  have "b ! q # drop (Suc q) b = drop q b" using assms(2) by (simp add: Cons_nth_drop_Suc)
  then have "?w \<noteq> []" using assms by (metis char_at_def list.discI takeWhile.simps(2))
  moreover have "word_char (b ! k)" if "q \<le> k" "k < q + length ?w" for k
  proof -
    have "?w ! (k - q) = drop q b ! (k - q)" using that by (intro takeWhile_nth) simp
    moreover have "?w ! (k - q) \<in> set ?w" using that by (intro nth_mem) simp
    ultimately show ?thesis using that assms(2) by (auto dest: set_takeWhileD)
  qed
  moreover have "q + length ?w \<le> length b" using length_takeWhile_le [of word_char "drop q b"] assms(2) by simp
  moreover have "\<not> word_char (b ! (q + length ?w))" if "q + length ?w < length b"
    using skip_while_stop [of word_char b q] that by (simp add: skip_while_takeWhile char_at_def)
  ultimately show ?thesis by (simp add: skip_while_takeWhile)
qed

lemma gettoken_word:
  assumes "gettoken b i = (97, t, k)"
  shows "token_ok b t"
proof -
  let ?s = "skip_while ws b i"
  have c: "char_at b ?s \<noteq> 0" "char_at b ?s \<notin> {124, 40, 41, 59, 38, 60, 62}" "t = (?s, skip_while word_char b ?s)"
    using assms by (auto simp: gettoken_def Let_def split: if_splits)
  have l: "?s < length b" using c(1) by (auto simp: char_at_def split: if_splits)
  have "\<not> ws (char_at b ?s)" by (rule skip_while_stop [OF l])
  then have "word_char (char_at b ?s)" using c(2) by (auto simp: word_char_def ws_def symbols_def)
  then show ?thesis unfolding c(3) using l by (rule skip_word_token)
qed

text \<open>The arguments collected so far, behind the redirections.\<close>

primrec exec_node :: "cmd \<Rightarrow> token list option" where
  "exec_node (EXEC ts) = Some ts"
| "exec_node (REDIR c t m fd) = exec_node c"
| "exec_node (PIPE c d) = None"
| "exec_node (LIST c d) = None"
| "exec_node (BACK c) = None"

lemma wf_redirs:
  "parseredirs b c i = Ok d j \<Longrightarrow> wf_cmd b c \<Longrightarrow> wf_cmd b d \<and> exec_node d = exec_node c"
proof (induction c i rule: parseredirs_induct [where b = b])
  case (bad c i s tok t1 k r t l)
  then show ?case using parseredirs_step(2) [OF bad(1-3), of c] by simp
next
  case (more c i s tok t1 m t k)
  have "wf_cmd b (redircmd tok t c) \<and> exec_node (redircmd tok t c) = exec_node c"
    using gettoken_word [OF more(3)] more.prems(2) by (simp add: redircmd_def)
  then show ?case using more.IH more.prems(1) parseredirs_step(2) [OF more(1-3), of c] by simp
qed (simp add: parseredirs_step(1))

lemma wf_add_arg:
  "wf_cmd b c \<Longrightarrow> exec_node c = Some ts \<Longrightarrow> token_ok b t \<Longrightarrow> Suc (length ts) < MAXARGS \<Longrightarrow>
     wf_cmd b (add_arg t c) \<and> exec_node (add_arg t c) = Some (ts @ [t])"
  by (induction c) auto

lemma wf_exec_args:
  "exec_args b ret (length ts) i = Ok c j \<Longrightarrow> wf_cmd b ret \<Longrightarrow> exec_node ret = Some ts \<Longrightarrow> wf_cmd b c"
proof (induction "length b - i" arbitrary: ret ts i rule: less_induct)
  case less
  obtain s y where p: "peek b i [124, 41, 38, 59] = (s, y)" by fastforce
  obtain tok q e k where g: "gettoken b s = (tok, (q, e), k)" by (metis surj_pair)
  show ?case
  proof (cases "y \<or> tok = 0")
    case True
    then show ?thesis using less.prems p g by (subst (asm) exec_args.simps) (auto split: if_splits)
  next
    case False
    then have tok: "tok = 97" "Suc (length ts) < MAXARGS"
      and r: "rbind (parseredirs b (add_arg (q, e) ret) k) (\<lambda>ret k. exec_args b ret (Suc (length ts)) k) = Ok c j"
      using less.prems(1) p g by (subst (asm) exec_args.simps, auto split: if_splits)+
    obtain d l where d: "parseredirs b (add_arg (q, e) ret) k = Ok d l" "exec_args b d (Suc (length ts)) l = Ok c j"
      using r by (rule rbind_OkE)
    have "token_ok b (q, e)" using gettoken_word g tok(1) by blast
    then have "wf_cmd b (add_arg (q, e) ret) \<and> exec_node (add_arg (q, e) ret) = Some (ts @ [(q, e)])"
      using wf_add_arg less.prems(2,3) tok(2) by blast
    then have w: "wf_cmd b d" "exec_node d = Some (ts @ [(q, e)])" using wf_redirs [OF d(1)] by auto
    have "length b - l < length b - i" using args_progress [OF p g _ parseredirs_ge [OF d(1)]] tok(1) by simp
    then show ?thesis using less.hyps [of l d "ts @ [(q, e)]"] d(2) w by simp
  qed
qed

lemma wf_backs: "parse_backs b c i = Ok d j \<Longrightarrow> wf_cmd b c \<Longrightarrow> wf_cmd b d"
proof (induction "length b - i" arbitrary: c i rule: less_induct)
  case less
  obtain s y where p: "peek b i [38] = (s, y)" by fastforce
  obtain tok t k where g: "gettoken b s = (tok, t, k)" by (metis prod_cases3)
  show ?case
  proof (cases y)
    case True
    then have p': "peek b i [38] = (s, True)" using p by simp
    have "parse_backs b (BACK c) k = Ok d j" using less.prems(1) p' g by (subst (asm) parse_backs.simps) simp
    then show ?thesis using less.hyps [OF backs_progress [OF p' g]] less.prems(2) by simp
  next
    case False
    then show ?thesis using less.prems p by (subst (asm) parse_backs.simps) simp
  qed
qed

lemma wf_parse:
  "parseline n b i = Ok c j \<Longrightarrow> wf_cmd b c"
  "parsepipe n b i = Ok c j \<Longrightarrow> wf_cmd b c"
  "parseexec n b i = Ok c j \<Longrightarrow> wf_cmd b c"
  "parseblock n b i = Ok c j \<Longrightarrow> wf_cmd b c"
proof (induction n arbitrary: i c j)
  case (Suc n)
  {
    case 1
    then show ?case unfolding parseline.simps
      by (auto elim!: rbind_OkE split: prod.splits if_splits dest!: Suc.IH(1,2)) (metis wf_backs)+
  next
    case 2
    then show ?case unfolding parsepipe.simps
      by (auto elim!: rbind_OkE split: prod.splits if_splits dest!: Suc.IH(2,3))
  next
    case 3
    then show ?case unfolding parseexec.simps using wf_exec_args [of b _ "[]"]
      by (auto elim!: rbind_OkE split: prod.splits if_splits dest!: Suc.IH(4) wf_redirs)
  next
    case 4
    then show ?case unfolding parseblock.simps
      by (auto elim!: rbind_OkE split: prod.splits if_splits dest!: Suc.IH(1) wf_redirs)
  }
qed (simp_all add: parse_simps)

section \<open>The strings of a command\<close>

text \<open>
  What \<open>runcmd\<close> reads of a command: its shape, with the C strings that the tokens point to in
  place of the tokens.
\<close>

datatype shape =
    SExec "uchar list list"
  | SRedir shape "uchar list" uint cint
  | SPipe shape shape
  | SSeq shape shape
  | SBack shape

primrec meaning :: "(token \<Rightarrow> uchar list) \<Rightarrow> cmd \<Rightarrow> shape" where
  "meaning f (EXEC ts) = SExec (map f ts)"
| "meaning f (REDIR c t m fd) = SRedir (meaning f c) (f t) m fd"
| "meaning f (PIPE c d) = SPipe (meaning f c) (meaning f d)"
| "meaning f (LIST c d) = SSeq (meaning f c) (meaning f d)"
| "meaning f (BACK c) = SBack (meaning f c)"

text \<open>The C string at a token of the buffer, and the piece of the line that a token covers.\<close>

definition c_string :: "uchar list \<Rightarrow> token \<Rightarrow> uchar list" where
  "c_string buf t = cstr (drop (fst t) buf)"

definition token_text :: "uchar list \<Rightarrow> token \<Rightarrow> uchar list" where
  "token_text b t = take (snd t - fst t) (drop (fst t) b)"

definition is_word :: "uchar list \<Rightarrow> bool" where
  "is_word w \<longleftrightarrow> w \<noteq> [] \<and> (\<forall>x \<in> set w. x \<noteq> 0 \<and> word_char x)"

primrec wf_shape :: "shape \<Rightarrow> bool" where
  "wf_shape (SExec xs) \<longleftrightarrow> length xs < MAXARGS \<and> (\<forall>w \<in> set xs. is_word w)"
| "wf_shape (SRedir x f m fd) \<longleftrightarrow> wf_shape x \<and> is_word f \<and> (m = O_RDONLY \<and> fd = 0 \<or> m = O_WRONLY_CREATE \<and> fd = 1)"
| "wf_shape (SPipe x y) \<longleftrightarrow> wf_shape x \<and> wf_shape y"
| "wf_shape (SSeq x y) \<longleftrightarrow> wf_shape x \<and> wf_shape y"
| "wf_shape (SBack x) \<longleftrightarrow> wf_shape x"

primrec tokens :: "cmd \<Rightarrow> token set" where
  "tokens (EXEC ts) = set ts"
| "tokens (REDIR c t m fd) = insert t (tokens c)"
| "tokens (PIPE c d) = tokens c \<union> tokens d"
| "tokens (LIST c d) = tokens c \<union> tokens d"
| "tokens (BACK c) = tokens c"

lemma meaning_cong: "(\<And>t. t \<in> tokens c \<Longrightarrow> f t = g t) \<Longrightarrow> meaning f c = meaning g c"
  by (induction c) auto

lemma tokens_ok: "wf_cmd b c \<Longrightarrow> t \<in> tokens c \<Longrightarrow> token_ok b t"
  by (induction c) auto

lemma fold_nul:
  "length (fold (\<lambda>(q, e) buf. buf[e := 0]) ts buf) = length buf"
  "k < length buf \<Longrightarrow> fold (\<lambda>(q, e) buf. buf[e := 0]) ts buf ! k = (if k \<in> snd ` set ts then 0 else buf ! k)"
  for buf :: "uchar list"
  by (induction ts arbitrary: buf) (auto simp: nth_list_update split: prod.splits)

lemma length_nulterminate [simp]: "length (nulterminate c buf) = length buf"
  by (induction c arbitrary: buf) (auto simp: fold_nul)

lemma nth_nulterminate:
  "k < length buf \<Longrightarrow> nulterminate c buf ! k = (if k \<in> snd ` tokens c then 0 else buf ! k)"
proof (induction c arbitrary: buf)
  case (REDIR c t m fd)
  then show ?case by (cases "snd t = k") auto
qed (simp_all add: fold_nul image_Un)

lemma token_text_word:
  assumes "0 \<notin> set b" "token_ok b t"
  shows "is_word (token_text b t)"
proof -
  obtain q e where t: "t = (q, e)" by fastforce
  have e: "q < e" "e \<le> length b" "\<forall>k \<in> {q..<e}. word_char (b ! k)" using assms(2) t by auto
  have "token_text b t = map (\<lambda>k. b ! k) [q..<e]" using e by (intro nth_equalityI) (auto simp: token_text_def t)
  moreover have "b ! k \<noteq> 0" if "k < e" for k using that e(2) assms(1) by (metis nth_mem order_less_le_trans)
  ultimately show ?thesis using e by (auto simp: is_word_def)
qed

text \<open>\<open>nulterminate\<close> ends each token where it ended in the line, and breaks no other token.\<close>

lemma nulterminate_string:
  assumes "0 \<notin> set b" "wf_cmd b c" "t \<in> tokens c"
  shows "c_string (nulterminate c (b @ [0])) t = token_text b t"
proof -
  let ?n = "nulterminate c (b @ [0])"
  obtain q e where t: "t = (q, e)" by fastforce
  have e: "q < e" "e \<le> length b" "\<forall>k \<in> {q..<e}. word_char (b ! k)" using tokens_ok [OF assms(2,3)] t by auto
  have ends: "k \<notin> snd ` tokens c" if "q \<le> k" "k < e" for k
  proof
    assume "k \<in> snd ` tokens c"
    then obtain p where "(p, k) \<in> tokens c" by auto
    then show False using tokens_ok [OF assms(2)] e that by fastforce
  qed
  have "take (e - q) (drop q ?n) = token_text b t"
    using e ends by (intro nth_equalityI) (auto simp: token_text_def t nth_nulterminate nth_append)
  moreover have "?n ! e = 0" using nth_nulterminate [of e "b @ [0]" c] assms(3) e(2) t by (force simp: image_iff)
  then have "drop e ?n = 0 # drop (Suc e) ?n" using e(2) by (metis Cons_nth_drop_Suc le_imp_less_Suc length_append_singleton length_nulterminate)
  ultimately have "drop q ?n = token_text b t @ 0 # drop (Suc e) ?n" using e(1)
    by (metis append_take_drop_id drop_drop le_add_diff_inverse2 less_imp_le)
  moreover have "\<forall>x \<in> set (token_text b t). x \<noteq> 0" using token_text_word [OF assms(1) tokens_ok [OF assms(2,3)]] by (simp add: is_word_def)
  ultimately show ?thesis by (simp add: c_string_def cstr_def t)
qed

lemma wf_meaning: "0 \<notin> set b \<Longrightarrow> wf_cmd b c \<Longrightarrow> wf_shape (meaning (token_text b) c)"
  by (induction c) (auto simp: token_text_word)

lemma parsecmd_OkD:
  assumes "parsecmd buf = Ok c buf'"
  shows "wf_cmd (cstr buf) c" "buf' = nulterminate c (cstr buf @ [0])"
  using assms wf_parse(1) by (auto simp: parsecmd_def Let_def split: res.splits if_splits)

lemma cstr_no_nul: "0 \<notin> set (cstr buf)"
  by (auto simp: cstr_def dest: set_takeWhileD)

lemma parsecmd_strings:
  assumes "parsecmd buf = Ok c buf'"
  shows "meaning (c_string buf') c = meaning (token_text (cstr buf)) c"
  using nulterminate_string [OF cstr_no_nul] parsecmd_OkD [OF assms] by (auto intro: meaning_cong)

section \<open>Reading characters\<close>

lemma strchr_set: "0 \<notin> set s \<Longrightarrow> strchr s c = None \<longleftrightarrow> c \<notin> set s"
  by (induction s) auto

lemma ws_iff: "ws c \<longleftrightarrow> c \<in> {32, 9, 13, 10, 11}"
  by (simp add: ws_def whitespace_def strchr_set)

lemma word_char_iff: "word_char c \<longleftrightarrow> \<not> ws c \<and> c \<notin> {60, 124, 62, 38, 59, 40, 41}"
  by (simp add: word_char_def ws_def symbols_def strchr_set)

lemma char_at_append: "char_at (p @ s) (length p + k) = char_at s k" "char_at (p @ s) (length p) = char_at s 0"
  by (simp_all add: char_at_def nth_append)

lemma char_at_Cons [simp]: "char_at (x # s) 0 = x" "char_at (x # s) (Suc k) = char_at s k" "char_at [] k = 0"
  by (simp_all add: char_at_def)

lemma skip_none: "\<not> P (char_at b i) \<Longrightarrow> skip_while P b i = i"
  by (subst skip_while.simps) simp

lemma peek_here:
  assumes "\<not> ws (char_at b i)" "0 \<notin> set toks"
  shows "peek b i toks = (i, char_at b i \<noteq> 0 \<and> char_at b i \<in> set toks)"
  using assms by (simp add: peek_def Let_def skip_none strchr_set)

lemma gettoken_symbol:
  assumes "char_at b i \<in> {124, 40, 41, 59, 38, 60} \<or> char_at b i = 62 \<and> char_at b (Suc i) \<noteq> 62" "\<not> ws (char_at b (Suc i))"
  shows "gettoken b i = (char_at b i, (i, Suc i), Suc i)"
proof -
  have "\<not> ws (char_at b i)" using assms(1) by (auto simp: ws_iff)
  then have "skip_while ws b i = i" "skip_while ws b (Suc i) = Suc i" using assms(2) by (simp_all add: skip_none)
  then show ?thesis using assms(1) by (auto simp: gettoken_def Let_def)
qed

lemma gettoken_end: "char_at b i = 0 \<Longrightarrow> gettoken b i = (0, (i, i), i)"
  by (simp add: gettoken_def Let_def skip_none ws_iff)

text \<open>What follows a word: the end of the line or a character that ends it.\<close>

lemma gettoken_at_word:
  assumes "b = p @ w @ s" "is_word w" "s = [] \<or> \<not> word_char (hd s)"
  shows "gettoken b (length p) = (97, (length p, length p + length w), skip_while ws b (length p + length w))"
proof -
  obtain x v where w: "w = x # v" using assms(2) by (cases w) (auto simp: is_word_def)
  have x: "char_at b (length p) = x" by (simp add: assms(1) w char_at_append)
  have c: "x \<noteq> 0" "word_char x" using assms(2) w by (auto simp: is_word_def)
  have "takeWhile word_char (w @ s) = w" using assms(2,3) by (cases s) (auto simp: is_word_def takeWhile_append)
  then have "skip_while word_char b (length p) = length p + length w" by (simp add: skip_while_takeWhile assms(1))
  moreover have "skip_while ws b (length p) = length p" using c(2) x by (simp add: skip_none word_char_iff)
  ultimately show ?thesis using c x by (auto simp: gettoken_def Let_def word_char_iff)
qed

section \<open>Big steps of the parser\<close>

definition line_to :: "uchar list \<Rightarrow> nat \<Rightarrow> cmd \<Rightarrow> nat \<Rightarrow> bool" where
  "line_to b i c j \<longleftrightarrow> (\<exists>n. parseline n b i = Ok c j)"

definition pipe_to :: "uchar list \<Rightarrow> nat \<Rightarrow> cmd \<Rightarrow> nat \<Rightarrow> bool" where
  "pipe_to b i c j \<longleftrightarrow> (\<exists>n. parsepipe n b i = Ok c j)"

definition exec_to :: "uchar list \<Rightarrow> nat \<Rightarrow> cmd \<Rightarrow> nat \<Rightarrow> bool" where
  "exec_to b i c j \<longleftrightarrow> (\<exists>n. parseexec n b i = Ok c j)"

lemma exec_to_block:
  assumes "char_at b i = 40" "\<not> ws (char_at b (Suc i))" "line_to b (Suc i) c k" "char_at b k = 41" "\<not> ws (char_at b (Suc k))"
    "parseredirs b c (Suc k) = Ok d l"
  shows "exec_to b i d l"
proof -
  obtain n where n: "parseline n b (Suc i) = Ok c k" using assms(3) by (auto simp: line_to_def)
  have p: "peek b i [40] = (i, True)" "peek b k [41] = (k, True)" using assms(1,4) by (simp_all add: peek_here ws_iff)
  have g: "gettoken b i = (40, (i, Suc i), Suc i)" "gettoken b k = (41, (k, Suc k), Suc k)"
    using gettoken_symbol [of b i] gettoken_symbol [of b k] assms by simp_all
  have "parseexec (Suc (Suc n)) b i = Ok d l" by (simp add: parse_simps p g n assms(6))
  then show ?thesis unfolding exec_to_def ..
qed

lemma exec_to_args:
  assumes "\<not> ws (char_at b i)" "char_at b i \<noteq> 40" "parseredirs b (EXEC []) i = Ok c j" "exec_args b c 0 j = Ok d k"
  shows "exec_to b i d k"
proof -
  have "parseexec (Suc 0) b i = Ok d k" using assms by (simp add: parse_simps peek_here)
  then show ?thesis unfolding exec_to_def ..
qed

lemma pipe_to_one:
  assumes "exec_to b i c j" "\<not> ws (char_at b j)" "char_at b j \<noteq> 124"
  shows "pipe_to b i c j"
proof -
  obtain n where "parseexec n b i = Ok c j" using assms(1) by (auto simp: exec_to_def)
  then have "parsepipe (Suc n) b i = Ok c j" using assms(2,3) by (simp add: parse_simps peek_here)
  then show ?thesis unfolding pipe_to_def ..
qed

lemma pipe_to_more:
  assumes "exec_to b i c j" "char_at b j = 124" "\<not> ws (char_at b (Suc j))" "pipe_to b (Suc j) d k"
  shows "pipe_to b i (PIPE c d) k"
proof -
  obtain n m where nm: "parseexec n b i = Ok c j" "parsepipe m b (Suc j) = Ok d k" using assms(1,4) by (auto simp: exec_to_def pipe_to_def)
  have e: "parseexec (n + m) b i = Ok c j" "parsepipe (n + m) b (Suc j) = Ok d k"
    by (rule parse_fuel_mono(3) [OF _ nm(1)], simp, rule parse_fuel_mono(2) [OF _ nm(2)], simp)
  have "gettoken b j = (124, (j, Suc j), Suc j)" using gettoken_symbol [of b j] assms(2,3) by simp
  moreover have "peek b j [124] = (j, True)" using assms(2) by (simp add: peek_here ws_iff)
  ultimately have "parsepipe (Suc (n + m)) b i = Ok (PIPE c d) k" by (simp add: parse_simps e)
  then show ?thesis unfolding pipe_to_def ..
qed

lemma backs_none: "\<not> ws (char_at b i) \<Longrightarrow> char_at b i \<noteq> 38 \<Longrightarrow> parse_backs b c i = Ok c i"
  by (subst parse_backs.simps) (simp add: peek_here)

lemma backs_one:
  assumes "char_at b i = 38" "char_at b (Suc i) \<in> {0, 41}"
  shows "parse_backs b c i = Ok (BACK c) (Suc i)"
proof -
  have w: "\<not> ws (char_at b (Suc i))" "char_at b (Suc i) \<noteq> 38" using assms(2) by (auto simp: ws_iff)
  have "gettoken b i = (38, (i, Suc i), Suc i)" using gettoken_symbol [of b i] assms(1) w by simp
  moreover have "peek b i [38] = (i, True)" using assms(1) by (simp add: peek_here ws_iff)
  ultimately show ?thesis using backs_none [OF w] by (subst parse_backs.simps) simp
qed

lemma line_to_one:
  assumes "pipe_to b i c j" "parse_backs b c j = Ok d k" "char_at b k \<in> {0, 41}"
  shows "line_to b i d k"
proof -
  obtain n where n: "parsepipe n b i = Ok c j" using assms(1) by (auto simp: pipe_to_def)
  have "peek b k [59] = (k, False)" using assms(3) by (auto simp: peek_here ws_iff)
  then have "parseline (Suc n) b i = Ok d k" by (simp add: parse_simps n assms(2))
  then show ?thesis unfolding line_to_def ..
qed

lemma line_to_list:
  assumes "pipe_to b i c j" "char_at b j = 59" "\<not> ws (char_at b (Suc j))" "line_to b (Suc j) d k"
  shows "line_to b i (LIST c d) k"
proof -
  obtain n m where nm: "parsepipe n b i = Ok c j" "parseline m b (Suc j) = Ok d k" using assms(1,4) by (auto simp: line_to_def pipe_to_def)
  have e: "parsepipe (n + m) b i = Ok c j" "parseline (n + m) b (Suc j) = Ok d k"
    by (rule parse_fuel_mono(2) [OF _ nm(1)], simp, rule parse_fuel_mono(1) [OF _ nm(2)], simp)
  have "gettoken b j = (59, (j, Suc j), Suc j)" using gettoken_symbol [of b j] assms(2,3) by simp
  moreover have "peek b j [59] = (j, True)" "parse_backs b c j = Ok c j" using assms(2) by (simp_all add: peek_here backs_none ws_iff)
  ultimately have "parseline (Suc (n + m)) b i = Ok (LIST c d) k" by (simp add: parse_simps e)
  then show ?thesis unfolding line_to_def ..
qed

section \<open>Writing and reading a command\<close>

fun unwords :: "uchar list list \<Rightarrow> uchar list" where
  "unwords [] = []"
| "unwords [w] = w"
| "unwords (w # v # vs) = w @ 32 # unwords (v # vs)"

primrec unparse :: "shape \<Rightarrow> uchar list" where
  "unparse (SExec xs) = unwords xs"
| "unparse (SRedir x f m fd) = 40 # unparse x @ 41 # (if fd = 0 then 60 else 62) # f"
| "unparse (SPipe x y) = 40 # unparse x @ 41 # 124 # 40 # unparse y @ [41]"
| "unparse (SSeq x y) = 40 # unparse x @ 41 # 59 # 40 # unparse y @ [41]"
| "unparse (SBack x) = 40 # unparse x @ [41, 38]"

text \<open>A command is followed by the end of the line or by a closing parenthesis.\<close>

abbreviation (input) closed :: "uchar list \<Rightarrow> bool" where
  "closed s \<equiv> char_at s 0 \<in> {0, 41}"

lemma not_word_end: "closed s \<Longrightarrow> 0 \<notin> set s \<Longrightarrow> s = [] \<or> \<not> word_char (hd s)"
  by (cases s) (auto simp: word_char_iff)

lemma word_start: "is_word w \<Longrightarrow> char_at (w @ s) 0 = hd w \<and> word_char (hd w) \<and> hd w \<noteq> 0"
  by (cases w) (auto simp: is_word_def)

lemma unwords_Cons: "unwords (w # v) = w @ (if v = [] then [] else 32 # unwords v)"
  by (cases v) auto

lemma unwords_start: "\<forall>w \<in> set v. is_word w \<Longrightarrow> v \<noteq> [] \<Longrightarrow> word_char (char_at (unwords v @ s) 0) \<and> char_at (unwords v @ s) 0 \<noteq> 0"
  by (cases v) (auto simp: unwords_Cons word_start)

lemma unparse_start: "wf_shape x \<Longrightarrow> closed s \<Longrightarrow> \<not> ws (char_at (unparse x @ s) 0)"
proof (induction x)
  case (SExec xs)
  then show ?case using unwords_start [of xs s] by (cases "xs = []") (auto simp: word_char_iff ws_iff)
qed (simp_all add: ws_iff)

lemma unwords_no_nul: "\<forall>w \<in> set v. is_word w \<Longrightarrow> 0 \<notin> set (unwords v)"
  by (induction v rule: unwords.induct) (auto simp: is_word_def)

lemma unparse_no_nul: "wf_shape x \<Longrightarrow> 0 \<notin> set (unparse x)"
proof (induction x)
  case (SExec xs)
  then show ?case by (simp add: unwords_no_nul)
qed (auto simp: is_word_def)

lemma redirs_none: "\<not> ws (char_at b i) \<Longrightarrow> char_at b i \<notin> {60, 62} \<Longrightarrow> parseredirs b c i = Ok c i"
  by (rule parseredirs_step(1)) (simp add: peek_here)

lemma token_text_at: "token_text (p @ w @ s) (length p, length p + length w) = w"
  by (simp add: token_text_def)

lemma redirs_one:
  assumes "b = p @ x # f @ s" "x \<in> {60, 62}" "is_word f" "closed s" "0 \<notin> set s"
  shows "parseredirs b c (length p) = Ok (redircmd x (Suc (length p), Suc (length p) + length f) c) (Suc (length p) + length f)"
proof -
  let ?i = "length p" and ?j = "Suc (length p) + length f"
  have x: "char_at b ?i = x" by (simp add: assms(1) char_at_append)
  have n: "char_at b (Suc ?i) = hd f" using word_start [OF assms(3), of s] char_at_append(2) [of "p @ [x]" "f @ s"] by (simp add: assms(1))
  have e: "char_at b ?j = char_at s 0" using char_at_append(2) [of "p @ x # f" s] by (simp add: assms(1))
  have w: "\<not> ws (char_at b (Suc ?i))" "char_at b (Suc ?i) \<noteq> 62" using n word_start [OF assms(3)] by (auto simp: word_char_iff)
  have we: "\<not> ws (char_at b ?j)" "char_at b ?j \<notin> {60, 62}" using assms(4) unfolding e by (auto simp: ws_iff)
  have "peek b ?i [60, 62] = (?i, True)" using assms(2) by (auto simp: peek_here x ws_iff)
  moreover have "gettoken b ?i = (x, (?i, Suc ?i), Suc ?i)" using gettoken_symbol [of b ?i] assms(2) w by (auto simp: x)
  moreover have "gettoken b (Suc ?i) = (97, (Suc ?i, ?j), ?j)"
    using gettoken_at_word [of b "p @ [x]" f s] not_word_end [OF assms(4,5)] skip_none [of ws b ?j] we(1) by (simp add: assms(1,3))
  ultimately show ?thesis using parseredirs_step(2) [of b ?i ?i x _ "Suc ?i" 97 "(Suc ?i, ?j)" ?j c] redirs_none [OF we] by simp
qed

lemma args_unwords:
  assumes "b = p @ unwords v @ s" "closed s" "0 \<notin> set s" "\<forall>w \<in> set v. is_word w" "length ts + length v < MAXARGS"
  shows "\<exists>us. exec_args b (EXEC ts) (length ts) (length p) = Ok (EXEC (ts @ us)) (length p + length (unwords v)) \<and> map (token_text b) us = v"
  using assms(1,4,5)
proof (induction v arbitrary: p ts)
  case Nil
  then have c: "char_at b (length p) = char_at s 0" by (simp add: char_at_append)
  then have "\<not> ws (char_at b (length p))" using assms(2) by (auto simp: ws_iff)
  then show ?case using assms(2) c by (subst exec_args.simps) (auto simp: peek_here gettoken_end)
next
  case (Cons w v)
  let ?i = "length p" and ?e = "length p + length w"
  define r where "r = (if v = [] then s else 32 # unwords v @ s)"
  have b: "b = p @ w @ r" using Cons.prems(1) by (simp add: unwords_Cons r_def)
  have w: "is_word w" using Cons.prems(2) by simp
  have x: "char_at b ?i = hd w" "word_char (hd w)" "hd w \<noteq> 0" using word_start [OF w, of r] by (auto simp: b char_at_append)
  have r: "r = [] \<or> \<not> word_char (hd r)" using not_word_end [OF assms(2,3)] by (auto simp: r_def word_char_iff ws_iff)
  obtain q where q: "skip_while ws b ?e = length q" "b = q @ unwords v @ s" "\<not> ws (char_at b (length q))"
    "char_at b (length q) \<notin> {60, 62}" "length p + length (unwords (w # v)) = length q + length (unwords v)"
  proof (cases "v = []")
    case True
    have e: "char_at b ?e = char_at s 0" using char_at_append(2) [of "p @ w" s] by (simp add: b r_def True)
    have "\<not> ws (char_at b ?e)" "char_at b ?e \<notin> {60, 62}" using assms(2) unfolding e by (auto simp: ws_iff)
    then show ?thesis using that [of "p @ w"] skip_none [of ws b ?e] by (simp add: b r_def True)
  next
    case False
    have "word_char (char_at (unwords v @ s) 0)" using unwords_start [of v s] Cons.prems(2) False by simp
    then have n: "word_char (char_at b (Suc ?e))" using char_at_append(2) [of "p @ w @ [32]" "unwords v @ s"] by (simp add: b r_def False)
    have "char_at b ?e = 32" using char_at_append(2) [of "p @ w" "32 # unwords v @ s"] by (simp add: b r_def False)
    then have "skip_while ws b ?e = Suc ?e" using n skip_none [of ws b "Suc ?e"]
      by (subst skip_while.simps) (auto simp: ws_iff word_char_iff char_at_def split: if_splits)
    then show ?thesis using that [of "p @ w @ [32]"] n by (auto simp: b r_def False word_char_iff unwords_Cons)
  qed
  have "gettoken b ?i = (97, (?i, ?e), length q)" using gettoken_at_word [OF b w r] q(1) by simp
  moreover have "peek b ?i [124, 41, 38, 59] = (?i, False)" using x by (auto simp: peek_here word_char_iff)
  ultimately have run: "exec_args b (EXEC ts) (length ts) ?i = exec_args b (EXEC (ts @ [(?i, ?e)])) (length (ts @ [(?i, ?e)])) (length q)"
    using Cons.prems(3) redirs_none [OF q(3,4)] by (subst exec_args.simps) simp
  have "\<exists>us. exec_args b (EXEC (ts @ [(?i, ?e)])) (length (ts @ [(?i, ?e)])) (length q) =
      Ok (EXEC ((ts @ [(?i, ?e)]) @ us)) (length q + length (unwords v)) \<and> map (token_text b) us = v"
    using Cons.prems(2,3) by (intro Cons.IH q(2)) auto
  then obtain us where "exec_args b (EXEC ts) (length ts) ?i = Ok (EXEC (ts @ (?i, ?e) # us)) (length q + length (unwords v))"
    "map (token_text b) us = v" unfolding run by auto
  moreover have "token_text b (?i, ?e) = w" unfolding b by (rule token_text_at)
  ultimately show ?case using q(5) by (intro exI [of _ "(?i, ?e) # us"]) simp
qed

definition reads_back :: "uchar list \<Rightarrow> shape \<Rightarrow> bool" where
  "reads_back b x \<longleftrightarrow> (\<forall>p s. b = p @ unparse x @ s \<longrightarrow> closed s \<longrightarrow> 0 \<notin> set s \<longrightarrow>
     (\<exists>c. line_to b (length p) c (length p + length (unparse x)) \<and> meaning (token_text b) c = x))"

lemma exec_unparse:
  assumes "reads_back b x" "b = p @ 40 # unparse x @ 41 # s" "wf_shape x" "0 \<notin> set s" "\<not> ws (char_at s 0)"
  obtains c where "meaning (token_text b) c = x" "\<And>d l. parseredirs b c (length (p @ 40 # unparse x @ [41])) = Ok d l \<Longrightarrow> exec_to b (length p) d l"
proof -
  let ?k = "Suc (length p) + length (unparse x)"
  have "b = (p @ [40]) @ unparse x @ 41 # s" using assms(2) by simp
  then have "\<exists>c. line_to b (length (p @ [40])) c (length (p @ [40]) + length (unparse x)) \<and> meaning (token_text b) c = x"
    using assms(1) [unfolded reads_back_def, rule_format, of "p @ [40]" "41 # s"] assms(4) by simp
  then obtain c where c: "line_to b (Suc (length p)) c ?k" "meaning (token_text b) c = x" by auto
  have "\<not> ws (char_at b (Suc (length p)))"
    using unparse_start [OF assms(3), of "41 # s"] char_at_append(2) [of "p @ [40]" "unparse x @ 41 # s"] assms(2) by simp
  moreover have "char_at b ?k = 41" "char_at b (Suc ?k) = char_at s 0"
    using char_at_append(2) [of "p @ 40 # unparse x" "41 # s"] char_at_append(2) [of "p @ 40 # unparse x @ [41]" s] assms(2) by simp_all
  ultimately have "exec_to b (length p) d l" if "parseredirs b c (Suc ?k) = Ok d l" for d l
    using exec_to_block [of b "length p" c ?k d l] c(1) that assms(2,5) by (simp add: char_at_append)
  then show ?thesis using that c(2) by simp
qed

text \<open>A command in parentheses without a redirection behind them.\<close>

lemma exec_parens:
  assumes "reads_back b x" "b = p @ 40 # unparse x @ 41 # s" "wf_shape x" "0 \<notin> set s" "\<not> ws (char_at s 0)" "char_at s 0 \<notin> {60, 62}"
  obtains c where "meaning (token_text b) c = x" "exec_to b (length p) c (length (p @ 40 # unparse x @ [41]))"
proof -
  let ?j = "length (p @ 40 # unparse x @ [41])"
  obtain c where c: "meaning (token_text b) c = x" "\<And>d l. parseredirs b c ?j = Ok d l \<Longrightarrow> exec_to b (length p) d l"
    using exec_unparse [OF assms(1-5)] by blast
  have "char_at b ?j = char_at s 0" using char_at_append(2) [of "p @ 40 # unparse x @ [41]" s] assms(2) by simp
  then have "parseredirs b c ?j = Ok c ?j" using redirs_none [of b ?j] assms(5,6) by simp
  from c(2) [OF this] c(1) show ?thesis using that by blast
qed

lemma pipe_parens:
  assumes "reads_back b x" "b = p @ 40 # unparse x @ 41 # s" "wf_shape x" "0 \<notin> set s" "char_at s 0 \<in> {0, 41, 38, 59}"
  obtains c where "meaning (token_text b) c = x" "pipe_to b (length p) c (length (p @ 40 # unparse x @ [41]))"
proof -
  have w: "\<not> ws (char_at s 0)" "char_at s 0 \<notin> {60, 62}" using assms(5) by (auto simp: ws_iff)
  obtain c where c: "meaning (token_text b) c = x" "exec_to b (length p) c (length (p @ 40 # unparse x @ [41]))"
    using exec_parens [OF assms(1-4) w] by blast
  have "char_at b (length (p @ 40 # unparse x @ [41])) = char_at s 0" using char_at_append(2) [of "p @ 40 # unparse x @ [41]" s] assms(2) by simp
  then have "pipe_to b (length p) c (length (p @ 40 # unparse x @ [41]))" using pipe_to_one [OF c(2)] w assms(5) by auto
  then show ?thesis using that c(1) by blast
qed

lemma line_close:
  assumes "pipe_to b i c j" "char_at b j \<in> {0, 41}"
  shows "line_to b i c j"
  using line_to_one [OF assms(1) backs_none assms(2)] assms(2) by (auto simp: ws_iff)

lemma reads_exec:
  assumes "wf_shape (SExec xs)"
  shows "reads_back b (SExec xs)"
  unfolding reads_back_def
proof (intro allI impI)
  have x: "length xs < MAXARGS" "\<forall>w \<in> set xs. is_word w" using assms by auto
  fix p s assume b: "b = p @ unparse (SExec xs) @ s" and s: "closed s" "0 \<notin> set s"
  have e: "char_at b (length p + length (unwords xs)) = char_at s 0" using char_at_append(2) [of "p @ unwords xs" s] by (simp add: b)
  have st: "char_at b (length p) = char_at (unwords xs @ s) 0" by (simp add: b char_at_append)
  have "\<not> ws (char_at b (length p))" "char_at b (length p) \<notin> {40, 60, 62}"
    using unwords_start [of xs s] x(2) s(1) unfolding st by (cases "xs = []"; auto simp: word_char_iff ws_iff)+
  moreover obtain us where "exec_args b (EXEC []) 0 (length p) = Ok (EXEC us) (length p + length (unwords xs))" "map (token_text b) us = xs"
    using args_unwords [of b p xs s "[]"] b s x by auto
  ultimately have "exec_to b (length p) (EXEC us) (length p + length (unwords xs))" "meaning (token_text b) (EXEC us) = SExec xs"
    using exec_to_args [OF _ _ redirs_none] by auto
  moreover have "\<not> ws (char_at s 0)" "char_at s 0 \<noteq> 124" using s(1) by (auto simp: ws_iff)
  ultimately show "\<exists>c. line_to b (length p) c (length p + length (unparse (SExec xs))) \<and> meaning (token_text b) c = SExec xs"
    using line_close [OF pipe_to_one] s(1) e by (intro exI [of _ "EXEC us"]) simp
qed

lemma reads_redir:
  assumes "wf_shape (SRedir x f m fd)" "reads_back b x"
  shows "reads_back b (SRedir x f m fd)"
  unfolding reads_back_def
proof (intro allI impI)
  have x: "wf_shape x" "is_word f" "reads_back b x" using assms by auto
  let ?o = "if fd = 0 then 60 else 62 :: uchar"
  fix p s assume b: "b = p @ unparse (SRedir x f m fd) @ s" and s: "closed s" "0 \<notin> set s"
  let ?p = "p @ 40 # unparse x @ [41]"
  let ?t = "(Suc (length ?p), Suc (length ?p) + length f)"
  have b1: "b = p @ 40 # unparse x @ 41 # ?o # f @ s" and b2: "b = ?p @ ?o # f @ s" using b by simp_all
  have "0 \<notin> set (?o # f @ s)" "\<not> ws (char_at (?o # f @ s) 0)" using x(2) s(2) by (auto simp: is_word_def ws_iff)
  then obtain c where c: "meaning (token_text b) c = x" "\<And>d l. parseredirs b c (length ?p) = Ok d l \<Longrightarrow> exec_to b (length p) d l"
    using exec_unparse [OF x(3) b1 x(1)] by blast
  have o: "?o \<in> {60, 62}" by simp
  have "exec_to b (length p) (redircmd ?o ?t c) (snd ?t)" using c(2) [OF redirs_one [OF b2 o x(2) s]] by simp
  moreover have "b = (?p @ ?o # f) @ s" "snd ?t = length (?p @ ?o # f)" using b2 by simp_all
  then have "char_at b (snd ?t) = char_at s 0" by (simp only: char_at_append)
  ultimately have "line_to b (length p) (redircmd ?o ?t c) (snd ?t)" using s(1) by (auto simp: ws_iff intro!: line_close pipe_to_one)
  moreover have "token_text b ?t = f" using token_text_at [of "?p @ [?o]" f s] by (simp add: b2)
  then have "meaning (token_text b) (redircmd ?o ?t c) = SRedir x f m fd" using c(1) assms(1) by (auto simp: redircmd_def)
  moreover have l: "length p + length (unparse (SRedir x f m fd)) = snd ?t" by simp
  ultimately show "\<exists>c. line_to b (length p) c (length p + length (unparse (SRedir x f m fd))) \<and> meaning (token_text b) c = SRedir x f m fd"
    unfolding l by blast
qed

lemma reads_pipe:
  assumes "wf_shape x" "wf_shape y" "reads_back b x" "reads_back b y"
  shows "reads_back b (SPipe x y)"
  unfolding reads_back_def
proof (intro allI impI)
  note x = assms
  fix p s assume b: "b = p @ unparse (SPipe x y) @ s" and s: "closed s" "0 \<notin> set s"
  let ?p = "p @ 40 # unparse x @ [41]" and ?q = "p @ 40 # unparse x @ [41, 124]"
  have b1: "b = p @ 40 # unparse x @ 41 # 124 # 40 # unparse y @ 41 # s" and b2: "b = ?q @ 40 # unparse y @ 41 # s" using b by simp_all
  obtain c where c: "meaning (token_text b) c = x" "exec_to b (length p) c (length ?p)"
    using exec_parens [OF x(3) b1 x(1)] unparse_no_nul [OF x(2)] s(2) by (auto simp: ws_iff)
  obtain d where d: "meaning (token_text b) d = y" "pipe_to b (length ?q) d (length (?q @ 40 # unparse y @ [41]))"
    using pipe_parens [OF x(4) b2 x(2) s(2)] s(1) by auto
  have "char_at b (length ?p) = 124" "char_at b (Suc (length ?p)) = 40"
    using char_at_append(2) [of ?p "124 # 40 # unparse y @ 41 # s"] char_at_append(2) [of ?q "40 # unparse y @ 41 # s"] b by simp_all
  then have "pipe_to b (length p) (PIPE c d) (length (?q @ 40 # unparse y @ [41]))" using pipe_to_more [OF c(2)] d(2) by (simp add: ws_iff)
  moreover have "char_at b (length (?q @ 40 # unparse y @ [41])) = char_at s 0" using char_at_append(2) [of "?q @ 40 # unparse y @ [41]" s] b by simp
  ultimately have "line_to b (length p) (PIPE c d) (length (?q @ 40 # unparse y @ [41]))" using line_close s(1) by simp
  then show "\<exists>c. line_to b (length p) c (length p + length (unparse (SPipe x y))) \<and> meaning (token_text b) c = SPipe x y"
    using c(1) d(1) by (intro exI [of _ "PIPE c d"]) simp
qed

lemma reads_seq:
  assumes "wf_shape x" "wf_shape y" "reads_back b x" "reads_back b y"
  shows "reads_back b (SSeq x y)"
  unfolding reads_back_def
proof (intro allI impI)
  note x = assms
  fix p s assume b: "b = p @ unparse (SSeq x y) @ s" and s: "closed s" "0 \<notin> set s"
  let ?p = "p @ 40 # unparse x @ [41]" and ?q = "p @ 40 # unparse x @ [41, 59]"
  have b1: "b = p @ 40 # unparse x @ 41 # 59 # 40 # unparse y @ 41 # s" and b2: "b = ?q @ 40 # unparse y @ 41 # s" using b by simp_all
  obtain c where c: "meaning (token_text b) c = x" "pipe_to b (length p) c (length ?p)"
    using pipe_parens [OF x(3) b1 x(1)] unparse_no_nul [OF x(2)] s(2) by auto
  obtain d where d: "meaning (token_text b) d = y" "pipe_to b (length ?q) d (length (?q @ 40 # unparse y @ [41]))"
    using pipe_parens [OF x(4) b2 x(2) s(2)] s(1) by auto
  have "char_at b (length ?p) = 59" "char_at b (Suc (length ?p)) = 40"
    using char_at_append(2) [of ?p "59 # 40 # unparse y @ 41 # s"] char_at_append(2) [of ?q "40 # unparse y @ 41 # s"] b by simp_all
  moreover have "char_at b (length (?q @ 40 # unparse y @ [41])) = char_at s 0" using char_at_append(2) [of "?q @ 40 # unparse y @ [41]" s] b by simp
  then have "line_to b (length ?q) d (length (?q @ 40 # unparse y @ [41]))" using line_close [OF d(2)] s(1) by simp
  ultimately have "line_to b (length p) (LIST c d) (length (?q @ 40 # unparse y @ [41]))" using line_to_list [OF c(2)] by (simp add: ws_iff)
  then show "\<exists>c. line_to b (length p) c (length p + length (unparse (SSeq x y))) \<and> meaning (token_text b) c = SSeq x y"
    using c(1) d(1) by (intro exI [of _ "LIST c d"]) simp
qed

lemma reads_back_job:
  assumes "wf_shape x" "reads_back b x"
  shows "reads_back b (SBack x)"
  unfolding reads_back_def
proof (intro allI impI)
  note x = assms
  fix p s assume b: "b = p @ unparse (SBack x) @ s" and s: "closed s" "0 \<notin> set s"
  let ?p = "p @ 40 # unparse x @ [41]"
  have b1: "b = p @ 40 # unparse x @ 41 # 38 # s" using b by simp
  obtain c where c: "meaning (token_text b) c = x" "pipe_to b (length p) c (length ?p)"
    using pipe_parens [OF x(2) b1 x(1)] s(2) by auto
  have "char_at b (length ?p) = 38" "char_at b (Suc (length ?p)) = char_at s 0"
    using char_at_append(2) [of ?p "38 # s"] char_at_append(2) [of "?p @ [38]" s] b by simp_all
  then have "line_to b (length p) (BACK c) (Suc (length ?p))" using line_to_one [OF c(2) backs_one] s(1) by auto
  then show "\<exists>c. line_to b (length p) c (length p + length (unparse (SBack x))) \<and> meaning (token_text b) c = SBack x"
    using c(1) by (intro exI [of _ "BACK c"]) simp
qed

lemma parse_unparse: "wf_shape x \<Longrightarrow> reads_back b x"
proof (induction x)
  case (SRedir x f m fd)
  then show ?case by (simp add: reads_redir)
qed (simp_all add: reads_exec reads_pipe reads_seq reads_back_job)

section \<open>Correctness of the parser\<close>

text \<open>
  C16: \<open>parsecmd\<close> ends on every line: it returns a command, or it panics with one of four
  messages. The fuel for the recursion of the parser is enough for every line, and the panic
  of \<open>parseblock\<close> cannot be reached.
\<close>

theorem parsecmd_ends:
  "(\<exists>c buf'. parsecmd buf = Ok c buf') \<or> (\<exists>e. e \<in> parse_errors \<and> parsecmd buf = Panic e)"
proof -
  let ?b = "cstr buf"
  have "advances 0 (parseline (4 * length ?b + 4) ?b 0)" using parse_advances(1) [of 0 0 ?b] by simp
  then show ?thesis
    by (cases "parseline (4 * length ?b + 4) ?b 0") (auto simp: parsecmd_def Let_def parse_errors_def)
qed

text \<open>
  C15: A command that \<open>parsecmd\<close> returns is well-formed for \<open>runcmd\<close>: every argument and file name
  is a C string in the buffer that is exactly the word of the line it was read from, no word
  is cut by the terminator of another, a command has fewer than MAXARGS arguments, so that its
  argument vector ends with a null pointer, and a redirection opens descriptor 0 for reading or
  descriptor 1 for writing.
\<close>

theorem parsecmd_wf:
  assumes "parsecmd buf = Ok c buf'"
  shows "wf_shape (meaning (c_string buf') c) \<and> meaning (c_string buf') c = meaning (token_text (cstr buf)) c \<and>
    length buf' = Suc (length (cstr buf))"
  using wf_meaning [OF cstr_no_nul parsecmd_OkD(1) [OF assms]] parsecmd_OkD(2) [OF assms]
  unfolding parsecmd_strings [OF assms] by simp

text \<open>The line \<open>a <b | c\<close>.\<close>

theorem parsecmd_wf_witness:
  "wf_shape (meaning (c_string [97, 0, 60, 98, 0, 124, 32, 99, 0]) (PIPE (REDIR (EXEC [(0, 1)]) (3, 4) 0 0) (EXEC [(7, 8)])))"
proof -
  have "parsecmd [97, 32, 60, 98, 32, 124, 32, 99] = Ok (PIPE (REDIR (EXEC [(0, 1)]) (3, 4) 0 0) (EXEC [(7, 8)])) [97, 0, 60, 98, 0, 124, 32, 99, 0]"
    by code_simp
  from parsecmd_wf [OF this] show ?thesis by (rule conjunct1)
qed

text \<open>
  C14: Writing a command with parentheses around the parts of a pipeline, a list, a background job
  and a redirection, and parsing the line, gives the command back, for every well-formed command.
\<close>

theorem parsecmd_unparse:
  assumes "wf_shape x"
  shows "\<exists>c buf'. parsecmd (unparse x) = Ok c buf' \<and> meaning (c_string buf') c = x"
proof -
  let ?b = "unparse x"
  have n: "0 \<notin> set ?b" using unparse_no_nul [OF assms] .
  then have b: "cstr ?b = ?b" unfolding cstr_def by (metis (mono_tags, lifting) takeWhile_eq_all_conv)
  obtain c where c: "line_to ?b 0 c (length ?b)" "meaning (token_text ?b) c = x"
    using parse_unparse [OF assms, of ?b, unfolded reads_back_def, rule_format, of "[]" "[]"] by auto
  then obtain m where "parseline m ?b 0 = Ok c (length ?b)" by (auto simp: line_to_def)
  then have "parseline (4 * length ?b + 4) ?b 0 = Ok c (length ?b)" by (rule parseline_fuel)
  moreover have "fst (peek ?b (length ?b) []) = length ?b" using peek_here [of ?b "length ?b" "[]"] by (simp add: char_at_def ws_iff)
  ultimately have p: "parsecmd ?b = Ok c (nulterminate c (?b @ [0]))" by (simp add: parsecmd_def b)
  from parsecmd_strings [OF p] c(2) show ?thesis using p by (intro exI [of _ c] exI [of _ "nulterminate c (?b @ [0])"]) (simp add: b)
qed

text \<open>The command \<open>((a <b)|(c))&\<close>.\<close>

theorem parsecmd_unparse_witness:
  "\<exists>c buf'. parsecmd [40, 40, 40, 97, 41, 60, 98, 41, 124, 40, 99, 41, 41, 38] = Ok c buf' \<and>
     meaning (c_string buf') c = SBack (SPipe (SRedir (SExec [[97]]) [98] 0 0) (SExec [[99]]))"
  using parsecmd_unparse [of "SBack (SPipe (SRedir (SExec [[97]]) [98] 0 0) (SExec [[99]]))"]
  by (simp add: is_word_def word_char_iff ws_iff)

end
