(* ===== verification/Grep.thy ===== *)
theory Grep
  imports KString
begin

text \<open>
  The program grep.c: the pattern matcher and the loop that reads a file through a buffer of
  1024 bytes and prints the lines that match. A C string is the list of its bytes.
\<close>

section \<open>The program\<close>

function matchhere :: "uchar list \<Rightarrow> uchar list \<Rightarrow> bool"
  and matchstar :: "uchar \<Rightarrow> uchar list \<Rightarrow> uchar list \<Rightarrow> bool" where
  "matchhere [] tx = True"
| "matchhere (c # re) tx =
     (if re \<noteq> [] \<and> hd re = 42 then matchstar c (tl re) tx
      else if c = 36 \<and> re = [] then tx = []
      else if tx \<noteq> [] \<and> (c = 46 \<or> c = hd tx) then matchhere re (tl tx)
      else False)"
| "matchstar c re tx =
     (if matchhere re tx then True
      else if tx \<noteq> [] \<and> (hd tx = c \<or> c = 46) then matchstar c re (tl tx)
      else False)"
  by pat_completeness auto
termination
  by (relation "measure (\<lambda>x. case x of Inl (re, tx) \<Rightarrow> 2 * (length re + length tx) | Inr (c, re, tx) \<Rightarrow> 2 * (length re + length tx) + 1)") auto

text \<open>The loop of \<open>match\<close> looks at every suffix of the text, the empty one included.\<close>

fun match_from :: "uchar list \<Rightarrow> uchar list \<Rightarrow> bool" where
  "match_from re [] = matchhere re []"
| "match_from re (x # tx) = (if matchhere re (x # tx) then True else match_from re tx)"

definition match :: "uchar list \<Rightarrow> uchar list \<Rightarrow> bool" where
  "match re tx = (if re \<noteq> [] \<and> hd re = 94 then matchhere (tl re) tx else match_from re tx)"

text \<open>
  The inner loop of \<open>grep\<close> on the bytes from \<open>p\<close> to the end of the buffer: what it writes, and
  the bytes that are left.
\<close>

lemma strchr_shorter: "strchr p c = Some q \<Longrightarrow> q \<noteq> [] \<and> length q \<le> length p"
  by (induction p c rule: strchr.induct) (auto split: if_splits)

function grep_scan :: "uchar list \<Rightarrow> uchar list \<Rightarrow> uchar list \<times> uchar list" where
  "grep_scan pat p =
     (case strchr p 10 of
        None \<Rightarrow> ([], p)
      | Some q \<Rightarrow>
          let l = take (length p - length q) p; (out, rest) = grep_scan pat (tl q)
          in (if match pat l then l @ 10 # out else out, rest))"
  by pat_completeness auto
termination
proof (relation "measure (\<lambda>(pat, p). length p)")
  fix pat p q x
  assume "strchr p 10 = Some q"
  then show "((pat, tl q), pat, p) \<in> measure (\<lambda>(pat, p). length p)" using strchr_shorter [of p 10 q] by (cases q) auto
qed simp

declare grep_scan.simps [simp del]

text \<open>
  The outer loop. \<open>rd\<close> is \<open>read\<close> on the descriptor: the bytes that a request for so many gives,
  and the descriptor after it. A buffer without any newline is thrown away.
\<close>

fun grep :: "nat \<Rightarrow> (nat \<Rightarrow> 'f \<Rightarrow> uchar list \<times> 'f) \<Rightarrow> uchar list \<Rightarrow> uchar list \<Rightarrow> 'f \<Rightarrow> uchar list option" where
  "grep 0 rd pat buf f = None"
| "grep (Suc n) rd pat buf f =
     (case rd (1024 - length buf - 1) f of (got, f') \<Rightarrow>
        if got = [] then Some []
        else let (out, rest) = grep_scan pat (buf @ got)
             in map_option (append out) (grep n rd pat (if length rest = length (buf @ got) then [] else rest) f'))"

text \<open>
  \<open>read\<close> on a regular file of which these bytes are left: it gives as many as it is asked for,
  or all there are. A pipe or the console may give fewer.
\<close>

definition file_read :: "nat \<Rightarrow> uchar list \<Rightarrow> uchar list \<times> uchar list" where
  "file_read n f = (take n f, drop n f)"

section \<open>Patterns\<close>

text \<open>
  What a pattern means: a sequence of items, each a character that is matched once or any
  number of times, where a dot is matched by every character, or the end of the line.
\<close>

datatype item = One uchar | Rep uchar | Eol

fun items :: "uchar list \<Rightarrow> item list" where
  "items [] = []"
| "items [c] = (if c = 36 then [Eol] else [One c])"
| "items (c # d # re) = (if d = 42 then Rep c # items re else One c # items (d # re))"

definition fits :: "uchar \<Rightarrow> uchar \<Rightarrow> bool" where
  "fits c x \<longleftrightarrow> c = 46 \<or> c = x"

text \<open>The text \<open>u\<close> is matched where \<open>r\<close> follows.\<close>

fun seq_match :: "item list \<Rightarrow> uchar list \<Rightarrow> uchar list \<Rightarrow> bool" where
  "seq_match [] u r \<longleftrightarrow> u = []"
| "seq_match (One c # its) u r \<longleftrightarrow> (\<exists>x v. u = x # v \<and> fits c x \<and> seq_match its v r)"
| "seq_match (Rep c # its) u r \<longleftrightarrow> (\<exists>v w. u = v @ w \<and> (\<forall>x \<in> set v. fits c x) \<and> seq_match its w r)"
| "seq_match (Eol # its) u r \<longleftrightarrow> u = [] \<and> r = [] \<and> seq_match its u r"

definition matches_here :: "item list \<Rightarrow> uchar list \<Rightarrow> bool" where
  "matches_here its tx \<longleftrightarrow> (\<exists>u r. tx = u @ r \<and> seq_match its u r)"

lemma matches_here_Nil [simp]: "matches_here [] tx"
  by (auto simp: matches_here_def)

lemma matches_here_Eol [simp]: "matches_here [Eol] tx \<longleftrightarrow> tx = []"
  by (auto simp: matches_here_def)

lemma matches_hereI: "seq_match its u r \<Longrightarrow> matches_here its (u @ r)"
  by (auto simp: matches_here_def)

lemma matches_here_One [simp]: "matches_here (One c # its) tx \<longleftrightarrow> tx \<noteq> [] \<and> fits c (hd tx) \<and> matches_here its (tl tx)"
proof (cases tx)
  case (Cons x xs)
  have "matches_here (One c # its) (x # xs)" if "fits c x" "matches_here its xs"
    using matches_hereI [of "One c # its" "x # _"] that unfolding matches_here_def [of its] by fastforce
  moreover have "fits c x \<and> matches_here its xs" if "matches_here (One c # its) (x # xs)"
    using that matches_hereI [of its] unfolding matches_here_def [of "One c # its"] by auto
  ultimately show ?thesis using Cons by auto
qed (simp add: matches_here_def)

lemma matches_here_RepI:
  "\<forall>x \<in> set v. fits c x \<Longrightarrow> seq_match its w r \<Longrightarrow> matches_here (Rep c # its) (v @ w @ r)"
  using matches_hereI [of "Rep c # its" "v @ w" r] by auto

lemma matches_here_RepE:
  assumes "matches_here (Rep c # its) tx"
  obtains v w r where "tx = v @ w @ r" "\<forall>x \<in> set v. fits c x" "seq_match its w r"
  using assms by (auto simp: matches_here_def)

lemma matches_here_Rep:
  "matches_here (Rep c # its) tx \<longleftrightarrow>
     matches_here its tx \<or> tx \<noteq> [] \<and> fits c (hd tx) \<and> matches_here (Rep c # its) (tl tx)"
proof (intro iffI; (elim disjE conjE)?)
  assume "matches_here (Rep c # its) tx"
  then obtain v w r where *: "tx = v @ w @ r" "\<forall>x \<in> set v. fits c x" "seq_match its w r" by (rule matches_here_RepE)
  show "matches_here its tx \<or> tx \<noteq> [] \<and> fits c (hd tx) \<and> matches_here (Rep c # its) (tl tx)"
    using * matches_hereI [OF *(3)] matches_here_RepI [OF _ *(3), of "tl v" c] by (cases v) simp_all
next
  assume "matches_here its tx"
  then show "matches_here (Rep c # its) tx" using matches_here_RepI [of "[]"] by (auto simp: matches_here_def)
next
  assume *: "tx \<noteq> []" "fits c (hd tx)" "matches_here (Rep c # its) (tl tx)"
  from *(3) obtain v w r where v: "tl tx = v @ w @ r" "\<forall>x \<in> set v. fits c x" "seq_match its w r" by (rule matches_here_RepE)
  show "matches_here (Rep c # its) tx" using matches_here_RepI [OF _ v(3), of "hd tx # v" c] v(1,2) *(1,2)
    by (cases tx) auto
qed

lemma matchhere_items:
  "matchhere re tx \<longleftrightarrow> matches_here (items re) tx"
  "matchstar c re tx \<longleftrightarrow> matches_here (Rep c # items re) tx"
proof (induction re tx and c re tx rule: matchhere_matchstar.induct)
  case (2 c re tx)
  then show ?case by (cases re) (auto simp: fits_def)
next
  case (3 c re tx)
  then show ?case by (subst matches_here_Rep) (auto simp: fits_def)
qed simp

lemma match_from_items: "match_from re tx \<longleftrightarrow> (\<exists>p t. tx = p @ t \<and> matches_here (items re) t)"
proof (induction re tx rule: match_from.induct)
  case (2 re x tx)
  have "(\<exists>p t. x # tx = p @ t \<and> matches_here (items re) t) \<longleftrightarrow>
    matches_here (items re) (x # tx) \<or> (\<exists>p t. tx = p @ t \<and> matches_here (items re) t)"
    by (auto simp: Cons_eq_append_conv)
  then show ?case using 2 by (simp add: matchhere_items)
qed (simp add: matchhere_items)

section \<open>Lines\<close>

definition cat_lines :: "uchar list list \<Rightarrow> uchar list" where
  "cat_lines ls = concat (map (\<lambda>l. l @ [10]) ls)"

lemma cat_lines_simps [simp]: "cat_lines [] = []" "cat_lines (l # ls) = l @ 10 # cat_lines ls"
  by (simp_all add: cat_lines_def)

lemma cat_lines_append: "cat_lines (ls @ ms) = cat_lines ls @ cat_lines ms"
  by (simp add: cat_lines_def)

lemma strchr_none: "10 \<notin> set p \<Longrightarrow> strchr p 10 = None"
  by (induction p) auto

lemma strchr_line: "10 \<notin> set l \<Longrightarrow> 0 \<notin> set l \<Longrightarrow> strchr (l @ 10 # p) 10 = Some (10 # p)"
  by (induction l) auto

lemma scan_none: "10 \<notin> set p \<Longrightarrow> grep_scan pat p = ([], p)"
  by (subst grep_scan.simps) (simp add: strchr_none)

lemma scan_line:
  assumes "10 \<notin> set l" "0 \<notin> set l" "grep_scan pat p = (out, rest)"
  shows "grep_scan pat (l @ 10 # p) = (if match pat l then l @ 10 # out else out, rest)"
  by (subst grep_scan.simps) (simp add: strchr_line assms)

text \<open>A buffer with the first bytes of a sequence of lines: the complete lines are handled.\<close>

lemma scan_take:
  assumes "\<forall>l \<in> set ls. 10 \<notin> set l \<and> 0 \<notin> set l" "10 \<notin> set rest"
  shows "\<exists>ks ms r. ls = ks @ ms \<and> grep_scan pat (take n (cat_lines ls @ rest)) = (cat_lines (filter (match pat) ks), r) \<and>
    take n (cat_lines ls @ rest) = cat_lines ks @ r \<and> 10 \<notin> set r \<and> (ks = [] \<longrightarrow> ls = [] \<or> n \<le> length (hd ls))"
  using assms(1)
proof (induction ls arbitrary: n)
  case Nil
  have "10 \<notin> set (take n rest)" using assms(2) by (auto dest: in_set_takeD)
  then show ?case by (simp add: scan_none)
next
  case (Cons l ls)
  show ?case
  proof (cases "n \<le> length l")
    case True
    then have "take n (cat_lines (l # ls) @ rest) = take n l" by simp
    moreover have "10 \<notin> set (take n l)" using Cons.prems by (auto dest: in_set_takeD)
    ultimately show ?thesis using True
      by (intro exI [of _ "[]"] exI [of _ "l # ls"] exI [of _ "take n l"]) (simp add: scan_none)
  next
    case False
    define k where "k = n - Suc (length l)"
    have n: "n = length l + Suc k" using False by (simp add: k_def)
    obtain ks ms r where *: "ls = ks @ ms" "grep_scan pat (take k (cat_lines ls @ rest)) = (cat_lines (filter (match pat) ks), r)"
      "take k (cat_lines ls @ rest) = cat_lines ks @ r" "10 \<notin> set r" using Cons.IH [of k] Cons.prems by auto
    have "take n (cat_lines (l # ls) @ rest) = l @ 10 # take k (cat_lines ls @ rest)" by (simp add: n)
    then show ?thesis using scan_line [OF _ _ *(2), of l] Cons.prems *
      by (intro exI [of _ "l # ks"] exI [of _ ms] exI [of _ r]) simp
  qed
qed

lemma grep_file:
  assumes "\<forall>l \<in> set ls. 10 \<notin> set l \<and> 0 \<notin> set l \<and> length l < 1023" "10 \<notin> set rest"
    "buf @ f = cat_lines ls @ rest" "10 \<notin> set buf" "length buf < 1023" "length f < n"
  shows "grep n file_read pat buf f = Some (cat_lines (filter (match pat) ls))"
  using assms
proof (induction n arbitrary: ls rest buf f)
  case (Suc n)
  let ?m = "1023 - length buf"
  have xs: "buf @ take ?m f = take 1023 (cat_lines ls @ rest)" using Suc.prems(3,5) by (metis nat_less_le take_all take_append)
  obtain ks ms r where k: "ls = ks @ ms" "grep_scan pat (buf @ take ?m f) = (cat_lines (filter (match pat) ks), r)"
    "buf @ take ?m f = cat_lines ks @ r" "10 \<notin> set r" "ks = [] \<longrightarrow> ls = [] \<or> 1023 \<le> length (hd ls)"
    using scan_take [of ls rest pat 1023] Suc.prems(1,2) unfolding xs by blast
  have ks: "ks = [] \<longleftrightarrow> ls = []" using k(1,5) Suc.prems(1) by (cases ls) auto
  have len: "length r = length (buf @ take ?m f) \<longleftrightarrow> ls = []" unfolding k(3) ks [symmetric] by (cases ks) auto
  show ?case
  proof (cases "f = []")
    case True
    then have "ls = []" using Suc.prems(3,4) by (cases ls) auto
    then show ?thesis using True by (simp add: file_read_def)
  next
    case False
    have m: "?m \<noteq> 0" using Suc.prems(5) by simp
    have f: "length (drop ?m f) < n" using False m Suc.prems(6) by (cases f) auto
    have rd: "file_read (1024 - length buf - 1) f = (take ?m f, drop ?m f)" by (simp add: file_read_def)
    have g: "grep n file_read pat (if length r = length (buf @ take ?m f) then [] else r) (drop ?m f) = Some (cat_lines (filter (match pat) ms))"
    proof (cases "ls = []")
      case True
      have "10 \<notin> set (buf @ f)" using Suc.prems(2,3) True by simp
      then have "10 \<notin> set (drop ?m f)" by (auto dest: in_set_dropD)
      then show ?thesis using Suc.IH [of "[]" "drop ?m f" "[]" "drop ?m f"] f len k(1) True by simp
    next
      case nonempty: False
      have "length (cat_lines ks) > 0" using nonempty ks by (cases ks) auto
      moreover have "length (cat_lines ks) + length r \<le> 1023" using Suc.prems(5) unfolding length_append [symmetric] k(3) [symmetric] by simp
      ultimately have l: "length r < 1023" by linarith
      have "cat_lines ks @ r @ drop ?m f = cat_lines ks @ cat_lines ms @ rest"
        using Suc.prems(3) k(1,3) by (metis append.assoc append_take_drop_id cat_lines_append)
      then have "grep n file_read pat r (drop ?m f) = Some (cat_lines (filter (match pat) ms))"
        using Suc.IH [of ms rest r "drop ?m f"] Suc.prems(1,2) f l k(1,4) by simp
      moreover have "length r \<noteq> length (buf @ take ?m f)" using len nonempty by simp
      ultimately show ?thesis by simp
    qed
    show ?thesis unfolding grep.simps rd prod.case Let_def k(2) g using False m by (simp add: k(1) cat_lines_append)
  qed
qed simp

section \<open>Correctness\<close>

text \<open>
  C17: The matcher finds exactly what a pattern means: with a leading \<open>^\<close> the rest of the pattern
  is matched by a prefix of the text, otherwise by some part of it, where a star stands for any
  number of repetitions, a dot for any character and a final \<open>$\<close> for the end of the text.
\<close>

theorem match_correct:
  "match re tx \<longleftrightarrow>
     (if re \<noteq> [] \<and> hd re = 94 then \<exists>u r. tx = u @ r \<and> seq_match (items (tl re)) u r
      else \<exists>p u r. tx = p @ u @ r \<and> seq_match (items re) u r)"
  unfolding match_def matchhere_items match_from_items matches_here_def by auto

text \<open>
  C18: \<open>grep\<close> on a file whose lines have no NUL byte and fit in the buffer prints exactly the
  complete lines that match, in order, wherever the full reads of a regular file cut them; it
  ends after at most as many reads as the file has bytes, and one more.
\<close>

theorem grep_correct:
  assumes "\<forall>l \<in> set ls. 10 \<notin> set l \<and> 0 \<notin> set l \<and> length l < 1023" "10 \<notin> set rest"
    "length (cat_lines ls @ rest) < n"
  shows "grep n file_read pat [] (cat_lines ls @ rest) = Some (cat_lines (filter (match pat) ls))"
  using grep_file [OF assms(1,2), of "[]"] assms(3) by simp

text \<open>The lines \<open>ab\<close>, \<open>b\<close> and \<open>xab\<close> and an incomplete one, searched for \<open>^a*b$\<close>.\<close>

theorem grep_correct_witness:
  "grep 20 file_read [94, 97, 42, 98, 36] [] [97, 98, 10, 98, 10, 120, 97, 98, 10, 97, 98] = Some [97, 98, 10, 98, 10]"
  using grep_correct [of "[[97, 98], [98], [120, 97, 98]]" "[97, 98]" 20 "[94, 97, 42, 98, 36]"] by (simp add: match_def)

end
