(* ===== verification/File.thy ===== *)
theory File
  imports Pipe
begin

text \<open>
  The table of open files, file.c: allocation and reference counts, and reading and writing
  through a file, which may be a pipe or an inode; and \<open>pipealloc\<close> of pipe.c.
\<close>

section \<open>Operations\<close>

definition fupd :: "nat \<Rightarrow> (kfile \<Rightarrow> kfile) \<Rightarrow> 'z file_st_scheme \<Rightarrow> 'z file_st_scheme" where
  "fupd f g s = s\<lparr>files := (files s)(f := g (files s f))\<rparr>"

definition filealloc :: "'z file_st_scheme \<Rightarrow> (nat option, 'z file_st_scheme) res" where
  "filealloc s =
     (case find (\<lambda>f. fref (files s f) = 0) [0..<NFILE] of
        None \<Rightarrow> Ok None s
      | Some f \<Rightarrow> Ok (Some f) (fupd f (\<lambda>x. x\<lparr>fref := 1\<rparr>) s))"

definition filedup :: "nat \<Rightarrow> 'z file_st_scheme \<Rightarrow> (nat, 'z file_st_scheme) res" where
  "filedup f s =
     (if fref (files s f) < 1 then Panic ''filedup'' else Ok f (fupd f (\<lambda>x. x\<lparr>fref := fref x + 1\<rparr>) s))"

definition fileclose :: "nat \<Rightarrow> 'z file_st_scheme \<Rightarrow> (unit, 'z file_st_scheme) res" where
  "fileclose f s =
     (if fref (files s f) < 1 then Panic ''fileclose''
      else let s = fupd f (\<lambda>x. x\<lparr>fref := fref x - 1\<rparr>) s
           in if fref (files s f) > 0 then Ok () s
              else let ff = files s f; s = fupd f (\<lambda>x. x\<lparr>fref := 0, ftyp := FD_NONE\<rparr>) s
                   in if ftyp ff = FD_PIPE then pipeclose (fpipe ff) (writable ff) s
                      else if ftyp ff = FD_INODE
                      then rbind (begin_op s) (\<lambda>_ s. rbind (iput (fip ff) s) (\<lambda>_ s. end_op s))
                      else Ok () s)"

definition filestat :: "nat \<Rightarrow> 'z file_st_scheme \<Rightarrow> (stat option, 'z file_st_scheme) res" where
  "filestat f s =
     (let x = files s f
      in if ftyp x = FD_INODE
         then rbind (ilock (fip x) s) (\<lambda>_ s. let st = stati (fip x) s in rbind (iunlock (fip x) s) (\<lambda>_ s. Ok (Some st) s))
         else Ok None s)"

definition fileread :: "nat \<Rightarrow> cint \<Rightarrow> 'z file_st_scheme \<Rightarrow> (uchar list option, 'z file_st_scheme) res" where
  "fileread f n s =
     (let x = files s f
      in if \<not> readable x then Ok None s
         else if ftyp x = FD_PIPE then piperead (fpipe x) n s
         else if ftyp x = FD_INODE
         then rbind (ilock (fip x) s) (\<lambda>_ s.
              rbind (readi (fip x) (foff (files s f)) n s) (\<lambda>r s.
              let s = (case r of Some cs \<Rightarrow> fupd f (\<lambda>y. y\<lparr>foff := foff y + of_nat (length cs)\<rparr>) s | None \<Rightarrow> s)
              in rbind (iunlock (fip x) s) (\<lambda>_ s. Ok r s)))
         else Panic ''fileread'')"

text \<open>One transaction of \<open>filewrite\<close>, for at most three blocks.\<close>

abbreviation (input) WMAX :: nat where "WMAX \<equiv> 1536"

definition filewrite_chunk :: "nat \<Rightarrow> uchar list \<Rightarrow> 'z file_st_scheme \<Rightarrow> (int, 'z file_st_scheme) res" where
  "filewrite_chunk f cs s =
     (let ip = fip (files s f)
      in rbind (begin_op s) (\<lambda>_ s. rbind (ilock ip s) (\<lambda>_ s.
         rbind (writei ip cs (foff (files s f)) s) (\<lambda>r s.
         let s = (if r > 0 then fupd f (\<lambda>y. y\<lparr>foff := foff y + of_int r\<rparr>) s else s)
         in rbind (iunlock ip s) (\<lambda>_ s. rbind (end_op s) (\<lambda>_ s. Ok r s))))))"

function filewrite_loop :: "nat \<Rightarrow> uchar list \<Rightarrow> 'z file_st_scheme \<Rightarrow> (bool, 'z file_st_scheme) res" where
  "filewrite_loop f cs s =
     (if cs = [] then Ok True s
      else rbind (filewrite_chunk f (take WMAX cs) s) (\<lambda>r s.
           if r < 0 then Ok False s
           else if r \<noteq> int (length (take WMAX cs)) then Panic ''short filewrite''
           else filewrite_loop f (drop WMAX cs) s))"
  by pat_completeness auto
termination
  by (relation "measure (\<lambda>(f, cs, s). length cs)") auto

declare filewrite_loop.simps [simp del]

definition filewrite :: "nat \<Rightarrow> uchar list \<Rightarrow> 'z file_st_scheme \<Rightarrow> (int, 'z file_st_scheme) res" where
  "filewrite f addr s =
     (let x = files s f
      in if \<not> writable x then Ok (- 1) s
         else if ftyp x = FD_PIPE then pipewrite (fpipe x) addr s
         else if ftyp x = FD_INODE
         then rbind (filewrite_loop f addr s) (\<lambda>done s. Ok (if done then int (length addr) else - 1) s)
         else Panic ''filewrite'')"

section \<open>pipealloc (pipe.c)\<close>

text \<open>The code after the label \<open>bad\<close>; the page is never allocated when it is reached.\<close>

definition pipe_bad :: "nat option \<Rightarrow> nat option \<Rightarrow> 'z file_st_scheme \<Rightarrow> ((nat \<times> nat) option, 'z file_st_scheme) res" where
  "pipe_bad f0 f1 s =
     rbind (case f0 of Some f \<Rightarrow> fileclose f s | None \<Rightarrow> Ok () s) (\<lambda>_ s.
     rbind (case f1 of Some f \<Rightarrow> fileclose f s | None \<Rightarrow> Ok () s) (\<lambda>_ s. Ok None s))"

definition pipealloc :: "'z file_st_scheme \<Rightarrow> ((nat \<times> nat) option, 'z file_st_scheme) res" where
  "pipealloc s =
     rbind (filealloc s) (\<lambda>f0 s. case f0 of None \<Rightarrow> pipe_bad None None s | Some f0 \<Rightarrow>
     rbind (filealloc s) (\<lambda>f1 s. case f1 of None \<Rightarrow> pipe_bad (Some f0) None s | Some f1 \<Rightarrow>
     rbind (kalloc s) (\<lambda>p s.
       if p = 0 then pipe_bad (Some f0) (Some f1) s
       else let s = pipe_upd p (\<lambda>x. x\<lparr>readopen := True, writeopen := True, nwrite := 0, nread := 0\<rparr>) s;
                s = fupd f0 (\<lambda>x. x\<lparr>ftyp := FD_PIPE, readable := True, writable := False, fpipe := p\<rparr>) s;
                s = fupd f1 (\<lambda>x. x\<lparr>ftyp := FD_PIPE, readable := False, writable := True, fpipe := p\<rparr>) s
            in Ok (Some (f0, f1)) s)))"

end
