(* ===== verification/ProcLife.thy ===== *)
theory ProcLife
  imports File
begin

text \<open>
  The life of a process, proc.c: the first user process, \<open>fork\<close>, \<open>exit\<close> and \<open>wait\<close>, which
  use the file system and the page tables besides the process table.
\<close>

section \<open>State\<close>

text \<open>\<open>forkret_first\<close> is the static variable \<open>first\<close> of \<open>forkret\<close>.\<close>

record life_st = file_st +
  forkret_first :: bool

text \<open>Offsets in \<open>struct trapframe\<close> (x86.h).\<close>

abbreviation (input) TF_eax :: uint where "TF_eax \<equiv> 28"
abbreviation (input) TF_es :: uint where "TF_es \<equiv> 40"
abbreviation (input) TF_ds :: uint where "TF_ds \<equiv> 44"
abbreviation (input) TF_trapno :: uint where "TF_trapno \<equiv> 48"
abbreviation (input) TF_err :: uint where "TF_err \<equiv> 52"
abbreviation (input) TF_eip :: uint where "TF_eip \<equiv> 56"
abbreviation (input) TF_cs :: uint where "TF_cs \<equiv> 60"
abbreviation (input) TF_eflags :: uint where "TF_eflags \<equiv> 64"
abbreviation (input) TF_esp :: uint where "TF_esp \<equiv> 68"
abbreviation (input) TF_ss :: uint where "TF_ss \<equiv> 72"

definition poke :: "uint \<Rightarrow> uint \<Rightarrow> 'z kmem_st_scheme \<Rightarrow> 'z kmem_st_scheme" where
  "poke a w s = s\<lparr>mem := store32 (mem s) a w\<rparr>"

text \<open>The block \<open>if (stride_scheduler)\<close> of \<open>userinit\<close> and \<open>fork\<close>.\<close>

definition stride_details :: "proc \<Rightarrow> proc" where
  "stride_details p =
     (let p = p\<lparr>tickets := TICKETS_INIT\<rparr>; p = p\<lparr>stride := STRIDE1 div tickets p\<rparr>
      in p\<lparr>pass := 0, remain := stride p, last_scheduled := 0, last_interrupted := 0, runtime := 0\<rparr>)"

definition add_stride :: "string \<Rightarrow> procref \<Rightarrow> 'z con_st_scheme \<Rightarrow> (unit, 'z con_st_scheme) res" where
  "add_stride fn r s =
     (if stride_scheduler s
      then rbind (cprintf (bytes (''adding stride details for PID: %d in '' @ fn) @ [10]) [AInt (pid (pget s r))] s) (\<lambda>_ s.
           Ok () (pupd r stride_details s))
      else Ok () s)"

section \<open>The first process\<close>

text \<open>\<open>initcode\<close> is the program image that the build links in.\<close>

definition userinit :: "uchar list \<Rightarrow> 'z life_st_scheme \<Rightarrow> (unit, 'z life_st_scheme) res" where
  "userinit initcode s =
     rbind (allocproc s) (\<lambda>po s.
       case po of None \<Rightarrow> Panic ''trap'' | Some r \<Rightarrow>
       rbind (setupkvm (s\<lparr>initproc := Some r\<rparr>)) (\<lambda>d s.
       let s = pupd r (\<lambda>p. p\<lparr>pgdir := d\<rparr>) s
       in if d = 0 then Panic ''userinit: out of memory?''
          else rbind (inituvm d initcode s) (\<lambda>_ s.
            let s = pupd r (\<lambda>p. p\<lparr>sz := PGSIZE\<rparr>) s;
                t = tf (pget s r);
                s = s\<lparr>mem := mem_set (mem s) t 0 TFSIZE\<rparr>;
                s = poke (t + TF_cs) 0x1B s;
                s = poke (t + TF_ds) 0x23 s;
                s = poke (t + TF_es) 0x23 s;
                s = poke (t + TF_ss) 0x23 s;
                s = poke (t + TF_eflags) 0x200 s;
                s = poke (t + TF_esp) PGSIZE s;
                s = poke (t + TF_eip) 0 s;
                s = pupd r (\<lambda>p. p\<lparr>name := safestrcpy (name p) (bytes ''initcode'') 16\<rparr>) s
            in rbind (namei (bytes ''/'') s) (\<lambda>ip s.
               let s = pupd r (\<lambda>p. p\<lparr>cwd := ip\<rparr>) s;
                   s = pupd r (\<lambda>p. p\<lparr>state := RUNNABLE\<rparr>) s
               in add_stride ''userinit()'' r s))))"

definition forkret :: "'z life_st_scheme \<Rightarrow> (unit, 'z life_st_scheme) res" where
  "forkret s =
     rbind (release_ptable s) (\<lambda>_ s.
       if forkret_first s
       then rbind (iinit 1 (s\<lparr>forkret_first := False\<rparr>)) (\<lambda>_ s. initlog 1 s)
       else Ok () s)"

section \<open>fork\<close>

definition fork_file :: "procref \<Rightarrow> procref \<Rightarrow> nat \<Rightarrow> 'z life_st_scheme \<Rightarrow> (unit, 'z life_st_scheme) res" where
  "fork_file r np i s =
     (case ofile (pget s r) ! i of
        None \<Rightarrow> Ok () s
      | Some f \<Rightarrow> rbind (filedup f s) (\<lambda>f s. Ok () (pupd np (\<lambda>p. p\<lparr>ofile := (ofile p)[i := Some f]\<rparr>) s)))"

definition fork :: "'z life_st_scheme \<Rightarrow> (cint, 'z life_st_scheme) res" where
  "fork s =
     (case cproc s of None \<Rightarrow> Panic ''trap'' | Some r \<Rightarrow>
      rbind (allocproc s) (\<lambda>np s.
        case np of None \<Rightarrow> Ok (- 1) s | Some np \<Rightarrow>
        rbind (copyuvm (pgdir (pget s r)) (sz (pget s r)) s) (\<lambda>d s.
        let s = pupd np (\<lambda>p. p\<lparr>pgdir := d\<rparr>) s
        in if d = 0
           then rbind (kfree (kstack (pget s np)) s) (\<lambda>_ s.
                Ok (- 1) (pupd np (\<lambda>p. p\<lparr>kstack := 0, state := UNUSED\<rparr>) s))
           else let s = pupd np (\<lambda>p. p\<lparr>sz := sz (pget s r)\<rparr>) s;
                    s = pupd np (\<lambda>p. p\<lparr>pparent := Some r\<rparr>) s;
                    s = s\<lparr>mem := mem_move (mem s) (tf (pget s np)) (tf (pget s r)) TFSIZE\<rparr>;
                    s = poke (tf (pget s np) + TF_eax) 0 s
                in rbind (rfor [0..<NOFILE] (fork_file r np) s) (\<lambda>_ s.
                   case cwd (pget s r) of None \<Rightarrow> Panic ''trap'' | Some ip \<Rightarrow>
                   rbind (idup ip s) (\<lambda>ip s.
                   let s = pupd np (\<lambda>p. p\<lparr>cwd := Some ip\<rparr>) s;
                       s = pupd np (\<lambda>p. p\<lparr>name := safestrcpy (name p) (name (pget s r)) 16\<rparr>) s;
                       pd = pid (pget s np);
                       s = pupd np (\<lambda>p. p\<lparr>state := RUNNABLE\<rparr>) s
                   in rbind (add_stride ''fork()'' np s) (\<lambda>_ s. Ok pd s))))))"

section \<open>exit\<close>

definition exit_file :: "procref \<Rightarrow> nat \<Rightarrow> 'z life_st_scheme \<Rightarrow> (unit, 'z life_st_scheme) res" where
  "exit_file r fd s =
     (case ofile (pget s r) ! fd of
        None \<Rightarrow> Ok () s
      | Some f \<Rightarrow> rbind (fileclose f s) (\<lambda>_ s. Ok () (pupd r (\<lambda>p. p\<lparr>ofile := (ofile p)[fd := None]\<rparr>) s)))"

text \<open>\<open>wakeup1\<close> on a process pointer; nobody sleeps on the null pointer.\<close>

definition wakeup_proc :: "procref option \<Rightarrow> 'z proc_st_scheme \<Rightarrow> 'z proc_st_scheme" where
  "wakeup_proc ro s = (case ro of None \<Rightarrow> s | Some r \<Rightarrow> wakeup1 (ChProc r) s)"

text \<open>One turn of the loop that passes abandoned children to init.\<close>

definition reparent :: "procref \<Rightarrow> nat \<Rightarrow> 'z proc_st_scheme \<Rightarrow> 'z proc_st_scheme" where
  "reparent r i s =
     (if pparent (pget s (Slot i)) = Some r
      then let s = pupd (Slot i) (\<lambda>p. p\<lparr>pparent := initproc s\<rparr>) s
           in if state (pget s (Slot i)) = ZOMBIE then wakeup_proc (initproc s) s else s
      else s)"

text \<open>
  \<open>exit\<close> does not return: its value is that of \<open>sched\<close>, which leaves for the scheduler with
  the registers saved at \<open>ctx\<close>.
\<close>

definition exit :: "uint \<Rightarrow> 'z life_st_scheme \<Rightarrow> (bool, 'z life_st_scheme) res" where
  "exit ctx s =
     (case cproc s of None \<Rightarrow> Panic ''trap'' | Some r \<Rightarrow>
      if Some r = initproc s then Panic ''init exiting''
      else rbind (rfor [0..<NOFILE] (exit_file r) s) (\<lambda>_ s.
           rbind (begin_op s) (\<lambda>_ s.
           case cwd (pget s r) of None \<Rightarrow> Panic ''trap'' | Some ip \<Rightarrow>
           rbind (iput ip s) (\<lambda>_ s.
           rbind (end_op s) (\<lambda>_ s.
           rbind (acquire_ptable (pupd r (\<lambda>p. p\<lparr>cwd := None\<rparr>) s)) (\<lambda>_ s.
           let s = wakeup_proc (pparent (pget s r)) s;
               s = fold (reparent r) [0..<length (ptable s)] s
           in sched ctx (pupd r (\<lambda>p. p\<lparr>state := ZOMBIE\<rparr>) s)))))))"

section \<open>wait\<close>

definition reap :: "nat \<Rightarrow> 'z life_st_scheme \<Rightarrow> (cint, 'z life_st_scheme) res" where
  "reap i s =
     (let pd = pid (pget s (Slot i))
      in rbind (kfree (kstack (pget s (Slot i))) s) (\<lambda>_ s.
         rbind (freevm (pgdir (pget s (Slot i))) (pupd (Slot i) (\<lambda>p. p\<lparr>kstack := 0\<rparr>) s)) (\<lambda>_ s.
         Ok pd (pupd (Slot i) (\<lambda>p. p\<lparr>pid := 0, pparent := None, name := (name p)[0 := 0], killed := False, state := UNUSED\<rparr>) s))))"

definition wait :: "'z life_st_scheme \<Rightarrow> (cint, 'z life_st_scheme) res" where
  "wait s =
     (case cproc s of None \<Rightarrow> Panic ''trap'' | Some r \<Rightarrow>
      (case find_idx (\<lambda>p. pparent p = Some r \<and> state p = ZOMBIE) (ptable s) 0 of
         Some i \<Rightarrow> reap i s
       | None \<Rightarrow>
           if \<not> (\<exists>p \<in> set (ptable s). pparent p = Some r) \<or> killed (pget s r) then Ok (- 1) s
           else sleep (ChProc r) s))"

end
