(* ===== verification/Exec.thy ===== *)
theory Exec
  imports ProcLife
begin

text \<open>
  Running a program, exec.c, with \<open>loaduvm\<close> of vm.c: the ELF headers (elf.h), loading the
  segments into a new page table, building the initial stack, and the switch to the new
  image or the way back through \<open>bad\<close>.
\<close>

section \<open>ELF headers\<close>

abbreviation (input) ELF_MAGIC :: uint where "ELF_MAGIC \<equiv> 0x464C457F"

record elfhdr =
  e_magic :: uint
  e_entry :: uint
  e_phoff :: uint
  e_phnum :: ushort

definition elfhdr_of :: "uchar list \<Rightarrow> elfhdr" where
  "elfhdr_of b = \<lparr>e_magic = get32 b 0, e_entry = get32 b 24, e_phoff = get32 b 28, e_phnum = get16 b 44\<rparr>"

record proghdr =
  ph_type :: uint
  ph_off :: uint
  ph_vaddr :: uint
  ph_filesz :: uint
  ph_memsz :: uint

definition proghdr_of :: "uchar list \<Rightarrow> proghdr" where
  "proghdr_of b = \<lparr>ph_type = get32 b 0, ph_off = get32 b 4, ph_vaddr = get32 b 8, ph_filesz = get32 b 16, ph_memsz = get32 b 20\<rparr>"

section \<open>Loading\<close>

text \<open>The loop of \<open>loaduvm\<close> over the offsets of the pages.\<close>

fun loaduvm_loop :: "uint \<Rightarrow> uint \<Rightarrow> nat \<Rightarrow> uint \<Rightarrow> uint \<Rightarrow> nat list \<Rightarrow> 'z life_st_scheme \<Rightarrow> (int, 'z life_st_scheme) res" where
  "loaduvm_loop d addr ip offset n [] s = Ok 0 s"
| "loaduvm_loop d addr ip offset n (i # is) s =
     rbind (walkpgdir d (addr + of_nat i) False s) (\<lambda>pte s.
       if pte = 0 then Panic ''loaduvm: address should exist''
       else let pa = PTE_ADDR (load32 (mem s) pte);
                m = (if n - of_nat i < PGSIZE then n - of_nat i else PGSIZE)
            in rbind (readi ip (offset + of_nat i) m s) (\<lambda>r s.
                 case r of None \<Rightarrow> Ok (- 1) s
                 | Some bs \<Rightarrow>
                     let s = s\<lparr>mem := store_bytes (mem s) (P2V pa) bs\<rparr>
                     in if length bs \<noteq> unat m then Ok (- 1) s else loaduvm_loop d addr ip offset n is s))"

definition loaduvm :: "uint \<Rightarrow> uint \<Rightarrow> nat \<Rightarrow> uint \<Rightarrow> uint \<Rightarrow> 'z life_st_scheme \<Rightarrow> (int, 'z life_st_scheme) res" where
  "loaduvm d addr ip offset n s =
     (if addr mod PGSIZE \<noteq> 0 then Panic ''loaduvm: addr must be page aligned''
      else loaduvm_loop d addr ip offset n (map (\<lambda>k. 4096 * k) [0..<(unat n + 4095) div 4096]) s)"

text \<open>The loop over the program headers; the value is the new size, or \<open>None\<close> for \<open>goto bad\<close>.\<close>

fun exec_load :: "nat \<Rightarrow> uint \<Rightarrow> uint \<Rightarrow> nat \<Rightarrow> uint \<Rightarrow> 'z life_st_scheme \<Rightarrow> (uint option, 'z life_st_scheme) res" where
  "exec_load 0 off d ip n s = Ok (Some n) s"
| "exec_load (Suc k) off d ip n s =
     rbind (readi ip off 32 s) (\<lambda>r s.
       case r of None \<Rightarrow> Ok None s
       | Some b \<Rightarrow>
         if length b \<noteq> 32 then Ok None s
         else let ph = proghdr_of b
           in if ph_type ph \<noteq> 1 then exec_load k (off + 32) d ip n s
              else if ph_memsz ph < ph_filesz ph then Ok None s
              else if ph_vaddr ph + ph_memsz ph < ph_vaddr ph then Ok None s
              else rbind (allocuvm d n (ph_vaddr ph + ph_memsz ph) s) (\<lambda>n s.
                if n = 0 then Ok None s
                else if ph_vaddr ph mod PGSIZE \<noteq> 0 then Ok None s
                else rbind (loaduvm d (ph_vaddr ph) ip (ph_off ph) (ph_filesz ph) s) (\<lambda>r s.
                  if r < 0 then Ok None s else exec_load k (off + 32) d ip n s)))"

section \<open>The initial stack\<close>

text \<open>
  Pushing the argument strings: \<open>ptrs\<close> is \<open>ustack\<close> from entry 3 on, \<open>None\<close> stands for
  \<open>goto bad\<close>.
\<close>

fun push_args :: "uint \<Rightarrow> uchar list list \<Rightarrow> uint list \<Rightarrow> uint \<Rightarrow> 'z life_st_scheme \<Rightarrow> ((uint \<times> uint list) option, 'z life_st_scheme) res" where
  "push_args d [] ptrs sp s = Ok (Some (sp, ptrs)) s"
| "push_args d (a # as) ptrs sp s =
     (if length ptrs \<ge> MAXARG then Ok None s
      else let sp = (sp - (of_nat (strlen a) + 1)) AND NOT 3
           in rbind (copyout d sp (take (strlen a) a @ [0]) s) (\<lambda>r s.
                if r < 0 then Ok None s else push_args d as (ptrs @ [sp]) sp s))"

definition ustack_bytes :: "uint list \<Rightarrow> uint \<Rightarrow> uchar list" where
  "ustack_bytes ptrs sp =
     (let argc = of_nat (length ptrs)
      in concat (map bytes32 ([0xffffffff, argc, sp - (argc + 1) * 4] @ ptrs @ [0])))"

text \<open>The program name: what follows the last slash of the path.\<close>

definition path_last :: "uchar list \<Rightarrow> uchar list" where
  "path_last path = rev (takeWhile (\<lambda>c. c \<noteq> 47) (rev (cstr path)))"

section \<open>exec\<close>

text \<open>The code after the label \<open>bad\<close>.\<close>

definition exec_bad :: "uint \<Rightarrow> nat option \<Rightarrow> 'z life_st_scheme \<Rightarrow> (int, 'z life_st_scheme) res" where
  "exec_bad d ipo s =
     rbind (if d \<noteq> 0 then freevm d s else Ok () s) (\<lambda>_ s.
       case ipo of None \<Rightarrow> Ok (- 1) s
       | Some ip \<Rightarrow> rbind (iunlockput ip s) (\<lambda>_ s. rbind (end_op s) (\<lambda>_ s. Ok (- 1) s)))"

text \<open>The second half, after the inode has been given back.\<close>

definition exec_stack :: "procref \<Rightarrow> uchar list \<Rightarrow> uchar list list \<Rightarrow> uint \<Rightarrow> uint \<Rightarrow> uint \<Rightarrow> 'z life_st_scheme \<Rightarrow> (int, 'z life_st_scheme) res" where
  "exec_stack r path argv d n entry s =
     (let n = PGROUNDUP n
      in rbind (allocuvm d n (n + 2 * PGSIZE) s) (\<lambda>n s.
         if n = 0 then exec_bad d None s
         else rbind (clearpteu d (n - 2 * PGSIZE) s) (\<lambda>_ s.
              rbind (push_args d argv [] n s) (\<lambda>a s.
              case a of None \<Rightarrow> exec_bad d None s
              | Some (sp, ptrs) \<Rightarrow>
                  let usp = sp - (3 + of_nat (length ptrs) + 1) * 4
                  in rbind (copyout d usp (ustack_bytes ptrs sp) s) (\<lambda>c s.
                     if c < 0 then exec_bad d None s
                     else let s = pupd r (\<lambda>p. p\<lparr>name := safestrcpy (name p) (path_last path) 16\<rparr>) s;
                              old = pgdir (pget s r);
                              s = pupd r (\<lambda>p. p\<lparr>pgdir := d\<rparr>) s;
                              s = pupd r (\<lambda>p. p\<lparr>sz := n\<rparr>) s;
                              s = poke (tf (pget s r) + TF_eip) entry s;
                              s = poke (tf (pget s r) + TF_esp) usp s
                          in rbind (switchuvm (kstack (pget s r)) (pgdir (pget s r)) s) (\<lambda>_ s.
                             rbind (freevm old s) (\<lambda>_ s. Ok 0 s)))))))"

definition exec :: "uchar list \<Rightarrow> uchar list list \<Rightarrow> 'z life_st_scheme \<Rightarrow> (int, 'z life_st_scheme) res" where
  "exec path argv s =
     (case cproc s of None \<Rightarrow> Panic ''trap'' | Some r \<Rightarrow>
      rbind (begin_op s) (\<lambda>_ s.
      rbind (namei path s) (\<lambda>ipo s.
        case ipo of
          None \<Rightarrow> rbind (end_op s) (\<lambda>_ s. rbind (cprintf (bytes ''exec: fail'' @ [10]) [] s) (\<lambda>_ s. Ok (- 1) s))
        | Some ip \<Rightarrow>
            rbind (ilock ip s) (\<lambda>_ s.
            rbind (readi ip 0 52 s) (\<lambda>b s.
            case b of None \<Rightarrow> exec_bad 0 (Some ip) s
            | Some b \<Rightarrow>
              if length b \<noteq> 52 \<or> e_magic (elfhdr_of b) \<noteq> ELF_MAGIC then exec_bad 0 (Some ip) s
              else rbind (setupkvm s) (\<lambda>d s.
                if d = 0 then exec_bad 0 (Some ip) s
                else rbind (exec_load (unat (e_phnum (elfhdr_of b))) (e_phoff (elfhdr_of b)) d ip 0 s) (\<lambda>no s.
                  case no of None \<Rightarrow> exec_bad d (Some ip) s
                  | Some n \<Rightarrow>
                      rbind (iunlockput ip s) (\<lambda>_ s.
                      rbind (end_op s) (\<lambda>_ s.
                      exec_stack r path argv d n (e_entry (elfhdr_of b)) s)))))))))"

end
