(* ===== verification/Args.thy ===== *)
theory Args
  imports Exec
begin

text \<open>
  User memory as the kernel sees it during a system call, and the fetching of system call
  arguments, syscall.c.
\<close>

section \<open>User memory\<close>

text \<open>
  A kernel access to a user address goes through the page table that \<open>cr3\<close> names. It faults
  if the page is not present or, for a store, not writable (entry.S turns on CR0_WP).
\<close>

definition mmu :: "bool \<Rightarrow> uint \<Rightarrow> 'z vm_st_scheme \<Rightarrow> uint option" where
  "mmu wr va s =
     (let pde = load32 (mem s) (P2V (cr3 s) + 4 * PDX va)
      in if pde AND PTE_P = 0 \<or> (wr \<and> pde AND PTE_W = 0) then None
         else let pte = load32 (mem s) (P2V (PTE_ADDR pde) + 4 * PTX va)
              in if pte AND PTE_P = 0 \<or> (wr \<and> pte AND PTE_W = 0) then None
                 else Some (P2V (PTE_ADDR pte) + (va AND 0xFFF)))"

fun load_user :: "nat \<Rightarrow> uint \<Rightarrow> 'z vm_st_scheme \<Rightarrow> uchar list option" where
  "load_user 0 va s = Some []"
| "load_user (Suc n) va s =
     (case mmu False va s of None \<Rightarrow> None | Some a \<Rightarrow> map_option (Cons (mem s a)) (load_user n (va + 1) s))"

fun store_user :: "uint \<Rightarrow> uchar list \<Rightarrow> 'z vm_st_scheme \<Rightarrow> (unit, 'z vm_st_scheme) res" where
  "store_user va [] s = Ok () s"
| "store_user va (c # cs) s =
     (case mmu True va s of None \<Rightarrow> Panic ''trap'' | Some a \<Rightarrow> store_user (va + 1) cs (s\<lparr>mem := (mem s)(a := c)\<rparr>))"

section \<open>Fetching arguments\<close>

text \<open>The value \<open>None\<close> stands for the result -1.\<close>

definition fetchint :: "uint \<Rightarrow> 'z life_st_scheme \<Rightarrow> (cint option, 'z life_st_scheme) res" where
  "fetchint addr s =
     (case cproc s of None \<Rightarrow> Panic ''trap'' | Some r \<Rightarrow>
      if addr \<ge> sz (pget s r) \<or> addr + 4 > sz (pget s r) then Ok None s
      else case load_user 4 addr s of None \<Rightarrow> Panic ''trap'' | Some b \<Rightarrow> Ok (Some (get32 b 0)) s)"

text \<open>The loop of \<open>fetchstr\<close>, with the number of bytes up to the end of the process.\<close>

fun scan_str :: "nat \<Rightarrow> uint \<Rightarrow> 'z life_st_scheme \<Rightarrow> (uchar list option, 'z life_st_scheme) res" where
  "scan_str 0 a s = Ok None s"
| "scan_str (Suc n) a s =
     (case mmu False a s of None \<Rightarrow> Panic ''trap'' | Some k \<Rightarrow>
      if mem s k = 0 then Ok (Some []) s
      else rbind (scan_str n (a + 1) s) (\<lambda>r s. Ok (map_option (Cons (mem s k)) r) s))"

text \<open>The value is the string that \<open>*pp\<close> points to.\<close>

definition fetchstr :: "uint \<Rightarrow> 'z life_st_scheme \<Rightarrow> (uchar list option, 'z life_st_scheme) res" where
  "fetchstr addr s =
     (case cproc s of None \<Rightarrow> Panic ''trap'' | Some r \<Rightarrow>
      if addr \<ge> sz (pget s r) then Ok None s
      else scan_str (unat (sz (pget s r) - addr)) addr s)"

definition argint :: "nat \<Rightarrow> 'z life_st_scheme \<Rightarrow> (cint option, 'z life_st_scheme) res" where
  "argint n s =
     (case cproc s of None \<Rightarrow> Panic ''trap'' | Some r \<Rightarrow>
      fetchint (load32 (mem s) (tf (pget s r) + TF_esp) + 4 + 4 * of_nat n) s)"

definition argptr :: "nat \<Rightarrow> cint \<Rightarrow> 'z life_st_scheme \<Rightarrow> (uint option, 'z life_st_scheme) res" where
  "argptr n len s =
     (case cproc s of None \<Rightarrow> Panic ''trap'' | Some r \<Rightarrow>
      rbind (argint n s) (\<lambda>i s.
        case i of None \<Rightarrow> Ok None s
        | Some i \<Rightarrow> if len <s 0 \<or> i \<ge> sz (pget s r) \<or> i + len > sz (pget s r) then Ok None s else Ok (Some i) s))"

definition argstr :: "nat \<Rightarrow> 'z life_st_scheme \<Rightarrow> (uchar list option, 'z life_st_scheme) res" where
  "argstr n s = rbind (argint n s) (\<lambda>a s. case a of None \<Rightarrow> Ok None s | Some a \<Rightarrow> fetchstr a s)"

text \<open>A system call that takes an argument and returns -1 if there is none.\<close>

definition with_arg :: "('a option, 's) res \<Rightarrow> ('a \<Rightarrow> 's \<Rightarrow> (cint, 's) res) \<Rightarrow> (cint, 's) res" where
  "with_arg m f = rbind m (\<lambda>a s. case a of None \<Rightarrow> Ok (- 1) s | Some a \<Rightarrow> f a s)"

section \<open>System calls on processes (sysproc.c)\<close>

definition sys_fork :: "'z life_st_scheme \<Rightarrow> (cint, 'z life_st_scheme) res" where
  "sys_fork s = fork s"

definition sys_wait :: "'z life_st_scheme \<Rightarrow> (cint, 'z life_st_scheme) res" where
  "sys_wait s = wait s"

definition sys_kill :: "'z life_st_scheme \<Rightarrow> (cint, 'z life_st_scheme) res" where
  "sys_kill s = with_arg (argint 0 s) (\<lambda>pd s. rbind (kill pd s) (\<lambda>r s. Ok (of_int r) s))"

definition sys_getpid :: "'z life_st_scheme \<Rightarrow> (cint, 'z life_st_scheme) res" where
  "sys_getpid s = (case cproc s of None \<Rightarrow> Panic ''trap'' | Some r \<Rightarrow> Ok (pid (pget s r)) s)"

definition sys_sbrk :: "'z life_st_scheme \<Rightarrow> (cint, 'z life_st_scheme) res" where
  "sys_sbrk s =
     with_arg (argint 0 s) (\<lambda>n s.
       case cproc s of None \<Rightarrow> Panic ''trap'' | Some r \<Rightarrow>
       let addr = sz (pget s r)
       in rbind (growproc n s) (\<lambda>g s. Ok (if g < 0 then - 1 else addr) s))"

text \<open>The loop of \<open>sys_sleep\<close>; a process that was woken up goes on with the same \<open>ticks0\<close>.\<close>

definition sleep_until :: "uint \<Rightarrow> cint \<Rightarrow> 'z life_st_scheme \<Rightarrow> (cint, 'z life_st_scheme) res" where
  "sleep_until ticks0 n s =
     (if ticks s - ticks0 < n then (if myproc_killed s then Ok (- 1) s else sleep ChTicks s) else Ok 0 s)"

definition sys_sleep :: "'z life_st_scheme \<Rightarrow> (cint, 'z life_st_scheme) res" where
  "sys_sleep s = with_arg (argint 0 s) (\<lambda>n s. sleep_until (ticks s) n s)"

definition sys_uptime :: "'z life_st_scheme \<Rightarrow> (cint, 'z life_st_scheme) res" where
  "sys_uptime s = Ok (ticks s) s"

end
