(* ===== verification/Sysfile.thy ===== *)
theory Sysfile
  imports Args
begin

text \<open>
  The system calls on files, sysfile.c: argument checking and the calls into the file table,
  the inode layer and the log. Each call that changes the file system is one transaction,
  from \<open>begin_op\<close> to \<open>end_op\<close>.
\<close>

section \<open>Descriptors\<close>

definition argfd :: "nat \<Rightarrow> 'z life_st_scheme \<Rightarrow> ((nat \<times> nat) option, 'z life_st_scheme) res" where
  "argfd n s =
     rbind (argint n s) (\<lambda>a s.
       case a of None \<Rightarrow> Ok None s
       | Some fd \<Rightarrow>
         if fd <s 0 \<or> of_nat NOFILE \<le>s fd then Ok None s
         else case cproc s of None \<Rightarrow> Panic ''trap'' | Some r \<Rightarrow>
           (case ofile (pget s r) ! unat fd of None \<Rightarrow> Ok None s | Some f \<Rightarrow> Ok (Some (unat fd, f)) s))"

definition set_ofile :: "nat \<Rightarrow> nat option \<Rightarrow> 'z life_st_scheme \<Rightarrow> 'z life_st_scheme" where
  "set_ofile fd fo s = (case cproc s of None \<Rightarrow> s | Some r \<Rightarrow> pupd r (\<lambda>p. p\<lparr>ofile := (ofile p)[fd := fo]\<rparr>) s)"

definition fdalloc :: "nat \<Rightarrow> 'z life_st_scheme \<Rightarrow> (nat option, 'z life_st_scheme) res" where
  "fdalloc f s =
     (case cproc s of None \<Rightarrow> Panic ''trap'' | Some r \<Rightarrow>
      (case find (\<lambda>fd. ofile (pget s r) ! fd = None) [0..<NOFILE] of
         None \<Rightarrow> Ok None s
       | Some fd \<Rightarrow> Ok (Some fd) (set_ofile fd (Some f) s)))"

definition sys_dup :: "'z life_st_scheme \<Rightarrow> (cint, 'z life_st_scheme) res" where
  "sys_dup s =
     with_arg (argfd 0 s) (\<lambda>(_, f) s.
     with_arg (fdalloc f s) (\<lambda>fd s. rbind (filedup f s) (\<lambda>_ s. Ok (of_nat fd) s)))"

definition sys_read :: "'z life_st_scheme \<Rightarrow> (cint, 'z life_st_scheme) res" where
  "sys_read s =
     with_arg (argfd 0 s) (\<lambda>(_, f) s. with_arg (argint 2 s) (\<lambda>n s. with_arg (argptr 1 n s) (\<lambda>p s.
       with_arg (fileread f n s) (\<lambda>bs s. rbind (store_user p bs s) (\<lambda>_ s. Ok (of_nat (length bs)) s)))))"

definition sys_write :: "'z life_st_scheme \<Rightarrow> (cint, 'z life_st_scheme) res" where
  "sys_write s =
     with_arg (argfd 0 s) (\<lambda>(_, f) s. with_arg (argint 2 s) (\<lambda>n s. with_arg (argptr 1 n s) (\<lambda>p s.
       case load_user (unat n) p s of
         Some bs \<Rightarrow> rbind (filewrite f bs s) (\<lambda>r s. Ok (of_int r) s)
       | None \<Rightarrow> if writable (files s f) then Panic ''trap'' else Ok (- 1) s)))"

definition sys_close :: "'z life_st_scheme \<Rightarrow> (cint, 'z life_st_scheme) res" where
  "sys_close s =
     with_arg (argfd 0 s) (\<lambda>(fd, f) s. rbind (fileclose f (set_ofile fd None s)) (\<lambda>_ s. Ok 0 s))"

text \<open>The fields of \<open>struct stat\<close> are stored at the offsets the compiler gives them.\<close>

definition store_stat :: "uint \<Rightarrow> stat \<Rightarrow> 'z life_st_scheme \<Rightarrow> (unit, 'z life_st_scheme) res" where
  "store_stat p st s =
     rbind (store_user (p + 4) (bytes32 (st_dev st)) s) (\<lambda>_ s.
     rbind (store_user (p + 8) (bytes32 (st_ino st)) s) (\<lambda>_ s.
     rbind (store_user p (bytes16 (st_type st)) s) (\<lambda>_ s.
     rbind (store_user (p + 12) (bytes16 (st_nlink st)) s) (\<lambda>_ s.
     store_user (p + 16) (bytes32 (st_size st)) s))))"

definition sys_fstat :: "'z life_st_scheme \<Rightarrow> (cint, 'z life_st_scheme) res" where
  "sys_fstat s =
     with_arg (argfd 0 s) (\<lambda>(_, f) s. with_arg (argptr 1 20 s) (\<lambda>p s.
       with_arg (filestat f s) (\<lambda>st s. rbind (store_stat p st s) (\<lambda>_ s. Ok 0 s))))"

section \<open>Links\<close>

text \<open>Leaving a transaction with a result.\<close>

definition end_with :: "cint \<Rightarrow> 'z life_st_scheme \<Rightarrow> (cint, 'z life_st_scheme) res" where
  "end_with v s = rbind (end_op s) (\<lambda>_ s. Ok v s)"

definition put_end :: "nat \<Rightarrow> cint \<Rightarrow> 'z life_st_scheme \<Rightarrow> (cint, 'z life_st_scheme) res" where
  "put_end ip v s = rbind (iunlockput ip s) (\<lambda>_ s. end_with v s)"

definition add_nlink :: "nat \<Rightarrow> ushort \<Rightarrow> 'z life_st_scheme \<Rightarrow> (unit, 'z life_st_scheme) res" where
  "add_nlink ip d s = iupdate ip (iupd ip (\<lambda>x. x\<lparr>inlink := inlink x + d\<rparr>) s)"

text \<open>The code after the label \<open>bad\<close> of \<open>sys_link\<close>.\<close>

definition link_bad :: "nat \<Rightarrow> 'z life_st_scheme \<Rightarrow> (cint, 'z life_st_scheme) res" where
  "link_bad ip s = rbind (ilock ip s) (\<lambda>_ s. rbind (add_nlink ip (- 1) s) (\<lambda>_ s. put_end ip (- 1) s))"

definition sys_link :: "'z life_st_scheme \<Rightarrow> (cint, 'z life_st_scheme) res" where
  "sys_link s =
     with_arg (argstr 0 s) (\<lambda>old s. with_arg (argstr 1 s) (\<lambda>new s.
       rbind (begin_op s) (\<lambda>_ s. rbind (namei old s) (\<lambda>ipo s.
         case ipo of None \<Rightarrow> end_with (- 1) s
         | Some ip \<Rightarrow>
           rbind (ilock ip s) (\<lambda>_ s.
           if itype (inodes s ip) = T_DIR then put_end ip (- 1) s
           else rbind (add_nlink ip 1 s) (\<lambda>_ s. rbind (iunlock ip s) (\<lambda>_ s.
             rbind (nameiparent new s) (\<lambda>(dpo, nm) s.
               case dpo of None \<Rightarrow> link_bad ip s
               | Some dp \<Rightarrow>
                 rbind (ilock dp s) (\<lambda>_ s.
                 rbind (if idev (inodes s dp) \<noteq> idev (inodes s ip) then Ok (- 1) s
                        else dirlink dp nm (inum (inodes s ip)) s) (\<lambda>r s.
                 if r < 0 then rbind (iunlockput dp s) (\<lambda>_ s. link_bad ip s)
                 else rbind (iunlockput dp s) (\<lambda>_ s. rbind (iput ip s) (\<lambda>_ s. end_with 0 s))))))))))))"

section \<open>unlink\<close>

fun dir_empty :: "nat \<Rightarrow> nat list \<Rightarrow> 'z life_st_scheme \<Rightarrow> (bool, 'z life_st_scheme) res" where
  "dir_empty dp [] s = Ok True s"
| "dir_empty dp (off # offs) s =
     rbind (read_dirent ''isdirempty: readi'' dp off s) (\<lambda>de s.
       if de_inum de \<noteq> 0 then Ok False s else dir_empty dp offs s)"

definition isdirempty :: "nat \<Rightarrow> 'z life_st_scheme \<Rightarrow> (bool, 'z life_st_scheme) res" where
  "isdirempty dp s = dir_empty dp (drop 2 (dir_offs (isize (inodes s dp)))) s"

definition sys_unlink :: "'z life_st_scheme \<Rightarrow> (cint, 'z life_st_scheme) res" where
  "sys_unlink s =
     with_arg (argstr 0 s) (\<lambda>path s.
       rbind (begin_op s) (\<lambda>_ s. rbind (nameiparent path s) (\<lambda>(dpo, nm) s.
         case dpo of None \<Rightarrow> end_with (- 1) s
         | Some dp \<Rightarrow>
           rbind (ilock dp s) (\<lambda>_ s.
           if namecmp nm (bytes ''.'') = 0 \<or> namecmp nm (bytes ''..'') = 0 then put_end dp (- 1) s
           else rbind (dirlookup dp nm s) (\<lambda>r s.
             case r of None \<Rightarrow> put_end dp (- 1) s
             | Some (ip, off) \<Rightarrow>
               rbind (ilock ip s) (\<lambda>_ s.
               if sint (inlink (inodes s ip)) < 1 then Panic ''unlink: nlink < 1''
               else rbind (if itype (inodes s ip) = T_DIR then isdirempty ip s else Ok True s) (\<lambda>empty s.
                 if \<not> empty then rbind (iunlockput ip s) (\<lambda>_ s. put_end dp (- 1) s)
                 else rbind (writei dp (replicate 16 0) (of_nat off) s) (\<lambda>w s.
                   if w \<noteq> 16 then Panic ''unlink: writei''
                   else rbind (if itype (inodes s ip) = T_DIR then add_nlink dp (- 1) s else Ok () s) (\<lambda>_ s.
                        rbind (iunlockput dp s) (\<lambda>_ s.
                        rbind (add_nlink ip (- 1) s) (\<lambda>_ s. put_end ip 0 s)))))))))))"

section \<open>create and open\<close>

text \<open>The locked inode of the new file, or of the existing one if a file may be reopened.\<close>

definition create :: "uchar list \<Rightarrow> ushort \<Rightarrow> ushort \<Rightarrow> ushort \<Rightarrow> 'z life_st_scheme \<Rightarrow> (nat option, 'z life_st_scheme) res" where
  "create path ty major minor s =
     rbind (nameiparent path s) (\<lambda>(dpo, nm) s.
       case dpo of None \<Rightarrow> Ok None s
       | Some dp \<Rightarrow>
         rbind (ilock dp s) (\<lambda>_ s.
         rbind (dirlookup dp nm s) (\<lambda>r s.
         case r of
           Some (ip, _) \<Rightarrow>
             rbind (iunlockput dp s) (\<lambda>_ s. rbind (ilock ip s) (\<lambda>_ s.
               if ty = T_FILE \<and> itype (inodes s ip) = T_FILE then Ok (Some ip) s
               else rbind (iunlockput ip s) (\<lambda>_ s. Ok None s)))
         | None \<Rightarrow>
             rbind (ialloc (idev (inodes s dp)) ty s) (\<lambda>ip s.
             rbind (ilock ip s) (\<lambda>_ s.
             rbind (iupdate ip (iupd ip (\<lambda>x. x\<lparr>imajor := major, iminor := minor, inlink := 1\<rparr>) s)) (\<lambda>_ s.
             rbind (if ty = T_DIR
                    then rbind (add_nlink dp 1 s) (\<lambda>_ s.
                         rbind (dirlink ip (bytes ''.'') (inum (inodes s ip)) s) (\<lambda>a s.
                         if a < 0 then Panic ''create dots''
                         else rbind (dirlink ip (bytes ''..'') (inum (inodes s dp)) s) (\<lambda>b s.
                              if b < 0 then Panic ''create dots'' else Ok () s)))
                    else Ok () s) (\<lambda>_ s.
             rbind (dirlink dp nm (inum (inodes s ip)) s) (\<lambda>c s.
             if c < 0 then Panic ''create: dirlink''
             else rbind (iunlockput dp s) (\<lambda>_ s. Ok (Some ip) s)))))))))"

text \<open>The first half of \<open>sys_open\<close>: the locked inode, or \<open>None\<close> after \<open>end_op\<close>.\<close>

definition open_inode :: "uchar list \<Rightarrow> cint \<Rightarrow> 'z life_st_scheme \<Rightarrow> (nat option, 'z life_st_scheme) res" where
  "open_inode path omode s =
     (if omode AND 0x200 \<noteq> 0
      then rbind (create path T_FILE 0 0 s) (\<lambda>ipo s.
             case ipo of None \<Rightarrow> rbind (end_op s) (\<lambda>_ s. Ok None s) | Some ip \<Rightarrow> Ok (Some ip) s)
      else rbind (namei path s) (\<lambda>ipo s.
             case ipo of None \<Rightarrow> rbind (end_op s) (\<lambda>_ s. Ok None s)
             | Some ip \<Rightarrow>
               rbind (ilock ip s) (\<lambda>_ s.
               if itype (inodes s ip) = T_DIR \<and> omode \<noteq> 0
               then rbind (put_end ip (- 1) s) (\<lambda>_ s. Ok None s) else Ok (Some ip) s)))"

definition sys_open :: "'z life_st_scheme \<Rightarrow> (cint, 'z life_st_scheme) res" where
  "sys_open s =
     with_arg (argstr 0 s) (\<lambda>path s. with_arg (argint 1 s) (\<lambda>omode s.
       rbind (begin_op s) (\<lambda>_ s. with_arg (open_inode path omode s) (\<lambda>ip s.
         rbind (filealloc s) (\<lambda>fo s.
         case fo of None \<Rightarrow> put_end ip (- 1) s
         | Some f \<Rightarrow>
           rbind (fdalloc f s) (\<lambda>fdo s.
           case fdo of None \<Rightarrow> rbind (fileclose f s) (\<lambda>_ s. put_end ip (- 1) s)
           | Some fd \<Rightarrow>
             rbind (iunlock ip s) (\<lambda>_ s. rbind (end_op s) (\<lambda>_ s.
             Ok (of_nat fd) (fupd f (\<lambda>x. x\<lparr>ftyp := FD_INODE, fip := ip, foff := 0,
               readable := (omode AND 1 = 0), writable := (omode AND 1 \<noteq> 0 \<or> omode AND 2 \<noteq> 0)\<rparr>) s)))))))))"

definition sys_mkdir :: "'z life_st_scheme \<Rightarrow> (cint, 'z life_st_scheme) res" where
  "sys_mkdir s =
     rbind (begin_op s) (\<lambda>_ s. rbind (argstr 0 s) (\<lambda>a s.
       case a of None \<Rightarrow> end_with (- 1) s
       | Some path \<Rightarrow> rbind (create path T_DIR 0 0 s) (\<lambda>ipo s.
           case ipo of None \<Rightarrow> end_with (- 1) s | Some ip \<Rightarrow> put_end ip 0 s)))"

definition sys_mknod :: "'z life_st_scheme \<Rightarrow> (cint, 'z life_st_scheme) res" where
  "sys_mknod s =
     rbind (begin_op s) (\<lambda>_ s. rbind (argstr 0 s) (\<lambda>a s.
       case a of None \<Rightarrow> end_with (- 1) s | Some path \<Rightarrow>
       rbind (argint 1 s) (\<lambda>a s. case a of None \<Rightarrow> end_with (- 1) s | Some major \<Rightarrow>
       rbind (argint 2 s) (\<lambda>a s. case a of None \<Rightarrow> end_with (- 1) s | Some minor \<Rightarrow>
       rbind (create path T_DEV (ucast major) (ucast minor) s) (\<lambda>ipo s.
         case ipo of None \<Rightarrow> end_with (- 1) s | Some ip \<Rightarrow> put_end ip 0 s)))))"

definition sys_chdir :: "'z life_st_scheme \<Rightarrow> (cint, 'z life_st_scheme) res" where
  "sys_chdir s =
     (case cproc s of None \<Rightarrow> Panic ''trap'' | Some r \<Rightarrow>
      rbind (begin_op s) (\<lambda>_ s. rbind (argstr 0 s) (\<lambda>a s.
        case a of None \<Rightarrow> end_with (- 1) s
        | Some path \<Rightarrow> rbind (namei path s) (\<lambda>ipo s.
            case ipo of None \<Rightarrow> end_with (- 1) s
            | Some ip \<Rightarrow>
              rbind (ilock ip s) (\<lambda>_ s.
              if itype (inodes s ip) \<noteq> T_DIR then put_end ip (- 1) s
              else rbind (iunlock ip s) (\<lambda>_ s.
                case cwd (pget s r) of None \<Rightarrow> Panic ''trap''
                | Some old \<Rightarrow> rbind (iput old s) (\<lambda>_ s. rbind (end_op s) (\<lambda>_ s.
                    Ok 0 (pupd r (\<lambda>p. p\<lparr>cwd := Some ip\<rparr>) s)))))))))"

section \<open>exec and pipe\<close>

fun fetch_argv :: "nat \<Rightarrow> uint \<Rightarrow> 'z life_st_scheme \<Rightarrow> (uchar list list option, 'z life_st_scheme) res" where
  "fetch_argv 0 a s = Ok None s"
| "fetch_argv (Suc n) a s =
     rbind (fetchint a s) (\<lambda>u s.
       case u of None \<Rightarrow> Ok None s
       | Some uarg \<Rightarrow>
         if uarg = 0 then Ok (Some []) s
         else rbind (fetchstr uarg s) (\<lambda>x s.
           case x of None \<Rightarrow> Ok None s
           | Some str \<Rightarrow> rbind (fetch_argv n (a + 4) s) (\<lambda>r s. Ok (map_option (Cons str) r) s)))"

definition sys_exec :: "'z life_st_scheme \<Rightarrow> (cint, 'z life_st_scheme) res" where
  "sys_exec s =
     with_arg (argstr 0 s) (\<lambda>path s. with_arg (argint 1 s) (\<lambda>uargv s.
     with_arg (fetch_argv MAXARG uargv s) (\<lambda>argv s. rbind (exec path argv s) (\<lambda>r s. Ok (of_int r) s))))"

definition sys_pipe :: "'z life_st_scheme \<Rightarrow> (cint, 'z life_st_scheme) res" where
  "sys_pipe s =
     with_arg (argptr 0 8 s) (\<lambda>p s. with_arg (pipealloc s) (\<lambda>(rf, wf) s.
       rbind (fdalloc rf s) (\<lambda>a s.
       case a of None \<Rightarrow> rbind (fileclose rf s) (\<lambda>_ s. rbind (fileclose wf s) (\<lambda>_ s. Ok (- 1) s))
       | Some fd0 \<Rightarrow>
         rbind (fdalloc wf s) (\<lambda>b s.
         case b of None \<Rightarrow> rbind (fileclose rf (set_ofile fd0 None s)) (\<lambda>_ s. rbind (fileclose wf s) (\<lambda>_ s. Ok (- 1) s))
         | Some fd1 \<Rightarrow> rbind (store_user p (bytes32 (of_nat fd0) @ bytes32 (of_nat fd1)) s) (\<lambda>_ s. Ok 0 s)))))"

end
