(* ===== verification/Trap.thy ===== *)
theory Trap
  imports Sysfile
begin

text \<open>
  Entry to the kernel: the system call dispatch of syscall.c and the trap handler of trap.c.
\<close>

section \<open>System calls\<close>

text \<open>
  \<open>exit\<close> never comes back. The value of \<open>syscall\<close> says whether the call returned to its
  caller (\<open>True\<close>) or the process left for the scheduler in \<open>exit\<close> (\<open>False\<close>).
\<close>

definition syscall_table :: "nat \<Rightarrow> ('z life_st_scheme \<Rightarrow> (cint, 'z life_st_scheme) res) option" where
  "syscall_table num =
     map_of [(1, sys_fork), (3, sys_wait), (4, sys_pipe), (5, sys_read), (6, sys_kill), (7, sys_exec), (8, sys_fstat),
       (9, sys_chdir), (10, sys_dup), (11, sys_getpid), (12, sys_sbrk), (13, sys_sleep), (14, sys_uptime),
       (15, sys_open), (16, sys_write), (17, sys_mknod), (18, sys_unlink), (19, sys_link), (20, sys_mkdir),
       (21, sys_close)] num"

definition set_eax :: "procref \<Rightarrow> cint \<Rightarrow> 'z life_st_scheme \<Rightarrow> 'z life_st_scheme" where
  "set_eax r v s = poke (tf (pget s r) + TF_eax) v s"

definition syscall :: "uint \<Rightarrow> 'z life_st_scheme \<Rightarrow> (bool, 'z life_st_scheme) res" where
  "syscall ctx s =
     (case cproc s of None \<Rightarrow> Panic ''trap'' | Some r \<Rightarrow>
      let num = load32 (mem s) (tf (pget s r) + TF_eax)
      in if num = 2 then rbind (exit ctx s) (\<lambda>_ s. Ok False s)
         else case syscall_table (unat num) of
           Some f \<Rightarrow> rbind (f s) (\<lambda>v s. Ok True (set_eax r v s))
         | None \<Rightarrow>
             rbind (cprintf (bytes ''%d %s: unknown sys call %d'' @ [10])
                      [AInt (pid (pget s r)), AStr (Some (name (pget s r))), AInt num] s) (\<lambda>_ s.
             Ok True (set_eax r (- 1) s)))"

section \<open>Traps\<close>

text \<open>
  How \<open>trap\<close> ends: it returns to \<open>trapret\<close>, the process leaves for good in \<open>exit\<close>, or it
  leaves in \<open>yield\<close> and will go on with \<open>trap_resume\<close>.
\<close>

datatype trap_end = Returned | Exited | Yielded bool

definition myproc_is :: "(proc \<Rightarrow> bool) \<Rightarrow> 'z proc_st_scheme \<Rightarrow> bool" where
  "myproc_is P s = (case cproc s of None \<Rightarrow> False | Some r \<Rightarrow> P (pget s r))"

text \<open>The tests of \<open>killed\<close> that end the process on its way back to user space.\<close>

definition exit_if :: "bool \<Rightarrow> uint \<Rightarrow> 'z life_st_scheme \<Rightarrow> ('z life_st_scheme \<Rightarrow> (trap_end, 'z life_st_scheme) res) \<Rightarrow> (trap_end, 'z life_st_scheme) res" where
  "exit_if c ctx s k = (if c then rbind (exit ctx s) (\<lambda>_ s. Ok Exited s) else k s)"

definition trap_resume :: "uint \<Rightarrow> uint \<Rightarrow> 'z life_st_scheme \<Rightarrow> (trap_end, 'z life_st_scheme) res" where
  "trap_resume ctx t s =
     exit_if (myproc_is killed s \<and> load32 (mem s) (t + TF_cs) AND 3 = 3) ctx s (\<lambda>s. Ok Returned s)"

text \<open>The \<open>switch\<close> on the trap number; \<open>cr2\<close> is the faulting address.\<close>

definition trap_switch :: "uint \<Rightarrow> uint \<Rightarrow> 'z life_st_scheme \<Rightarrow> (unit, 'z life_st_scheme) res" where
  "trap_switch cr2 t s =
     (let no = load32 (mem s) (t + TF_trapno); cs = load32 (mem s) (t + TF_cs) AND 0xFFFF;
          eip = load32 (mem s) (t + TF_eip)
      in if no = 32 then Ok () (wakeup ChTicks (s\<lparr>ticks := ticks s + 1\<rparr>))
         else if no = 46 then ideintr s
         else if no = 47 then Ok () s
         else if no = 33 then kbdintr s
         else if no = 36 then uartintr s
         else if no = 39 \<or> no = 63 then cprintf (bytes ''cpu%d: spurious interrupt at %x:%x'' @ [10]) [AInt 0, AInt cs, AInt eip] s
         else if cproc s = None \<or> cs AND 3 = 0
         then rbind (cprintf (bytes ''unexpected trap %d from cpu %d eip %x (cr2=0x%x)'' @ [10]) [AInt no, AInt 0, AInt eip, AInt cr2] s) (\<lambda>_ s.
              Panic ''trap'')
         else (case cproc s of None \<Rightarrow> Panic ''trap'' | Some r \<Rightarrow>
              rbind (cprintf (bytes ''pid %d %s: trap %d err %d on cpu %d eip 0x%x addr 0x%x--kill proc'' @ [10])
                       [AInt (pid (pget s r)), AStr (Some (name (pget s r))), AInt no, AInt (load32 (mem s) (t + TF_err)),
                        AInt 0, AInt eip, AInt cr2] s) (\<lambda>_ s.
              Ok () (pupd r (\<lambda>p. p\<lparr>killed := True\<rparr>) s))))"

definition trap :: "uint \<Rightarrow> uint \<Rightarrow> uint \<Rightarrow> 'z life_st_scheme \<Rightarrow> (trap_end, 'z life_st_scheme) res" where
  "trap ctx cr2 t s =
     (if load32 (mem s) (t + TF_trapno) = 64
      then (case cproc s of None \<Rightarrow> Panic ''trap'' | Some r \<Rightarrow>
           exit_if (killed (pget s r)) ctx s (\<lambda>s.
           rbind (syscall ctx (pupd r (\<lambda>p. p\<lparr>tf := t\<rparr>) s)) (\<lambda>ret s.
           if \<not> ret then Ok Exited s
           else exit_if (myproc_is killed s) ctx s (\<lambda>s. Ok Returned s))))
      else rbind (trap_switch cr2 t s) (\<lambda>_ s.
           exit_if (myproc_is killed s \<and> load32 (mem s) (t + TF_cs) AND 3 = 3) ctx s (\<lambda>s.
           if myproc_is (\<lambda>p. state p = RUNNING) s \<and> load32 (mem s) (t + TF_trapno) = 32
           then rbind (cprintf (bytes ''timer interrupt'' @ [10]) [] s) (\<lambda>_ s.
                rbind (yield ctx s) (\<lambda>ie s. Ok (Yielded ie) s))
           else trap_resume ctx t s)))"

end
