(* ===== verification/Spec2Isabelle.thy ===== *)
theory Spec2Isabelle
  imports FileIO PipeFifo ProcMem ShellSyntax Grep Trap
begin

text \<open>
  Verification of the xv6 kernel with a stride scheduler under src/solution, and of the parts
  of its user programs that compute something.

  \<^bold>\<open>The program and its model.\<close> The kernel is a stack of components, each of which calls the ones
  below it. The state of the model grows in the same order, one record extending the other, so
  that an operation is defined once, on every state that contains what it touches, and is used
  unchanged by the layers above. An operation returns a value of \<open>res\<close> (Prelude): it returns
  with a value and a new state (\<open>Ok\<close>), it calls \<open>panic\<close> (\<open>Panic\<close>, with the message), it goes to
  sleep on a channel and gives up the processor (\<open>Sleep\<close>, with the state it leaves), or it has
  used up the iterations that its loop is given (\<open>Spin\<close>). Machine integers are words of their
  width. Pointers to statically allocated objects are indices; pointers to pages are addresses
  in a byte-addressed memory.

  \<^item> Prelude: types.h, param.h, outcomes, generic lemmas. PhysMem: memory, mmu.h, memlayout.h.
  \<^item> StrideHeap: the heap of proc.c and strideheap.c. The contract of a priority queue is the locale
    \<open>min_queue\<close>, the order of the heap is \<open>heap_order\<close>; both are interpreted for the code's heap. \<open>push\<close>
    and \<open>getsorted\<close> are correct, and the first element out is the least one in.
  \<^item> Kalloc: kalloc.c, a free list in the free pages. \<open>kalloc\<close> and \<open>kfree\<close> keep the invariant that the
    list is a list of distinct pages of free memory; a freed page is the next one given out.
  \<^item> Spinlock: spinlock.c for one processor, and for any number of them as a step relation:
    mutual exclusion and balance of \<open>pushcli\<close> and \<open>popcli\<close>.
  \<^item> Vm: vm.c, the two-level page table as words in memory. PageTable has its meaning as a function
    from pages to entries and the effect of \<open>walkpgdir\<close> and \<open>mappages\<close>; UserMem shows what
    \<open>setupkvm\<close> maps; UserCopy that \<open>copyuvm\<close> makes an independent copy; UserGrow that \<open>allocuvm\<close> and
    \<open>deallocuvm\<close> add and remove exactly the pages they should, also when memory runs out; ProcMem
    what \<open>growproc\<close> does when a process gives back everything.
  \<^item> Proc: proc.c, the process table, \<open>allocproc\<close>, \<open>sleep\<close>, \<open>wakeup\<close>, \<open>kill\<close>, \<open>yield\<close> and both
    schedulers. The stride scheduler picks a least process, but starves all others, because a turn
    changes only a copy of the slot: the next turn even resumes an old context. A pass of the
    round-robin scheduler runs every runnable process.
  \<^item> Sleeplock: sleeplock.c. Ide: buf.h, ide.c and memide.c, two implementations of the locale
    \<open>disk_driver\<close>. The drive interrupts only for a command that the driver has given it; requests
    are served in queue order, with the writes and the data that belong to them.
  \<^item> Bio: bio.c. The links of the cache are a list in order of use, a block is cached at most once,
    and \<open>bread\<close> returns what the disk and the cache together hold of the block.
  \<^item> KString: string.c and ulib.c. Format: \<open>printf\<close> (printf.c) and \<open>cprintf\<close> (console.c)
    implement one reference for all their common conversions; hexadecimal digits are upper case in
    the one and lower case in the other.
  \<^item> Ring: circular buffers with wrapping counters (the locale \<open>circular\<close>, interpreted for the console
    with 128 cells and for pipes with 512). Console: console.c, kbd.c, uart.c; the interrupt handler
    implements a line editor for both sources of characters (the locale \<open>char_source\<close>).
  \<^item> Layout: the on-disk format, fs.h. Log: log.c. Recovery: \<open>commit\<close> is atomic under a crash at any
    write, and under crashes during recovery. Txn: a transaction is one atomic update.
  \<^item> Fs: fs.c. FileSys: \<open>balloc\<close> and \<open>bfree\<close> against the set of free blocks. FileData and FileIO: \<open>bmap\<close>,
    \<open>readi\<close> and \<open>writei\<close> against the sequence of the bytes of a file.
  \<^item> Pipe: pipe.c. PipeFifo: a pipe is a bounded queue, and a stream under every order of turns.
  \<^item> File: file.c. ProcLife: \<open>fork\<close>, \<open>exit\<close>, \<open>wait\<close> and \<open>userinit\<close> of proc.c. Exec: exec.c. Args, Sysfile and
    Trap: syscall.c, sysproc.c, sysfile.c and trap.c. These theories define the operations on the
    full state; properties are stated of the layers below.
  \<^item> Shell: the parser of sh.c. ShellSyntax: it ends on every line, the commands it returns are
    well-formed, and it reads back every command written out with parentheses. Grep: the matcher of
    grep.c decides the declarative meaning of patterns, and the reading loop prints the matching lines.

  \<^bold>\<open>Concurrency.\<close> A critical section of a spin lock is one step, which mutual exclusion (Spinlock)
  justifies. This includes the sections of \<open>ptable.lock\<close> in \<open>allocproc\<close>, \<open>kill\<close>, \<open>wakeup\<close>, \<open>sleep\<close>, \<open>fork\<close>,
  \<open>exit\<close>, \<open>wait\<close> and \<open>userinit\<close>: they end in the same function, or in the scheduler for \<open>sleep\<close> and \<open>exit\<close>, and
  the models leave out the acquire and the release. Only where the lock is handed over between the scheduler and a
  process is it state: in \<open>sched\<close>, \<open>yield\<close> and the two schedulers (with the CPU's \<open>ncli\<close>, \<open>intena\<close> and
  interrupt flag). An operation that has to wait ends in \<open>Sleep\<close>, with the state of the process that
  \<open>sleep\<close> leaves; being woken is going through the operation, or its loop, again, which is what
  the \<open>while\<close> around each \<open>sleep\<close> of the source amounts to. The checks of \<open>sched\<close> are modelled in \<open>sched\<close>, not again on the
  way through \<open>sleep\<close>. What the other side does while a process sleeps is stated as a sequence of steps:
  \<open>iderw_wait\<close> with the interrupts of the drive, the turns of a pipe's writer and reader.
  In the step relation of Spinlock, steps that touch only the CPU's own state are merged with
  the access to the lock next to them.

  \<^bold>\<open>Integers.\<close> Values that the code computes with are words. Small counters that cannot get near
  their bounds are \<open>int\<close> or \<open>nat\<close>: \<open>ncli\<close>, the reference counts of inodes and files, \<open>outstanding\<close> and the
  number of logged blocks.

  \<^bold>\<open>Loops and fuel.\<close> Loops over data are recursive functions with termination proofs. The loops of
  vm.c over pages have the number of pages of their range as fuel, the scans of the buffer list one
  more than the number of buffers, the wait for the disk one interrupt for each of the NBUF buffers
  that can be in its queue; the theorems show that the result is \<open>Ok\<close>, so the fuel is enough. The
  parser of the shell has four units for every byte of the line and four more: every nested line
  starts after a token, and there are four functions on the way down; it is shown that no line
  exhausts them. \<open>consoleintr\<close> has one unit more than the bytes that the device holds. \<open>grep\<close> takes its
  fuel as an argument, and the theorem holds for every fuel above the length of the file.

  \<^bold>\<open>Parameters.\<close> The drive is its initial content, the history of writes and the command it is
  working on. The keyboard controller and the serial port are the bytes that they deliver. \<open>grep\<close> takes \<open>read\<close> as an argument, and its
  theorem is about a regular file, which gives as many bytes as it is asked for.

  \<^bold>\<open>Not modelled.\<close> Start-up and the assembly parts (boot, main.c, mp.c, swtch.S, trapasm.S, usys.S),
  which set up hardware or exist below the level of C; the interrupt controllers (lapic.c, ioapic.c,
  picirq.c) and the set-up of devices and descriptor tables (\<open>seginit\<close>, \<open>tvinit\<close>, \<open>ideinit\<close>, \<open>uartinit\<close>),
  whose effect no source of the repository describes; \<open>getcallerpcs\<close> and the schedulers' debugging
  output; \<open>runcmd\<close> and the input loop of the shell, the main programs of the utilities and the test
  programs, which only issue system calls; the user-level allocator umalloc.c; mkfs.c, a program of the
  host that builds a disk image with the host's file operations.
\<close>

end
